(* ===== verification/Prelude.thy ===== *)
theory Prelude
  imports Main "HOL-Library.Word" "HOL-Library.Sublist" "HOL-Library.Signed_Division"
begin

text \<open>
  Shared vocabulary of the development: the rule collections the components fill, generic
  facts on lists indexed by a thread number, the 32-bit integer conversions of C, and the
  interfaces (locales) that every transition system of the development is an instance of.
\<close>

named_theorems prog_defs "definitions of program fragments, unfolded by symbolic execution"
named_theorems shrink_rules "program constructs never lengthen the script"
named_theorems wp_rules "weakest-precondition rules of the program constructs"

type_synonym byte = "8 word"

section \<open>Lists indexed by a thread number\<close>

text \<open>Replacing one thread's state in a list of thread states changes a sum by one term.\<close>

lemma sum_list_map_update_int:
  "i < length xs \<Longrightarrow>
   sum_list (map f (xs[i := y])) = sum_list (map f xs) - f (xs ! i) + (f y :: int)"
  by (induction xs arbitrary: i) (auto split: nat.splits)

lemma sum_list_map_update_nat:
  "i < length xs \<Longrightarrow>
   sum_list (map f (xs[i := y])) + f (xs ! i) = sum_list (map f xs) + (f y :: nat)"
  by (induction xs arbitrary: i) (auto split: nat.splits)

lemma sum_list_map_ge_nth: "i < length xs \<Longrightarrow> (f (xs ! i) :: nat) \<le> sum_list (map f xs)"
  by (simp add: member_le_sum_list)

lemma sum_list_map_update_diff:
  "i < length xs \<Longrightarrow>
   sum_list (map f (xs[i := y])) = sum_list (map f xs) - f (xs ! i) + (f y :: nat)"
  using sum_list_map_update_nat [of i xs f y] sum_list_map_ge_nth [of i xs f] by simp

lemma sum_list_map_zero_iff:
  "sum_list (map f xs) = (0 :: nat) \<longleftrightarrow> (\<forall>x \<in> set xs. f x = 0)"
  by (induction xs) auto

lemma list_all_update: "list_all P xs \<Longrightarrow> P y \<Longrightarrow> list_all P (xs[i := y])"
  by (auto simp: list_all_iff dest!: set_update_subset_insert [THEN subsetD])

lemma list_all_nthD: "list_all P xs \<Longrightarrow> i < length xs \<Longrightarrow> P (xs ! i)"
  by (simp add: list_all_length)

lemma nth_update_if: "j < length xs \<Longrightarrow> xs[i := x] ! j = (if j = i then x else xs ! j)"
  by (cases "i = j") auto

lemma take_Suc_nth: "i < length xs \<Longrightarrow> take (Suc i) xs = take i xs @ [xs ! i]"
  by (rule take_Suc_conv_app_nth)

section \<open>The 32-bit integers of C\<close>

text \<open>
  A C \<open>int\<close> is modelled by its value. Assigning a wider value to an \<open>int\<close> keeps the
  low 32 bits (the implementation-defined conversion of gcc); an arithmetic result outside
  the range is undefined behaviour and is represented by \<open>None\<close>.
\<close>

definition int_min :: int where "int_min = - (2 ^ 31)"
definition int_max :: int where "int_max = 2 ^ 31 - 1"

definition in_int :: "int \<Rightarrow> bool" where
  "in_int x \<longleftrightarrow> int_min \<le> x \<and> x \<le> int_max"

definition to_int32 :: "int \<Rightarrow> int" where
  "to_int32 x = signed_take_bit 31 x"

definition c_int :: "int \<Rightarrow> int option" where
  "c_int x = (if in_int x then Some x else None)"

definition c_div :: "int \<Rightarrow> int \<Rightarrow> int option" where
  "c_div a b = (if b = 0 then None else c_int (a sdiv b))"

definition c_mod :: "int \<Rightarrow> int \<Rightarrow> int option" where
  "c_mod a b = (if b = 0 \<or> \<not> in_int (a sdiv b) then None else Some (a smod b))"

lemma in_int_iff: "in_int x \<longleftrightarrow> - 2147483648 \<le> x \<and> x \<le> 2147483647"
  by (simp add: in_int_def int_min_def int_max_def)

lemma to_int32_id [simp]: "in_int x \<Longrightarrow> to_int32 x = x"
  by (simp add: to_int32_def in_int_iff signed_take_bit_int_eq_self)

lemma to_int32_range: "in_int (to_int32 x)"
  using signed_take_bit_int_greater_eq_minus_exp [of 31 x] signed_take_bit_int_less_exp [of 31 x]
  by (simp add: to_int32_def in_int_iff)

lemma c_int_Some [simp]: "c_int x = Some y \<longleftrightarrow> in_int x \<and> y = x"
  by (auto simp: c_int_def)

lemma c_int_None [simp]: "c_int x = None \<longleftrightarrow> \<not> in_int x"
  by (simp add: c_int_def)

lemma c_mod_nonneg: "0 \<le> a \<Longrightarrow> in_int a \<Longrightarrow> 0 < b \<Longrightarrow> c_mod a b = Some (a mod b)"
proof -
  assume a: "0 \<le> a" "in_int a" and b: "0 < b"
  then have "a sdiv b = a div b" and "a smod b = a mod b"
    by (simp_all add: signed_divide_int_def signed_modulo_int_def minus_mult_div_eq_mod sgn_if)
  moreover have "0 \<le> a div b" "a div b \<le> a"
    using a b by (simp add: pos_imp_zdiv_nonneg_iff)
      (metis a(1) b div_by_1 zdiv_mono2 int_one_le_iff_zero_less zero_less_one)
  ultimately show ?thesis
    using a b by (simp add: c_mod_def in_int_iff)
qed

section \<open>Interfaces: transition systems, invariants, termination\<close>

text \<open>
  Every concurrent program of the repository is a step relation on a state type. A client
  of the interface supplies the initial states, the steps and an invariant; the interface
  gives it the invariant in every reachable state.
\<close>

locale inv_system =
  fixes init :: "'s \<Rightarrow> bool"
    and step :: "'s \<Rightarrow> 's \<Rightarrow> bool"
    and invariant :: "'s \<Rightarrow> bool"
  assumes inv_init: "init s \<Longrightarrow> invariant s"
    and inv_step: "invariant s \<Longrightarrow> step s t \<Longrightarrow> invariant t"
begin

lemma inv_steps: "step\<^sup>*\<^sup>* s t \<Longrightarrow> invariant s \<Longrightarrow> invariant t"
  by (induction rule: rtranclp_induct) (auto intro: inv_step)

lemma inv_reachable: "init s \<Longrightarrow> step\<^sup>*\<^sup>* s t \<Longrightarrow> invariant t"
  by (blast intro: inv_steps inv_init)

end

text \<open>
  A terminating system also supplies a measure every step decreases and the final states,
  outside which some step is possible. Then no run is longer than the initial measure, and
  every reachable state can be continued to a final one.
\<close>

locale terminating_system = inv_system init step invariant
  for init :: "'s \<Rightarrow> bool" and step :: "'s \<Rightarrow> 's \<Rightarrow> bool" and invariant :: "'s \<Rightarrow> bool" +
  fixes mu :: "'s \<Rightarrow> nat"
    and final :: "'s \<Rightarrow> bool"
  assumes mu_step: "invariant s \<Longrightarrow> step s t \<Longrightarrow> mu t < mu s"
    and progress: "invariant s \<Longrightarrow> \<not> final s \<Longrightarrow> \<exists>t. step s t"
begin

lemma run_length: "(step ^^ n) s t \<Longrightarrow> invariant s \<Longrightarrow> n + mu t \<le> mu s"
proof (induction n arbitrary: t)
  case 0
  then show ?case by simp
next
  case (Suc n)
  then obtain u where u: "(step ^^ n) s u" "step u t"
    by auto
  then have "step\<^sup>*\<^sup>* s u" by (simp add: relpowp_imp_rtranclp)
  then have "invariant u" using Suc.prems(2) by (rule inv_steps)
  then have "mu t < mu u" using u(2) by (rule mu_step)
  with Suc.IH [OF u(1) Suc.prems(2)] show ?case by simp
qed

lemma reaches_final: "invariant s \<Longrightarrow> \<exists>t. step\<^sup>*\<^sup>* s t \<and> final t"
proof (induction "mu s" arbitrary: s rule: less_induct)
  case less
  show ?case
  proof (cases "final s")
    case True
    then show ?thesis by blast
  next
    case False
    with less.prems obtain u where u: "step s u" using progress by blast
    have "mu u < mu s" "invariant u"
      using less.prems u by (auto intro: mu_step inv_step)
    then obtain t where "step\<^sup>*\<^sup>* u t" "final t" using less.hyps by blast
    with u show ?thesis by (meson converse_rtranclp_into_rtranclp)
  qed
qed

lemma stuck_is_final: "init s \<Longrightarrow> step\<^sup>*\<^sup>* s t \<Longrightarrow> (\<nexists>u. step t u) \<Longrightarrow> final t"
  using inv_reachable progress by blast

end

end
