(* ===== verification/CLib.thy ===== *)
theory CLib
  imports Prelude
begin

text \<open>
  The parts of the C standard library the programs use, on byte arrays: strings, decimal
  printing and parsing, character classes, the network byte order conversions of a
  little-endian host, and the memory image of 32-bit integers.
\<close>

unbundle bit_operations_syntax

section \<open>Strings\<close>

definition str :: "string \<Rightarrow> byte list" where
  "str s = map of_char s"

definition cstr :: "byte list \<Rightarrow> byte list" where
  "cstr buf = takeWhile (\<lambda>b. b \<noteq> 0) buf"

definition strlen :: "byte list \<Rightarrow> nat" where
  "strlen buf = length (cstr buf)"

lemma cstr_append_nul [simp]: "0 \<notin> set s \<Longrightarrow> cstr (s @ 0 # rest) = s"
  by (auto simp: cstr_def takeWhile_append takeWhile_eq_all_conv)

lemma cstr_all [simp]: "0 \<notin> set s \<Longrightarrow> cstr s = s"
  by (auto simp: cstr_def takeWhile_eq_all_conv)

lemma cstr_no_nul [simp]: "0 \<notin> set (cstr buf)"
  by (auto simp: cstr_def dest: set_takeWhileD)

lemma cstr_padding: "cstr (s @ replicate m 0) = cstr s"
proof (cases "0 \<in> set s")
  case True
  then show ?thesis by (auto simp: cstr_def takeWhile_append)
next
  case False
  then show ?thesis by (cases m) simp_all
qed

lemma strlen_le: "strlen buf \<le> length buf"
  by (simp add: strlen_def cstr_def length_takeWhile_le)

section \<open>Character classes\<close>

definition is_digit :: "byte \<Rightarrow> bool" where
  "is_digit b \<longleftrightarrow> 48 \<le> uint b \<and> uint b \<le> 57"

definition is_upper :: "byte \<Rightarrow> bool" where
  "is_upper b \<longleftrightarrow> 65 \<le> uint b \<and> uint b \<le> 90"

definition is_lower :: "byte \<Rightarrow> bool" where
  "is_lower b \<longleftrightarrow> 97 \<le> uint b \<and> uint b \<le> 122"

definition isalnum :: "byte \<Rightarrow> bool" where
  "isalnum b \<longleftrightarrow> is_digit b \<or> is_upper b \<or> is_lower b"

definition isspace :: "byte \<Rightarrow> bool" where
  "isspace b \<longleftrightarrow> uint b = 32 \<or> (9 \<le> uint b \<and> uint b \<le> 13)"

lemma isalnum_0 [simp]: "\<not> isalnum 0"
  by (simp add: isalnum_def is_digit_def is_upper_def is_lower_def)

section \<open>Decimal printing and parsing\<close>

fun digits :: "nat \<Rightarrow> byte list" where
  "digits n = (if n < 10 then [of_nat (48 + n)]
     else digits (n div 10) @ [of_nat (48 + n mod 10)])"

declare digits.simps [simp del]

text \<open>The conversion \<open>%d\<close> of printf and sprintf.\<close>

definition fmt_d :: "int \<Rightarrow> byte list" where
  "fmt_d x = (if x < 0 then 45 # digits (nat (- x)) else digits (nat x))"

text \<open>
  \<open>atoi\<close> of glibc, which is \<open>(int) strtol (s, NULL, 10)\<close>: leading white space, a sign,
  digits up to the first other character; the value saturates at the range of \<open>long\<close> and
  is then converted to \<open>int\<close>.
\<close>

definition dec_value :: "byte list \<Rightarrow> int" where
  "dec_value ds = foldl (\<lambda>acc d. 10 * acc + (uint d - 48)) 0 ds"

definition strtol10 :: "byte list \<Rightarrow> int" where
  "strtol10 s =
     (let s1 = dropWhile isspace s;
          neg = (s1 \<noteq> [] \<and> hd s1 = 45);
          s2 = (if s1 \<noteq> [] \<and> (hd s1 = 45 \<or> hd s1 = 43) then tl s1 else s1);
          v = dec_value (takeWhile is_digit s2)
      in max (- (2 ^ 63)) (min (2 ^ 63 - 1) (if neg then - v else v)))"

definition atoi :: "byte list \<Rightarrow> int" where
  "atoi s = to_int32 (strtol10 (cstr s))"

lemma atoi_in_int [simp]: "in_int (atoi s)"
  by (simp add: atoi_def to_int32_range)

lemma digit_val: "n < 10 \<Longrightarrow> uint (of_nat (48 + n) :: byte) = 48 + int n"
  by (simp add: unsigned_of_nat take_bit_nat_eq_self del: of_nat_add)

lemma digit_is_digit: "n < 10 \<Longrightarrow> is_digit (of_nat (48 + n))"
  by (simp only: is_digit_def digit_val) simp

lemma digits_are_digits: "list_all is_digit (digits n)"
proof (induction n rule: digits.induct)
  case (1 n)
  show ?case
  proof (cases "n < 10")
    case True
    then show ?thesis by (subst digits.simps) (simp add: digit_is_digit del: of_nat_add)
  next
    case False
    have "is_digit (of_nat (48 + n mod 10))" by (rule digit_is_digit) simp
    with False "1.IH" show ?thesis by (subst digits.simps) (simp del: of_nat_add)
  qed
qed

lemma dec_value_append: "dec_value (xs @ [d]) = 10 * dec_value xs + (uint d - 48)"
  by (simp add: dec_value_def)

lemma dec_value_digits: "dec_value (digits n) = int n"
proof (induction n rule: digits.induct)
  case (1 n)
  show ?case
  proof (cases "n < 10")
    case True
    then show ?thesis
      by (subst digits.simps) (simp add: dec_value_def digit_val del: of_nat_add)
  next
    case False
    have "n mod 10 < 10" by simp
    then have d: "uint (of_nat (48 + n mod 10) :: byte) = 48 + int (n mod 10)" by (rule digit_val)
    show ?thesis using False "1.IH"
      by (subst digits.simps) (simp add: dec_value_append d zmod_int zdiv_int del: of_nat_add)
  qed
qed

lemma digits_nonempty [simp]: "digits n \<noteq> []"
  by (subst digits.simps) simp

lemma digit_not_special: "is_digit d \<Longrightarrow> d \<noteq> 0 \<and> d \<noteq> 45 \<and> d \<noteq> 43 \<and> \<not> isspace d"
  by (auto simp: is_digit_def isspace_def)

lemma digits_hd: "is_digit (hd (digits n))"
  using digits_are_digits [of n] by (cases "digits n") auto

lemma digits_no_nul [simp]: "0 \<notin> set (digits n)"
  using digits_are_digits [of n] digit_not_special by (auto simp: list_all_iff)

lemma fmt_d_no_nul [simp]: "0 \<notin> set (fmt_d x)"
  by (simp add: fmt_d_def)

lemma fmt_d_nonempty [simp]: "fmt_d x \<noteq> []"
  by (simp add: fmt_d_def)

lemma takeWhile_digits:
  "ds \<noteq> [] \<Longrightarrow> list_all is_digit ds \<Longrightarrow> takeWhile is_digit ds = ds"
  by (simp add: takeWhile_eq_all_conv list_all_iff)

lemma strtol10_digits:
  assumes "ds \<noteq> []" "list_all is_digit ds"
  shows "strtol10 ds = max (- (2 ^ 63)) (min (2 ^ 63 - 1) (dec_value ds))"
    and "strtol10 (45 # ds) = max (- (2 ^ 63)) (min (2 ^ 63 - 1) (- dec_value ds))"
proof -
  obtain d ds' where ds: "ds = d # ds'" using assms(1) by (cases ds) auto
  then have d: "d \<noteq> 45" "d \<noteq> 43" "\<not> isspace d"
    using assms(2) digit_not_special by auto
  show "strtol10 ds = max (- (2 ^ 63)) (min (2 ^ 63 - 1) (dec_value ds))"
    using d takeWhile_digits [OF assms] by (simp add: strtol10_def ds)
  have "\<not> isspace 45" by (simp add: isspace_def)
  then show "strtol10 (45 # ds) = max (- (2 ^ 63)) (min (2 ^ 63 - 1) (- dec_value ds))"
    using takeWhile_digits [OF assms] by (simp add: strtol10_def del: takeWhile_eq_all_conv)
qed

text \<open>Parsing a printed number gives the number back, whatever follows its terminator.\<close>

lemma atoi_fmt_d:
  assumes "in_int x"
  shows "atoi (fmt_d x @ 0 # rest) = x" and "atoi (fmt_d x) = x"
proof -
  have "strtol10 (fmt_d x) = x"
    using assms strtol10_digits [OF digits_nonempty digits_are_digits, of "nat x"]
      strtol10_digits [OF digits_nonempty digits_are_digits, of "nat (- x)"]
    by (auto simp: fmt_d_def dec_value_digits in_int_iff)
  then show "atoi (fmt_d x @ 0 # rest) = x" and "atoi (fmt_d x) = x"
    using assms by (simp_all add: atoi_def)
qed

lemma digits_length: "length (digits n) \<le> k \<longleftrightarrow> n < 10 ^ k" if "0 < k"
  using that
proof (induction n arbitrary: k rule: digits.induct)
  case (1 n)
  show ?case
  proof (cases "n < 10")
    case True
    moreover have "(10::nat) ^ 1 \<le> 10 ^ k" using "1.prems" by (intro power_increasing) auto
    ultimately show ?thesis using "1.prems" by (subst digits.simps) (simp add: less_le_trans)
  next
    case False
    obtain m where k: "k = Suc m" using "1.prems" by (cases k) auto
    show ?thesis
    proof (cases "m = 0")
      case True
      with False k show ?thesis by (subst digits.simps) simp
    next
      case m: False
      then have "length (digits (n div 10)) \<le> m \<longleftrightarrow> n div 10 < 10 ^ m"
        using "1.IH" [OF False] by simp
      also have "\<dots> \<longleftrightarrow> n < 10 ^ k"
        by (simp add: k div_less_iff_less_mult mult.commute)
      finally show ?thesis using False k by (subst digits.simps) simp
    qed
  qed
qed

lemma fmt_d_length: "in_int x \<Longrightarrow> length (fmt_d x) \<le> 11"
  using digits_length [of 10 "nat x"] digits_length [of 10 "nat (- x)"]
  by (auto simp: fmt_d_def in_int_iff)

section \<open>Memory images and network byte order\<close>

text \<open>The bytes of a 32-bit and a 16-bit integer in the memory of a little-endian host.\<close>

definition bytes32 :: "32 word \<Rightarrow> byte list" where
  "bytes32 w = [ucast w, ucast (drop_bit 8 w), ucast (drop_bit 16 w), ucast (drop_bit 24 w)]"

fun word32 :: "byte list \<Rightarrow> 32 word" where
  "word32 (a # b # c # d # _) =
     ucast a OR push_bit 8 (ucast b) OR push_bit 16 (ucast c) OR push_bit 24 (ucast d)"
| "word32 _ = 0"

definition bytes16 :: "16 word \<Rightarrow> byte list" where
  "bytes16 w = [ucast w, ucast (drop_bit 8 w)]"

fun word16 :: "byte list \<Rightarrow> 16 word" where
  "word16 (a # b # _) = ucast a OR push_bit 8 (ucast b)"
| "word16 _ = 0"

definition htonl :: "32 word \<Rightarrow> 32 word" where
  "htonl w = word32 (rev (bytes32 w))"

definition ntohl :: "32 word \<Rightarrow> 32 word" where
  "ntohl w = word32 (rev (bytes32 w))"

definition htons :: "16 word \<Rightarrow> 16 word" where
  "htons w = word16 (rev (bytes16 w))"

definition ntohs :: "16 word \<Rightarrow> 16 word" where
  "ntohs w = word16 (rev (bytes16 w))"

lemma bit_byte_beyond [simp]: "8 \<le> n \<Longrightarrow> \<not> bit (a :: byte) n"
  by (auto dest: bit_imp_le_length)

lemma word32_bytes32 [simp]: "word32 (bytes32 w @ rest) = w"
proof (rule bit_word_eqI)
  fix n assume "n < LENGTH(32)"
  then consider "n < 8" | "8 \<le> n" "n < 16" | "16 \<le> n" "n < 24" | "24 \<le> n" "n < 32"
    by fastforce
  then show "bit (word32 (bytes32 w @ rest)) n = bit w n"
    by cases (auto simp: bytes32_def bit_simps)
qed

lemma word32_bytes32_nil [simp]: "word32 (bytes32 w) = w"
  using word32_bytes32 [of w "[]"] by simp

lemma bytes32_word32 [simp]: "bytes32 (word32 (a # b # c # d # rest)) = [a, b, c, d]"
  by (auto simp: bytes32_def bit_simps intro!: bit_word_eqI)

lemma word16_bytes16 [simp]: "word16 (bytes16 w @ rest) = w"
proof (rule bit_word_eqI)
  fix n assume "n < LENGTH(16)"
  then consider "n < 8" | "8 \<le> n" "n < 16"
    by fastforce
  then show "bit (word16 (bytes16 w @ rest)) n = bit w n"
    by cases (auto simp: bytes16_def bit_simps)
qed

lemma word16_bytes16_nil [simp]: "word16 (bytes16 w) = w"
  using word16_bytes16 [of w "[]"] by simp

lemma bytes16_word16 [simp]: "bytes16 (word16 (a # b # rest)) = [a, b]"
  by (auto simp: bytes16_def bit_simps intro!: bit_word_eqI)

lemma bytes32_cases: obtains a b c d where "bytes32 w = [a, b, c, d]" "word32 [a, b, c, d] = w"
proof -
  obtain a b c d where "bytes32 w = [a, b, c, d]" by (simp add: bytes32_def)
  moreover from this have "word32 [a, b, c, d] = w" by (metis word32_bytes32_nil)
  ultimately show ?thesis by (rule that)
qed

lemma length_bytes32 [simp]: "length (bytes32 w) = 4"
  by (simp add: bytes32_def)

lemma length_bytes16 [simp]: "length (bytes16 w) = 2"
  by (simp add: bytes16_def)

lemma bytes32_inj [simp]: "bytes32 v = bytes32 w \<longleftrightarrow> v = w"
  by (metis word32_bytes32_nil)

lemma htonl_inverse [simp]: "ntohl (htonl w) = w" "htonl (ntohl w) = w"
  unfolding htonl_def ntohl_def
  by (rule bytes32_cases [of w], simp del: word32.simps)+

lemma htonl_inj [simp]: "htonl v = htonl w \<longleftrightarrow> v = w"
  by (metis htonl_inverse(1))

lemma ntohs_htons [simp]: "ntohs (htons w) = w"
proof -
  obtain a b where v: "bytes16 w = [a, b]" by (simp add: bytes16_def)
  then have "word16 [a, b] = w" by (metis word16_bytes16_nil)
  then show ?thesis by (simp add: ntohs_def htons_def v del: word16.simps)
qed

text \<open>An array of 32-bit integers and its memory image.\<close>

definition image32 :: "32 word list \<Rightarrow> byte list" where
  "image32 ws = concat (map bytes32 ws)"

fun words32 :: "byte list \<Rightarrow> 32 word list" where
  "words32 (a # b # c # d # rest) = word32 [a, b, c, d] # words32 rest"
| "words32 _ = []"

lemma words32_image32 [simp]: "words32 (image32 ws) = ws"
proof (induction ws)
  case Nil
  then show ?case by (simp add: image32_def)
next
  case (Cons w ws)
  show ?case
    by (rule bytes32_cases [of w]) (use Cons in \<open>simp add: image32_def del: word32.simps\<close>)
qed

lemma length_image32 [simp]: "length (image32 ws) = 4 * length ws"
  by (induction ws) (simp_all add: image32_def)

lemma image32_nil [simp]: "image32 ws = [] \<longleftrightarrow> ws = []"
  by (metis length_0_conv length_image32 mult_eq_0_iff zero_neq_numeral)

lemma length_words32: "length (words32 bs) = length bs div 4"
  by (induction bs rule: words32.induct) auto

lemma image32_words32: "length bs = 4 * n \<Longrightarrow> image32 (words32 bs) = bs"
proof (induction bs arbitrary: n rule: words32.induct)
  case (1 a b c d rest)
  then have "length rest = 4 * (n - 1)" by simp
  with 1 show ?case by (simp add: image32_def del: word32.simps)
qed (auto simp: image32_def, presburger+)

end
