(* ===== verification/Posix.thy ===== *)
theory Posix
  imports CLib
begin

text \<open>
  The execution model of the sequential programs: a program is a function of a world that
  holds what the kernel and the C library are going to answer (the script), what the
  process has done so far (the trace), errno, the signal dispositions, mask and pending
  signals, and the program's own global variables. Every system call consumes one reply of
  the script; which replies come is left open, so a theorem about all worlds is a theorem
  about every behaviour of the kernel within the documented contract of the call (the
  predicate given to \<open>sys\<close>). Programs stop by returning, by exit, by a fatal signal, by
  blocking (the script ends), by undefined behaviour or by spinning without a system call.
\<close>

section \<open>Replies, events, worlds\<close>

datatype errno = ENONE | EINTR | EAGAIN | EPIPE | ENOENT | EEXIST | ECHILD | ETIMEDOUT | EOTHER

text \<open>The calls, by number (the numbering is ours).\<close>

type_synonym sysno = nat

abbreviation (input) SYS_read :: sysno where "SYS_read \<equiv> 1001"
abbreviation (input) SYS_write :: sysno where "SYS_write \<equiv> 1002"
abbreviation (input) SYS_open :: sysno where "SYS_open \<equiv> 1003"
abbreviation (input) SYS_close :: sysno where "SYS_close \<equiv> 1004"
abbreviation (input) SYS_unlink :: sysno where "SYS_unlink \<equiv> 1005"
abbreviation (input) SYS_fcntl :: sysno where "SYS_fcntl \<equiv> 1006"
abbreviation (input) SYS_mkfifo :: sysno where "SYS_mkfifo \<equiv> 1007"
abbreviation (input) SYS_pipe :: sysno where "SYS_pipe \<equiv> 1008"
abbreviation (input) SYS_fstat :: sysno where "SYS_fstat \<equiv> 1009"
abbreviation (input) SYS_lseek :: sysno where "SYS_lseek \<equiv> 1010"
abbreviation (input) SYS_chdir :: sysno where "SYS_chdir \<equiv> 1011"
abbreviation (input) SYS_socket :: sysno where "SYS_socket \<equiv> 1012"
abbreviation (input) SYS_bind :: sysno where "SYS_bind \<equiv> 1013"
abbreviation (input) SYS_listen :: sysno where "SYS_listen \<equiv> 1014"
abbreviation (input) SYS_accept :: sysno where "SYS_accept \<equiv> 1015"
abbreviation (input) SYS_connect :: sysno where "SYS_connect \<equiv> 1016"
abbreviation (input) SYS_setsockopt :: sysno where "SYS_setsockopt \<equiv> 1017"
abbreviation (input) SYS_getsockopt :: sysno where "SYS_getsockopt \<equiv> 1018"
abbreviation (input) SYS_select :: sysno where "SYS_select \<equiv> 1019"
abbreviation (input) SYS_pselect :: sysno where "SYS_pselect \<equiv> 1020"
abbreviation (input) SYS_recv :: sysno where "SYS_recv \<equiv> 1021"
abbreviation (input) SYS_send :: sysno where "SYS_send \<equiv> 1022"
abbreviation (input) SYS_recvfrom :: sysno where "SYS_recvfrom \<equiv> 1023"
abbreviation (input) SYS_sendto :: sysno where "SYS_sendto \<equiv> 1024"
abbreviation (input) SYS_sigaction :: sysno where "SYS_sigaction \<equiv> 1025"
abbreviation (input) SYS_sigprocmask :: sysno where "SYS_sigprocmask \<equiv> 1026"
abbreviation (input) SYS_sigsuspend :: sysno where "SYS_sigsuspend \<equiv> 1027"
abbreviation (input) SYS_kill :: sysno where "SYS_kill \<equiv> 1028"
abbreviation (input) SYS_alarm :: sysno where "SYS_alarm \<equiv> 1029"
abbreviation (input) SYS_setitimer :: sysno where "SYS_setitimer \<equiv> 1030"
abbreviation (input) SYS_sleep :: sysno where "SYS_sleep \<equiv> 1031"
abbreviation (input) SYS_nanosleep :: sysno where "SYS_nanosleep \<equiv> 1032"
abbreviation (input) SYS_time :: sysno where "SYS_time \<equiv> 1033"
abbreviation (input) SYS_fork :: sysno where "SYS_fork \<equiv> 1034"
abbreviation (input) SYS_waitpid :: sysno where "SYS_waitpid \<equiv> 1035"
abbreviation (input) SYS_wait :: sysno where "SYS_wait \<equiv> 1036"
abbreviation (input) SYS_getpid :: sysno where "SYS_getpid \<equiv> 1037"
abbreviation (input) SYS_getppid :: sysno where "SYS_getppid \<equiv> 1038"
abbreviation (input) SYS_rand :: sysno where "SYS_rand \<equiv> 1039"
abbreviation (input) SYS_srand :: sysno where "SYS_srand \<equiv> 1040"
abbreviation (input) SYS_malloc :: sysno where "SYS_malloc \<equiv> 1041"
abbreviation (input) SYS_getaddrinfo :: sysno where "SYS_getaddrinfo \<equiv> 1042"
abbreviation (input) SYS_gethostbyname :: sysno where "SYS_gethostbyname \<equiv> 1043"
abbreviation (input) SYS_getc :: sysno where "SYS_getc \<equiv> 1044"
abbreviation (input) SYS_fgets :: sysno where "SYS_fgets \<equiv> 1045"
abbreviation (input) SYS_mq_open :: sysno where "SYS_mq_open \<equiv> 1046"
abbreviation (input) SYS_mq_close :: sysno where "SYS_mq_close \<equiv> 1047"
abbreviation (input) SYS_mq_unlink :: sysno where "SYS_mq_unlink \<equiv> 1048"
abbreviation (input) SYS_mq_send :: sysno where "SYS_mq_send \<equiv> 1049"
abbreviation (input) SYS_mq_receive :: sysno where "SYS_mq_receive \<equiv> 1050"
abbreviation (input) SYS_mq_timedreceive :: sysno where "SYS_mq_timedreceive \<equiv> 1051"
abbreviation (input) SYS_mq_notify :: sysno where "SYS_mq_notify \<equiv> 1052"
abbreviation (input) SYS_clock_gettime :: sysno where "SYS_clock_gettime \<equiv> 1053"
abbreviation (input) SYS_aio_read :: sysno where "SYS_aio_read \<equiv> 1054"
abbreviation (input) SYS_aio_write :: sysno where "SYS_aio_write \<equiv> 1055"
abbreviation (input) SYS_aio_suspend :: sysno where "SYS_aio_suspend \<equiv> 1056"
abbreviation (input) SYS_aio_error :: sysno where "SYS_aio_error \<equiv> 1057"
abbreviation (input) SYS_aio_return :: sysno where "SYS_aio_return \<equiv> 1058"
abbreviation (input) SYS_aio_fsync :: sysno where "SYS_aio_fsync \<equiv> 1059"
abbreviation (input) SYS_aio_cancel :: sysno where "SYS_aio_cancel \<equiv> 1060"
abbreviation (input) SYS_fsync :: sysno where "SYS_fsync \<equiv> 1061"
abbreviation (input) SYS_tick :: sysno where "SYS_tick \<equiv> 1062"

text \<open>
  A reply: the signals that arrive before the call returns, the returned value, errno (read
  when the value is -1), the bytes and the integers the call stores through its pointers.
\<close>

datatype reply =
  Reply (r_sigs: "nat list") (r_val: int) (r_errno: errno) (r_data: "byte list") (r_vals: "int list")

datatype event =
    Sys sysno "int list" "byte list" reply
  | Out "byte list"
  | Log "byte list"
  | Perror "byte list" errno

datatype 'g handler =
    SIG_DFL
  | SIG_IGN
  | Handler "nat \<Rightarrow> 'g \<Rightarrow> 'g \<times> byte list list"

record 'g world =
  script :: "reply list"
  trace :: "event list"
  werrno :: errno
  sigact :: "nat \<Rightarrow> 'g handler"
  sigmask :: "nat list"
  sigpend :: "nat list"
  glob :: 'g

abbreviation (input) SIGINT :: nat where "SIGINT \<equiv> 2"
abbreviation (input) SIGQUIT :: nat where "SIGQUIT \<equiv> 3"
abbreviation (input) SIGKILL :: nat where "SIGKILL \<equiv> 9"
abbreviation (input) SIGUSR1 :: nat where "SIGUSR1 \<equiv> 10"
abbreviation (input) SIGUSR2 :: nat where "SIGUSR2 \<equiv> 12"
abbreviation (input) SIGPIPE :: nat where "SIGPIPE \<equiv> 13"
abbreviation (input) SIGALRM :: nat where "SIGALRM \<equiv> 14"
abbreviation (input) SIGCHLD :: nat where "SIGCHLD \<equiv> 17"
abbreviation (input) SIGIO :: nat where "SIGIO \<equiv> 29"
abbreviation (input) SIGRTMIN :: nat where "SIGRTMIN \<equiv> 34"

text \<open>A process that has done nothing yet, for the concrete instances of the theorems.\<close>

definition idle :: "reply list \<Rightarrow> 'g \<Rightarrow> 'g world" where
  "idle rs g = \<lparr>script = rs, trace = [], werrno = ENONE, sigact = (\<lambda>_. SIG_DFL),
     sigmask = [], sigpend = [], glob = g\<rparr>"

definition ok_reply :: "int \<Rightarrow> reply" where
  "ok_reply v = Reply [] v ENONE [] []"

definition failed_reply :: "errno \<Rightarrow> reply" where
  "failed_reply e = Reply [] (-1) e [] []"

definition data_reply :: "byte list \<Rightarrow> reply" where
  "data_reply bs = Reply [] (int (length bs)) ENONE bs []"

datatype halt = Exit int | Killed nat | Blocked | Undef | Spin

datatype 'a outcome = Ret 'a | Halt halt

type_synonym ('g, 'a) prog = "'g world \<Rightarrow> 'a outcome \<times> 'g world"

section \<open>Signal delivery and system calls\<close>

text \<open>
  A blocked signal becomes pending (once: standard signals do not queue), an ignored one
  vanishes, a handler changes the globals and may print, the default action kills the
  process (except for SIGCHLD).
\<close>

fun deliver :: "nat list \<Rightarrow> 'g world \<Rightarrow> nat option \<times> 'g world" where
  "deliver [] w = (None, w)"
| "deliver (s # ss) w =
     (if s \<in> set (sigmask w) then deliver ss (w\<lparr>sigpend := List.insert s (sigpend w)\<rparr>)
      else case sigact w s of
        SIG_DFL \<Rightarrow> (if s = SIGCHLD then deliver ss w else (Some s, w))
      | SIG_IGN \<Rightarrow> deliver ss w
      | Handler f \<Rightarrow> (case f s (glob w) of
          (g, outs) \<Rightarrow> deliver ss (w\<lparr>glob := g, trace := trace w @ map Out outs\<rparr>)))"

definition sys :: "sysno \<Rightarrow> int list \<Rightarrow> byte list \<Rightarrow> (reply \<Rightarrow> bool) \<Rightarrow> ('g, reply) prog" where
  "sys n args payload good w =
     (case script w of
        [] \<Rightarrow> (Halt Blocked, w)
      | r # rest \<Rightarrow>
          (if \<not> good r then (Halt Blocked, w)
           else case deliver (r_sigs r) (w\<lparr>script := rest\<rparr>) of
             (Some s, w1) \<Rightarrow> (Halt (Killed s), w1)
           | (None, w1) \<Rightarrow>
               (Ret r, w1\<lparr>trace := trace w1 @ [Sys n args payload r],
                          werrno := (if r_val r = -1 then r_errno r else werrno w1)\<rparr>)))"

section \<open>Program constructs\<close>

definition ret :: "'a \<Rightarrow> ('g, 'a) prog" where
  "ret a w = (Ret a, w)"

definition bind_m :: "('g, 'a) prog \<Rightarrow> ('a \<Rightarrow> ('g, 'b) prog) \<Rightarrow> ('g, 'b) prog" where
  "bind_m m f w = (case m w of (Ret a, w1) \<Rightarrow> f a w1 | (Halt h, w1) \<Rightarrow> (Halt h, w1))"

definition halt_m :: "halt \<Rightarrow> ('g, 'a) prog" where
  "halt_m h w = (Halt h, w)"

definition get_errno :: "('g, errno) prog" where
  "get_errno w = (Ret (werrno w), w)"

definition get_glob :: "('g, 'g) prog" where
  "get_glob w = (Ret (glob w), w)"

definition set_glob :: "'g \<Rightarrow> ('g, unit) prog" where
  "set_glob g w = (Ret (), w\<lparr>glob := g\<rparr>)"

definition printf :: "byte list \<Rightarrow> ('g, unit) prog" where
  "printf s w = (Ret (), w\<lparr>trace := trace w @ [Out s]\<rparr>)"

definition eprintf :: "byte list \<Rightarrow> ('g, unit) prog" where
  "eprintf s w = (Ret (), w\<lparr>trace := trace w @ [Log s]\<rparr>)"

definition perror :: "byte list \<Rightarrow> ('g, unit) prog" where
  "perror s w = (Ret (), w\<lparr>trace := trace w @ [Perror s (werrno w)]\<rparr>)"

text \<open>
  The macro ERR: it prints and exits with EXIT_FAILURE; the variant of the process
  exercises kills the process group, the caller included, before the exit.
\<close>

definition err_exit :: "string \<Rightarrow> ('g, 'a) prog" where
  "err_exit s = bind_m (perror (str s)) (\<lambda>_. halt_m (Exit 1))"

definition err_kill :: "string \<Rightarrow> ('g, 'a) prog" where
  "err_kill s = bind_m (perror (str s)) (\<lambda>_. halt_m (Killed SIGKILL))"

text \<open>
  A loop: the body returns \<open>Inl s\<close> to go round with state \<open>s\<close>, \<open>Inr r\<close> to leave.
  Every turn of the loops modelled here makes a system call, so the script gets shorter; a
  turn that does not is the value \<open>Spin\<close>.
\<close>

function loop_m :: "('s \<Rightarrow> ('g, 's + 'r) prog) \<Rightarrow> 's \<Rightarrow> ('g, 'r) prog" where
  "loop_m body s w =
     (case body s w of
        (Halt h, w1) \<Rightarrow> (Halt h, w1)
      | (Ret (Inr r), w1) \<Rightarrow> (Ret r, w1)
      | (Ret (Inl s1), w1) \<Rightarrow>
          (if length (script w1) < length (script w) then loop_m body s1 w1 else (Halt Spin, w1)))"
  by pat_completeness auto
termination
  by (relation "measure (\<lambda>(body, s, w). length (script w))") auto

declare loop_m.simps [simp del]

lemma loop_m_skip:
  assumes "body s w = body s v"
    and "\<And>x w1. body s v = (Ret x, w1) \<Longrightarrow> length (script w1) < length (script v)"
    and "length (script v) \<le> length (script w)"
  shows "loop_m body s w = loop_m body s v"
  using assms
  by (fastforce simp: loop_m.simps [of _ _ w] loop_m.simps [of _ _ v]
      split: prod.splits outcome.splits sum.splits)

text \<open>The loop \<open>for (x in xs)\<close>, threading a state.\<close>

fun for_m :: "'x list \<Rightarrow> ('x \<Rightarrow> 's \<Rightarrow> ('g, 's) prog) \<Rightarrow> 's \<Rightarrow> ('g, 's) prog" where
  "for_m [] body s = ret s"
| "for_m (x # xs) body s = bind_m (body x s) (for_m xs body)"

text \<open>The macro TEMP_FAILURE_RETRY of glibc: repeat while the call fails with EINTR.\<close>

definition retry :: "('g, reply) prog \<Rightarrow> ('g, reply) prog" where
  "retry m = loop_m (\<lambda>_. bind_m m (\<lambda>r. bind_m get_errno (\<lambda>e.
     if r_val r = -1 \<and> e = EINTR then ret (Inl ()) else ret (Inr r)))) ()"

section \<open>Contracts of the system calls\<close>

definition status_ok :: "reply \<Rightarrow> bool" where
  "status_ok r \<longleftrightarrow> r_val r = 0 \<or> r_val r = -1"

definition fd_ok :: "reply \<Rightarrow> bool" where
  "fd_ok r \<longleftrightarrow> -1 \<le> r_val r \<and> in_int (r_val r)"

definition in_ok :: "nat \<Rightarrow> reply \<Rightarrow> bool" where
  "in_ok n r \<longleftrightarrow> r_val r = -1 \<or> (0 \<le> r_val r \<and> nat (r_val r) = length (r_data r) \<and> length (r_data r) \<le> n)"

definition out_ok :: "nat \<Rightarrow> reply \<Rightarrow> bool" where
  "out_ok n r \<longleftrightarrow> r_val r = -1 \<or> (0 \<le> r_val r \<and> nat (r_val r) \<le> n)"

definition rand_ok :: "reply \<Rightarrow> bool" where
  "rand_ok r \<longleftrightarrow> 0 \<le> r_val r \<and> r_val r \<le> 2147483647"

definition any_ok :: "reply \<Rightarrow> bool" where
  "any_ok r \<longleftrightarrow> in_int (r_val r)"

definition sys_read :: "int \<Rightarrow> nat \<Rightarrow> ('g, reply) prog" where
  "sys_read fd n = sys SYS_read [fd] [] (in_ok n)"

definition sys_write :: "int \<Rightarrow> byte list \<Rightarrow> ('g, reply) prog" where
  "sys_write fd buf = sys SYS_write [fd] buf (out_ok (length buf))"

definition sys_close :: "int \<Rightarrow> ('g, reply) prog" where
  "sys_close fd = sys SYS_close [fd] [] status_ok"

definition rand_m :: "('g, int) prog" where
  "rand_m = bind_m (sys SYS_rand [] [] rand_ok) (\<lambda>r. ret (r_val r))"

definition sys_sigaction :: "nat \<Rightarrow> 'g handler \<Rightarrow> ('g, reply) prog" where
  "sys_sigaction s h = bind_m (sys SYS_sigaction [int s] [] status_ok) (\<lambda>r w.
     (Ret r, if r_val r = 0 then w\<lparr>sigact := (sigact w)(s := h)\<rparr> else w))"

text \<open>
  \<open>sigprocmask\<close> with SIG_BLOCK and SIG_UNBLOCK; unblocking delivers what is pending.
\<close>

definition flush_pending :: "('g, unit) prog" where
  "flush_pending w = (case deliver (sigpend w) (w\<lparr>sigpend := []\<rparr>) of
     (Some s, w1) \<Rightarrow> (Halt (Killed s), w1) | (None, w1) \<Rightarrow> (Ret (), w1))"

definition sigprocmask_block :: "nat list \<Rightarrow> ('g, nat list) prog" where
  "sigprocmask_block sigs = bind_m (sys SYS_sigprocmask (0 # map int sigs) [] status_ok) (\<lambda>r w.
     (Ret (sigmask w), w\<lparr>sigmask := sigmask w @ sigs\<rparr>))"

definition sigprocmask_unblock :: "nat list \<Rightarrow> ('g, unit) prog" where
  "sigprocmask_unblock sigs = bind_m (sys SYS_sigprocmask (1 # map int sigs) [] status_ok) (\<lambda>r.
     bind_m (\<lambda>w. (Ret (), w\<lparr>sigmask := filter (\<lambda>s. s \<notin> set sigs) (sigmask w)\<rparr>)) (\<lambda>_.
     flush_pending))"

text \<open>
  A call that waits with another signal mask (\<open>pselect\<close>, \<open>sigsuspend\<close>): the mask is
  swapped, pending and new signals are delivered under it, and the old mask comes back.
\<close>

definition with_mask :: "nat list \<Rightarrow> ('g, 'a) prog \<Rightarrow> ('g, 'a) prog" where
  "with_mask m p w =
     (case bind_m flush_pending (\<lambda>_. p) (w\<lparr>sigmask := m\<rparr>) of
        (res, w1) \<Rightarrow> (res, w1\<lparr>sigmask := sigmask w\<rparr>))"

lemmas sys_ok_defs = status_ok_def fd_ok_def in_ok_def out_ok_def rand_ok_def any_ok_def

section \<open>What the trace records\<close>

text \<open>The bytes a descriptor has accepted and delivered, and what was printed.\<close>

fun sent1 :: "int \<Rightarrow> event \<Rightarrow> byte list" where
  "sent1 fd (Sys n args p r) =
     (if n \<in> {SYS_write, SYS_send} \<and> args = [fd] \<and> 0 < r_val r then take (nat (r_val r)) p else [])"
| "sent1 fd _ = []"

fun got1 :: "int \<Rightarrow> event \<Rightarrow> byte list" where
  "got1 fd (Sys n args p r) =
     (if n \<in> {SYS_read, SYS_recv} \<and> args = [fd] \<and> 0 < r_val r then r_data r else [])"
| "got1 fd _ = []"

fun printed1 :: "event \<Rightarrow> byte list" where
  "printed1 (Out s) = s"
| "printed1 _ = []"

fun is_call :: "sysno \<Rightarrow> int \<Rightarrow> event \<Rightarrow> bool" where
  "is_call n fd (Sys n' args p r) = (n = n' \<and> args = [fd])"
| "is_call n fd _ = False"

definition sent :: "int \<Rightarrow> event list \<Rightarrow> byte list" where
  "sent fd tr = concat (map (sent1 fd) tr)"

definition got :: "int \<Rightarrow> event list \<Rightarrow> byte list" where
  "got fd tr = concat (map (got1 fd) tr)"

definition printed :: "event list \<Rightarrow> byte list" where
  "printed tr = concat (map printed1 tr)"

definition calls :: "sysno \<Rightarrow> int \<Rightarrow> event list \<Rightarrow> nat" where
  "calls n fd tr = length (filter (is_call n fd) tr)"

text \<open>The system calls of a trace, each with its arguments, its input bytes and its result.\<close>

fun syscall1 :: "event \<Rightarrow> (sysno \<times> int list \<times> byte list \<times> int) list" where
  "syscall1 (Sys n args p r) = [(n, args, p, r_val r)]"
| "syscall1 _ = []"

definition syscalls :: "event list \<Rightarrow> (sysno \<times> int list \<times> byte list \<times> int) list" where
  "syscalls tr = concat (map syscall1 tr)"

lemma syscalls_simps [simp]: "syscalls [] = []" "syscalls (xs @ ys) = syscalls xs @ syscalls ys"
  "syscalls (e # xs) = syscall1 e @ syscalls xs"
  by (simp_all add: syscalls_def)

lemma sent_simps [simp]: "sent fd [] = []" "sent fd (xs @ ys) = sent fd xs @ sent fd ys"
  "sent fd (e # xs) = sent1 fd e @ sent fd xs"
  by (simp_all add: sent_def)

lemma got_simps [simp]: "got fd [] = []" "got fd (xs @ ys) = got fd xs @ got fd ys"
  "got fd (e # xs) = got1 fd e @ got fd xs"
  by (simp_all add: got_def)

lemma printed_simps [simp]: "printed [] = []" "printed (xs @ ys) = printed xs @ printed ys"
  "printed (e # xs) = printed1 e @ printed xs"
  by (simp_all add: printed_def)

lemma calls_simps [simp]: "calls n fd [] = 0" "calls n fd (xs @ ys) = calls n fd xs + calls n fd ys"
  "calls n fd (e # xs) = (if is_call n fd e then 1 else 0) + calls n fd xs"
  by (simp_all add: calls_def)

lemma handler_outputs [simp]: "sent fd (map Out outs) = []" "got fd (map Out outs) = []"
  "calls n fd (map Out outs) = 0" "syscalls (map Out outs) = []"
  by (induction outs) simp_all

text \<open>How many calls of a kind have succeeded.\<close>

definition successes :: "sysno \<Rightarrow> event list \<Rightarrow> nat" where
  "successes n tr = length (filter (\<lambda>(m, a, p, v). m = n \<and> 0 \<le> v) (syscalls tr))"

lemma successes_append: "syscalls tr1 = syscalls tr @ cs \<Longrightarrow>
   successes n tr1 = successes n tr + length (filter (\<lambda>(m, a, p, v). m = n \<and> 0 \<le> v) cs)"
  by (simp add: successes_def)

section \<open>Weakest preconditions\<close>

definition wp :: "('g, 'a) prog \<Rightarrow> ('a \<Rightarrow> 'g world \<Rightarrow> bool) \<Rightarrow> (halt \<Rightarrow> 'g world \<Rightarrow> bool) \<Rightarrow>
    'g world \<Rightarrow> bool" where
  "wp m Q E w = (case m w of (Ret a, w1) \<Rightarrow> Q a w1 | (Halt h, w1) \<Rightarrow> E h w1)"

lemma wp_Ret: "wp m Q E w \<Longrightarrow> m w = (Ret a, w1) \<Longrightarrow> Q a w1"
  by (simp add: wp_def)

lemma wp_Halt: "wp m Q E w \<Longrightarrow> m w = (Halt h, w1) \<Longrightarrow> E h w1"
  by (simp add: wp_def)

lemma wpI: "(\<And>a w1. m w = (Ret a, w1) \<Longrightarrow> Q a w1) \<Longrightarrow> (\<And>h w1. m w = (Halt h, w1) \<Longrightarrow> E h w1) \<Longrightarrow>
    wp m Q E w"
  by (auto simp: wp_def split: prod.splits outcome.splits)

lemma wp_mono:
  "wp m Q E w \<Longrightarrow> (\<And>a w1. Q a w1 \<Longrightarrow> Q' a w1) \<Longrightarrow> (\<And>h w1. E h w1 \<Longrightarrow> E' h w1) \<Longrightarrow> wp m Q' E' w"
  by (auto simp: wp_def split: prod.splits outcome.splits)

lemma wp_bind [wp_rules]: "wp (bind_m m f) Q E w = wp m (\<lambda>a. wp (f a) Q E) E w"
  by (auto simp: wp_def bind_m_def split: prod.splits outcome.splits)

lemma wp_ret [wp_rules]: "wp (ret a) Q E w = Q a w"
  by (simp add: wp_def ret_def)

lemma wp_ret_fun: "wp (ret a) Q E = Q a"
  by (simp add: wp_ret fun_eq_iff)

lemma wp_halt [wp_rules]: "wp (halt_m h) Q E w = E h w"
  by (simp add: wp_def halt_m_def)

lemma wp_pure: "wp (\<lambda>w. (Ret (f w), g w)) Q E v = Q (f v) (g v)"
  by (simp add: wp_def)

lemma wp_get_errno [wp_rules]: "wp get_errno Q E w = Q (werrno w) w"
  by (simp add: wp_def get_errno_def)

lemma wp_get_glob [wp_rules]: "wp get_glob Q E w = Q (glob w) w"
  by (simp add: wp_def get_glob_def)

lemma wp_set_glob [wp_rules]: "wp (set_glob g) Q E w = Q () (w\<lparr>glob := g\<rparr>)"
  by (simp add: wp_def set_glob_def)

lemma wp_printf [wp_rules]: "wp (printf s) Q E w = Q () (w\<lparr>trace := trace w @ [Out s]\<rparr>)"
  by (simp add: wp_def printf_def)

lemma wp_eprintf [wp_rules]: "wp (eprintf s) Q E w = Q () (w\<lparr>trace := trace w @ [Log s]\<rparr>)"
  by (simp add: wp_def eprintf_def)

lemma wp_perror [wp_rules]:
  "wp (perror s) Q E w = Q () (w\<lparr>trace := trace w @ [Perror s (werrno w)]\<rparr>)"
  by (simp add: wp_def perror_def)

lemma wp_err_exit [wp_rules]:
  "wp (err_exit s) Q E w = E (Exit 1) (w\<lparr>trace := trace w @ [Perror (str s) (werrno w)]\<rparr>)"
  by (simp add: err_exit_def wp_rules)

lemma wp_err_kill [wp_rules]:
  "wp (err_kill s) Q E w = E (Killed SIGKILL) (w\<lparr>trace := trace w @ [Perror (str s) (werrno w)]\<rparr>)"
  by (simp add: err_kill_def wp_rules)

lemma wp_if [wp_rules]: "wp (if b then p else q) Q E w = (if b then wp p Q E w else wp q Q E w)"
  by simp

lemma wp_loop:
  assumes "I s w"
    and "\<And>s w. I s w \<Longrightarrow> wp (body s)
      (\<lambda>x w1. case x of Inl s1 \<Rightarrow> I s1 w1 \<and> length (script w1) < length (script w) | Inr r \<Rightarrow> Q r w1) E w"
  shows "wp (loop_m body s) Q E w"
  using assms
proof (induction body s w rule: loop_m.induct)
  case (1 body s w)
  from "1.prems"(2) [OF "1.prems"(1)] have body: "wp (body s)
      (\<lambda>x w1. case x of Inl s1 \<Rightarrow> I s1 w1 \<and> length (script w1) < length (script w) | Inr r \<Rightarrow> Q r w1) E w" .
  show ?case
  proof (cases "\<exists>s1 w1. body s w = (Ret (Inl s1), w1)")
    case True
    then obtain s1 w1 where eq: "body s w = (Ret (Inl s1), w1)" by blast
    with body have "I s1 w1" and less: "length (script w1) < length (script w)"
      by (simp_all add: wp_def)
    then have "wp (loop_m body s1) Q E w1"
      using "1.IH" [OF eq [symmetric] refl refl less] "1.prems"(2) by blast
    then show ?thesis using eq less by (simp add: wp_def loop_m.simps [of body s w])
  next
    case False
    with body show ?thesis
      by (auto simp: wp_def loop_m.simps [of body s w] split: prod.splits outcome.splits sum.splits)
  qed
qed

lemma wp_for:
  assumes "I xs s w"
    and "\<And>x xs s w. I (x # xs) s w \<Longrightarrow> wp (body x s) (I xs) E w"
    and "\<And>s w. I [] s w \<Longrightarrow> Q s w"
  shows "wp (for_m xs body s) Q E w"
  using assms(1)
proof (induction xs arbitrary: s w)
  case Nil
  then show ?case by (simp add: wp_ret assms(3))
next
  case (Cons x xs)
  from assms(2) [OF Cons.prems] show ?case
    by (auto simp: wp_bind intro: wp_mono Cons.IH)
qed

text \<open>The trace has grown by output of signal handlers only.\<close>

definition outs_after :: "event list \<Rightarrow> event list \<Rightarrow> bool" where
  "outs_after tr tr1 \<longleftrightarrow> (\<exists>outs. tr1 = tr @ map Out outs)"

lemma outs_after_refl [simp]: "outs_after tr tr"
  unfolding outs_after_def by (rule exI [of _ "[]"]) simp

lemma outs_after_Out: "outs_after (tr @ map Out outs) tr1 \<Longrightarrow> outs_after tr tr1"
  unfolding outs_after_def by (metis append.assoc map_append)

text \<open>
  No handler can run: every signal that has one is blocked. A call then leaves the globals
  alone.
\<close>

definition quiet_sig :: "'g world \<Rightarrow> bool" where
  "quiet_sig w \<longleftrightarrow> (\<forall>s f. s \<notin> set (sigmask w) \<longrightarrow> sigact w s \<noteq> Handler f)"

definition same_sig :: "'g world \<Rightarrow> 'g world \<Rightarrow> bool" where
  "same_sig w w1 \<longleftrightarrow> sigact w1 = sigact w \<and> sigmask w1 = sigmask w \<and>
     (quiet_sig w \<longrightarrow> glob w1 = glob w)"

lemma same_sig_refl [simp]: "same_sig w w"
  by (simp add: same_sig_def)

lemma quiet_sig_cong: "sigact w1 = sigact w \<Longrightarrow> sigmask w1 = sigmask w \<Longrightarrow> quiet_sig w1 = quiet_sig w"
  by (simp add: quiet_sig_def)

lemma same_sig_trans: "same_sig a b \<Longrightarrow> same_sig b c \<Longrightarrow> same_sig a c"
  using quiet_sig_cong [of b a] by (simp add: same_sig_def)

text \<open>One system call: what is known of the world when it returns and when it does not.\<close>

definition sys_post :: "sysno \<Rightarrow> int list \<Rightarrow> byte list \<Rightarrow> reply \<Rightarrow> 'g world \<Rightarrow> 'g world \<Rightarrow> bool" where
  "sys_post n args p r w w1 \<longleftrightarrow>
     script w = r # script w1 \<and> same_sig w w1 \<and>
     werrno w1 = (if r_val r = -1 then r_errno r else werrno w) \<and>
     (r_sigs r = [] \<longrightarrow> glob w1 = glob w) \<and>
     (\<exists>tr. outs_after (trace w) tr \<and> trace w1 = tr @ [Sys n args p r])"

definition sys_halt :: "'g world \<Rightarrow> halt \<Rightarrow> 'g world \<Rightarrow> bool" where
  "sys_halt w h w1 \<longleftrightarrow>
     (h = Blocked \<or> (\<exists>s. h = Killed s)) \<and> outs_after (trace w) (trace w1)"

lemma deliver_frame:
  "deliver ss w = (res, w1) \<Longrightarrow>
   script w1 = script w \<and> same_sig w w1 \<and> werrno w1 = werrno w \<and>
   (ss = [] \<longrightarrow> glob w1 = glob w) \<and> outs_after (trace w) (trace w1)"
proof (induction ss w arbitrary: res w1 rule: deliver.induct)
  case (1 w)
  then show ?case by simp
next
  case (2 s ss w)
  show ?case
  proof (cases "s \<in> set (sigmask w)")
    case True
    with 2(1) [OF True, of res w1] 2(5) show ?thesis
      by (simp add: same_sig_def quiet_sig_def)
  next
    case False
    show ?thesis
    proof (cases "sigact w s")
      case SIG_DFL
      with 2(2) [OF False SIG_DFL, of res w1] 2(5) False show ?thesis
        by (cases "s = SIGCHLD") auto
    next
      case SIG_IGN
      with 2(3) [OF False SIG_IGN, of res w1] 2(5) False show ?thesis by simp
    next
      case (Handler f)
      then have q: "\<not> quiet_sig w" using False by (auto simp: quiet_sig_def)
      obtain g outs where f: "f s (glob w) = (g, outs)" by fastforce
      from 2(4) [OF False Handler f [symmetric], of res w1] 2(5) False Handler f q show ?thesis
        by (auto simp: same_sig_def intro: outs_after_Out)
    qed
  qed
qed

lemma wp_sys:
  assumes "\<And>r w1. good r \<Longrightarrow> sys_post n args p r w w1 \<Longrightarrow> Q r w1"
    and "\<And>h w1. sys_halt w h w1 \<Longrightarrow> E h w1"
  shows "wp (sys n args p good) Q E w"
proof (cases "script w")
  case Nil
  then show ?thesis using assms(2)
    by (auto simp: wp_def sys_def sys_halt_def)
next
  case (Cons r rest)
  obtain res w1 where d: "deliver (r_sigs r) (w\<lparr>script := rest\<rparr>) = (res, w1)" by fastforce
  show ?thesis
  proof (cases "good r")
    case True
    show ?thesis
    proof (cases res)
      case None
      then have "sys_post n args p r w
          (w1\<lparr>trace := trace w1 @ [Sys n args p r],
             werrno := (if r_val r = -1 then r_errno r else werrno w1)\<rparr>)"
        using deliver_frame [OF d] Cons by (auto simp: sys_post_def same_sig_def quiet_sig_def)
      then show ?thesis using assms(1) True None d Cons by (simp add: wp_def sys_def)
    next
      case (Some s)
      then have "sys_halt w (Killed s) w1"
        using deliver_frame [OF d] by (auto simp: sys_halt_def)
      then show ?thesis using assms(2) True Some d Cons by (simp add: wp_def sys_def)
    qed
  next
    case False
    then show ?thesis using assms(2) Cons
      by (auto simp: wp_def sys_def sys_halt_def)
  qed
qed

text \<open>A process in which no handler can run: a call adds itself to the trace, nothing else.\<close>

lemma deliver_quiet: "deliver ss w = (res, w1) \<Longrightarrow> quiet_sig w \<Longrightarrow> trace w1 = trace w"
proof (induction ss w arbitrary: res w1 rule: deliver.induct)
  case (2 s ss w)
  show ?case
  proof (cases "s \<in> set (sigmask w)")
    case True
    then show ?thesis using 2(1) [OF True, of res w1] 2(5,6) by (simp add: quiet_sig_def)
  next
    case False
    then have "sigact w s = SIG_DFL \<or> sigact w s = SIG_IGN"
      using 2(6) by (cases "sigact w s") (auto simp: quiet_sig_def)
    then show ?thesis using 2(2,3) [of res w1] 2(5,6) False by (auto split: if_splits)
  qed
qed simp

lemma wp_sys_quiet:
  assumes "quiet_sig w"
    and "\<And>r w1. good r \<Longrightarrow> trace w1 = trace w @ [Sys n args p r] \<Longrightarrow> quiet_sig w1 \<Longrightarrow> glob w1 = glob w \<Longrightarrow>
      (r_val r = -1 \<longrightarrow> werrno w1 = r_errno r) \<Longrightarrow> length (script w1) < length (script w) \<Longrightarrow> Q r w1"
    and "\<And>h w1. h = Blocked \<or> (\<exists>s. h = Killed s) \<Longrightarrow> trace w1 = trace w \<Longrightarrow> E h w1"
  shows "wp (sys n args p good) Q E w"
proof (cases "script w")
  case Nil
  then show ?thesis using assms(3) by (simp add: wp_def sys_def)
next
  case (Cons r rest)
  obtain res w1 where d: "deliver (r_sigs r) (w\<lparr>script := rest\<rparr>) = (res, w1)" by fastforce
  have "trace w1 = trace w" "same_sig w w1" "script w1 = rest"
    using deliver_quiet [OF d] deliver_frame [OF d] assms(1) by (simp_all add: quiet_sig_def same_sig_def)
  then show ?thesis using assms Cons d
    by (cases res) (auto simp: wp_def sys_def same_sig_def quiet_sig_def)
qed

text \<open>What the handlers may print: the trace grows by such output and the call itself.\<close>

definition handlers_print :: "(byte list \<Rightarrow> bool) \<Rightarrow> 'g world \<Rightarrow> bool" where
  "handlers_print P w \<longleftrightarrow> (\<forall>s f g. sigact w s = Handler f \<longrightarrow> list_all P (snd (f s g)))"

lemma deliver_outs:
  "deliver ss w = (res, w1) \<Longrightarrow> handlers_print P w \<Longrightarrow> \<exists>outs. list_all P outs \<and> trace w1 = trace w @ map Out outs"
proof (induction ss w arbitrary: res w1 rule: deliver.induct)
  case (1 w)
  then show ?case by (auto intro: exI [of _ "[]"])
next
  case (2 s ss w)
  show ?case
  proof (cases "s \<in> set (sigmask w)")
    case True
    then show ?thesis using 2(1) [OF True, of res w1] 2(5,6) by (simp add: handlers_print_def)
  next
    case False
    show ?thesis
    proof (cases "sigact w s")
      case SIG_DFL
      then show ?thesis using 2(2) [OF False SIG_DFL, of res w1] 2(5,6) False
        by (auto split: if_splits intro: exI [of _ "[]"])
    next
      case SIG_IGN
      then show ?thesis using 2(3) [OF False SIG_IGN, of res w1] 2(5,6) False by simp
    next
      case (Handler f)
      obtain g outs where f: "f s (glob w) = (g, outs)" by fastforce
      then have "list_all P outs" using 2(6) Handler by (metis handlers_print_def snd_conv)
      moreover obtain outs1 where "list_all P outs1" "trace w1 = trace w @ map Out (outs @ outs1)"
        using 2(4) [OF False Handler f [symmetric], of res w1] 2(5,6) False Handler f
        by (auto simp: handlers_print_def)
      ultimately show ?thesis by (intro exI [of _ "outs @ outs1"]) simp
    qed
  qed
qed

lemma wp_sys_outs:
  assumes "handlers_print P w"
    and "\<And>r outs w1. good r \<Longrightarrow> list_all P outs \<Longrightarrow> trace w1 = trace w @ map Out outs @ [Sys n args p r] \<Longrightarrow>
      handlers_print P w1 \<Longrightarrow> (r_val r = -1 \<longrightarrow> werrno w1 = r_errno r) \<Longrightarrow>
      length (script w1) < length (script w) \<Longrightarrow> Q r w1"
    and "\<And>h outs w1. h = Blocked \<or> (\<exists>s. h = Killed s) \<Longrightarrow> list_all P outs \<Longrightarrow> trace w1 = trace w @ map Out outs \<Longrightarrow> E h w1"
  shows "wp (sys n args p good) Q E w"
proof (cases "script w")
  case Nil
  then show ?thesis using assms(3) [of Blocked "[]"] by (simp add: wp_def sys_def)
next
  case (Cons r rest)
  obtain res w1 where d: "deliver (r_sigs r) (w\<lparr>script := rest\<rparr>) = (res, w1)" by fastforce
  have "handlers_print P (w\<lparr>script := rest\<rparr>)" using assms(1) by (simp add: handlers_print_def)
  from deliver_outs [OF d this] obtain outs where "list_all P outs" "trace w1 = trace w @ map Out outs" by auto
  moreover have "sigact w1 = sigact w" "script w1 = rest" using deliver_frame [OF d] by (simp_all add: same_sig_def)
  ultimately show ?thesis using assms Cons d
    by (cases res) (auto simp: wp_def sys_def handlers_print_def intro: assms(3) [of Blocked "[]"])
qed

text \<open>
  A relation between the globals and the trace that every installed handler keeps is kept by
  every call; what the call itself adds to the trace is left to the caller.
\<close>

definition handlers_keep :: "('g \<Rightarrow> event list \<Rightarrow> bool) \<Rightarrow> 'g world \<Rightarrow> bool" where
  "handlers_keep I w \<longleftrightarrow> (\<forall>s f g tr. sigact w s = Handler f \<longrightarrow> I g tr \<longrightarrow>
     I (fst (f s g)) (tr @ map Out (snd (f s g))))"

lemma handlers_keep_cong: "sigact w1 = sigact w \<Longrightarrow> handlers_keep I w1 = handlers_keep I w"
  by (simp add: handlers_keep_def)

lemma deliver_keeps:
  "deliver ss w = (res, w1) \<Longrightarrow> handlers_keep I w \<Longrightarrow> I (glob w) (trace w) \<Longrightarrow> I (glob w1) (trace w1)"
proof (induction ss w arbitrary: res w1 rule: deliver.induct)
  case (2 s ss w)
  show ?case
  proof (cases "s \<in> set (sigmask w)")
    case True
    then show ?thesis using 2(1) [OF True, of res w1] 2(5-7) by (simp add: handlers_keep_def)
  next
    case False
    show ?thesis
    proof (cases "sigact w s")
      case SIG_DFL
      then show ?thesis using 2(2) [OF False SIG_DFL, of res w1] 2(5-7) False by (auto split: if_splits)
    next
      case SIG_IGN
      then show ?thesis using 2(3) [OF False SIG_IGN, of res w1] 2(5-7) False by simp
    next
      case (Handler f)
      obtain g outs where f: "f s (glob w) = (g, outs)" by fastforce
      have "I g (trace w @ map Out outs)" using 2(6,7) Handler f unfolding handlers_keep_def by (metis fst_conv snd_conv)
      then show ?thesis using 2(4) [OF False Handler f [symmetric], of res w1] 2(5,6) False Handler f
        by (simp add: handlers_keep_def)
    qed
  qed
qed simp

lemma wp_sys_keeps:
  assumes "handlers_keep I w" "I (glob w) (trace w)"
    and "\<And>r tr w1. good r \<Longrightarrow> I (glob w1) tr \<Longrightarrow> trace w1 = tr @ [Sys n args p r] \<Longrightarrow> sigact w1 = sigact w \<Longrightarrow>
      length (script w1) < length (script w) \<Longrightarrow> Q r w1"
    and "\<And>h w1. h = Blocked \<or> (\<exists>s. h = Killed s) \<Longrightarrow> I (glob w1) (trace w1) \<Longrightarrow> E h w1"
  shows "wp (sys n args p good) Q E w"
proof (cases "script w")
  case Nil
  then show ?thesis using assms(2,4) by (simp add: wp_def sys_def)
next
  case (Cons r rest)
  obtain res w1 where d: "deliver (r_sigs r) (w\<lparr>script := rest\<rparr>) = (res, w1)" by fastforce
  have "handlers_keep I (w\<lparr>script := rest\<rparr>)" using assms(1) by (simp add: handlers_keep_def)
  then have "I (glob w1) (trace w1)" using deliver_keeps [OF d] assms(2) by simp
  moreover have "sigact w1 = sigact w" "script w1 = rest" using deliver_frame [OF d] by (simp_all add: same_sig_def)
  ultimately show ?thesis using assms Cons d
    by (cases res) (auto simp: wp_def sys_def)
qed

text \<open>With no signal arriving, a call whose reply fits just returns it.\<close>

definition adv :: "sysno \<Rightarrow> int list \<Rightarrow> byte list \<Rightarrow> reply \<Rightarrow> 'g world \<Rightarrow> 'g world" where
  "adv n args p r w = w\<lparr>script := tl (script w), trace := trace w @ [Sys n args p r],
     werrno := (if r_val r = -1 then r_errno r else werrno w)\<rparr>"

lemma adv_simps [simp]:
  "script (adv n args p r w) = tl (script w)"
  "trace (adv n args p r w) = trace w @ [Sys n args p r]"
  "werrno (adv n args p r w) = (if r_val r = -1 then r_errno r else werrno w)"
  "sigact (adv n args p r w) = sigact w" "sigmask (adv n args p r w) = sigmask w"
  "sigpend (adv n args p r w) = sigpend w" "glob (adv n args p r w) = glob w"
  by (simp_all add: adv_def)

lemma sys_quiet:
  "script w = r # rest \<Longrightarrow> good r \<Longrightarrow> r_sigs r = [] \<Longrightarrow>
   sys n args p good w = (Ret r, adv n args p r w)"
  by (simp add: sys_def adv_def)

lemma sys_post_same_sig: "sys_post n args p r w w1 \<Longrightarrow> same_sig w w1"
  by (simp add: sys_post_def)

lemma sys_post_shorter: "sys_post n args p r w w1 \<Longrightarrow> length (script w1) < length (script w)"
  by (simp add: sys_post_def)

lemma sys_post_traces:
  assumes "sys_post n args p r w w1"
  shows "sent fd (trace w1) = sent fd (trace w) @ sent1 fd (Sys n args p r)"
    and "got fd (trace w1) = got fd (trace w) @ got1 fd (Sys n args p r)"
    and "calls m fd (trace w1) = calls m fd (trace w) + (if m = n \<and> args = [fd] then 1 else 0)"
    and "syscalls (trace w1) = syscalls (trace w) @ [(n, args, p, r_val r)]"
  using assms by (auto simp: sys_post_def outs_after_def)

lemma sys_halt_traces:
  assumes "sys_halt w h w1"
  shows "sent fd (trace w1) = sent fd (trace w)"
    and "got fd (trace w1) = got fd (trace w)"
    and "calls m fd (trace w1) = calls m fd (trace w)"
    and "syscalls (trace w1) = syscalls (trace w)"
  using assms by (auto simp: sys_halt_def outs_after_def)

text \<open>The rule for proofs about which calls are made: it keeps the call list and errno only.\<close>

lemma wp_sys_calls:
  assumes "\<And>r w1. good r \<Longrightarrow> syscalls (trace w1) = syscalls (trace w) @ [(n, args, p, r_val r)] \<Longrightarrow>
      (r_val r = -1 \<longrightarrow> werrno w1 = r_errno r) \<Longrightarrow> Q r w1"
    and "\<And>h w1. h = Blocked \<or> (\<exists>s. h = Killed s) \<Longrightarrow> syscalls (trace w1) = syscalls (trace w) \<Longrightarrow> E h w1"
  shows "wp (sys n args p good) Q E w"
proof (rule wp_sys)
  fix r w1 assume "good r" and p: "sys_post n args p r w w1"
  then show "Q r w1" using sys_post_traces(4) [OF p] assms(1) by (auto simp: sys_post_def)
next
  fix h w1 assume h: "sys_halt w h w1"
  then show "E h w1" using sys_halt_traces(4) [OF h] assms(2) by (auto simp: sys_halt_def)
qed

text \<open>
  A retried call: failures with EINTR leave no bytes behind; the call that is returned did
  not fail with EINTR.
\<close>

lemma wp_retry:
  assumes "I w"
    and "\<And>w. I w \<Longrightarrow> wp m (\<lambda>r w1. if r_val r = -1 \<and> werrno w1 = EINTR
          then I w1 \<and> length (script w1) < length (script w) else Q r w1) E w"
  shows "wp (retry m) Q E w"
  unfolding retry_def
proof (rule wp_loop [where I = "\<lambda>_. I"])
  show "I w" by fact
next
  fix s :: unit and w assume "I w"
  from assms(2) [OF this]
  show "wp (bind_m m (\<lambda>r. bind_m get_errno (\<lambda>e.
      if r_val r = -1 \<and> e = EINTR then ret (Inl ()) else ret (Inr r))))
    (\<lambda>x w1. case x of Inl s1 \<Rightarrow> I w1 \<and> length (script w1) < length (script w) | Inr r \<Rightarrow> Q r w1) E w"
    by (simp add: wp_rules) (erule wp_mono; simp add: wp_rules)
qed

lemma retry_interrupted:
  assumes "script w = r # rest" "good r" "r_sigs r = []" "r_val r = -1" "r_errno r = EINTR"
  shows "retry (sys n args p good) w = retry (sys n args p good) (adv n args p r w)"
proof -
  have "bind_m (sys n args p good) (\<lambda>r. bind_m get_errno (\<lambda>e.
      if r_val r = -1 \<and> e = EINTR then ret (Inl ()) else ret (Inr r))) w
    = (Ret (Inl ()), adv n args p r w)"
    using assms by (simp add: bind_m_def sys_quiet get_errno_def ret_def)
  then show ?thesis using assms(1)
    by (simp add: retry_def loop_m.simps [of _ _ w])
qed

lemma retry_returns:
  assumes "script w = r # rest" "good r" "r_sigs r = []" "\<not> (r_val r = -1 \<and> r_errno r = EINTR)"
  shows "retry (sys n args p good) w = (Ret r, adv n args p r w)"
proof -
  have "bind_m (sys n args p good) (\<lambda>r. bind_m get_errno (\<lambda>e.
      if r_val r = -1 \<and> e = EINTR then ret (Inl ()) else ret (Inr r))) w
    = (Ret (Inr r), adv n args p r w)"
    using assms by (auto simp: bind_m_def sys_quiet get_errno_def ret_def)
  then show ?thesis by (simp add: retry_def loop_m.simps [of _ _ w])
qed

text \<open>Waiting under another mask, and delivering what is pending.\<close>

lemma wp_with_mask:
  "wp (with_mask m p) Q E w \<longleftrightarrow>
   wp flush_pending (\<lambda>_. wp p (\<lambda>a w1. Q a (w1\<lparr>sigmask := sigmask w\<rparr>))
       (\<lambda>h w1. E h (w1\<lparr>sigmask := sigmask w\<rparr>)))
     (\<lambda>h w1. E h (w1\<lparr>sigmask := sigmask w\<rparr>)) (w\<lparr>sigmask := m\<rparr>)"
  by (simp add: wp_bind [symmetric]) (auto simp: wp_def with_mask_def split: prod.splits outcome.splits)

lemma wp_flush_pending:
  assumes "\<And>w1. script w1 = script w \<Longrightarrow> same_sig (w\<lparr>sigpend := []\<rparr>) w1 \<Longrightarrow> werrno w1 = werrno w \<Longrightarrow>
      outs_after (trace w) (trace w1) \<Longrightarrow> Q () w1"
    and "\<And>s w1. outs_after (trace w) (trace w1) \<Longrightarrow> E (Killed s) w1"
  shows "wp flush_pending Q E w"
proof -
  obtain res w1 where d: "deliver (sigpend w) (w\<lparr>sigpend := []\<rparr>) = (res, w1)" by fastforce
  from deliver_frame [OF d] show ?thesis
    by (cases res) (use assms in \<open>auto simp: wp_def flush_pending_def d\<close>)
qed

lemma outs_after_syscalls: "outs_after tr tr1 \<Longrightarrow> syscalls tr1 = syscalls tr"
  by (auto simp: outs_after_def)

lemma outs_after_successes: "outs_after tr tr1 \<Longrightarrow> successes n tr1 = successes n tr"
  by (simp add: successes_def outs_after_syscalls)

lemma successes_events [simp]:
  "successes n (tr @ [Perror s e]) = successes n tr" "successes n (tr @ [Out b]) = successes n tr"
  "successes n (tr @ [Log b]) = successes n tr"
  by (simp_all add: successes_def)

text \<open>A call with its arguments: how the counts of successful calls change.\<close>

lemma wp_sys_successes:
  assumes "\<And>r w1. good r \<Longrightarrow> length (script w1) < length (script w) \<Longrightarrow>
      (\<And>m. successes m (trace w1) = successes m (trace w) + (if m = n \<and> 0 \<le> r_val r then 1 else 0)) \<Longrightarrow>
      (r_val r = -1 \<longrightarrow> werrno w1 = r_errno r) \<Longrightarrow> Q r w1"
    and "\<And>h w1. (\<And>m. successes m (trace w1) = successes m (trace w)) \<Longrightarrow> E h w1"
  shows "wp (sys n args p good) Q E w"
proof (rule wp_sys)
  fix r w1 assume "good r" and p: "sys_post n args p r w w1"
  moreover have "successes m (trace w1) = successes m (trace w) + (if m = n \<and> 0 \<le> r_val r then 1 else 0)" for m
    using successes_append [OF sys_post_traces(4) [OF p]] by simp
  ultimately show "Q r w1" using assms(1) by (auto simp: sys_post_def)
next
  fix h w1 assume "sys_halt w h w1"
  then show "E h w1" using assms(2) by (simp add: successes_def sys_halt_traces)
qed

section \<open>Programs consume the script\<close>

definition shrinks :: "('g, 'a) prog \<Rightarrow> bool" where
  "shrinks p \<longleftrightarrow> (\<forall>w res w1. p w = (res, w1) \<longrightarrow> length (script w1) \<le> length (script w))"

lemma shrinksD: "shrinks p \<Longrightarrow> p w = (res, w1) \<Longrightarrow> length (script w1) \<le> length (script w)"
  by (simp add: shrinks_def)

lemma wp_shrinks:
  "shrinks p \<Longrightarrow> wp p (\<lambda>a w1. length (script w1) \<le> length (script w) \<longrightarrow> Q a w1) E w \<Longrightarrow> wp p Q E w"
  by (auto simp: wp_def dest: shrinksD split: prod.splits outcome.splits)

lemma shrinks_prim [shrink_rules]:
  "shrinks (ret a)" "shrinks (halt_m h)" "shrinks get_errno" "shrinks get_glob" "shrinks (set_glob g)"
  "shrinks (printf s)" "shrinks (eprintf s)" "shrinks (perror s)"
  by (simp_all add: shrinks_def ret_def halt_m_def get_errno_def get_glob_def set_glob_def
      printf_def eprintf_def perror_def)

lemma shrinks_bind [shrink_rules]: "shrinks p \<Longrightarrow> (\<And>a. shrinks (f a)) \<Longrightarrow> shrinks (bind_m p f)"
  unfolding shrinks_def bind_m_def
  by (auto split: prod.splits outcome.splits) (meson order_trans)+

lemma shrinks_err [shrink_rules]: "shrinks (err_exit s)" "shrinks (err_kill s)"
  unfolding err_exit_def err_kill_def by (intro shrink_rules)+

lemma shrinks_if [shrink_rules]: "shrinks p \<Longrightarrow> shrinks q \<Longrightarrow> shrinks (if b then p else q)"
  by simp

lemma shrinks_case_prod [shrink_rules]: "(\<And>a b. shrinks (f a b)) \<Longrightarrow> shrinks (case x of (a, b) \<Rightarrow> f a b)"
  by (cases x) simp

lemma shrinks_case_option [shrink_rules]:
  "shrinks p \<Longrightarrow> (\<And>a. shrinks (f a)) \<Longrightarrow> shrinks (case x of None \<Rightarrow> p | Some a \<Rightarrow> f a)"
  by (cases x) simp_all

lemma shrinks_Let [shrink_rules]: "(\<And>x. shrinks (f x)) \<Longrightarrow> shrinks (let x = e in f x)"
  by simp

lemma shrinks_sys [shrink_rules]: "shrinks (sys n args p good)"
  unfolding shrinks_def sys_def
  by (auto dest!: deliver_frame split: list.splits if_splits prod.splits option.splits)

lemma shrinks_loop [shrink_rules]:
  assumes "\<And>s. shrinks (body s)"
  shows "shrinks (loop_m body s)"
proof -
  have "loop_m body s w = (res, w1) \<Longrightarrow> length (script w1) \<le> length (script w)" for w res w1
    using assms
  proof (induction body s w arbitrary: res w1 rule: loop_m.induct)
    case (1 body s w)
    show ?case
    proof (cases "body s w")
      case (Pair x w2)
      have le: "length (script w2) \<le> length (script w)" using 1(3) Pair by (rule shrinksD)
      show ?thesis
      proof (cases "\<exists>s1. x = Ret (Inl s1) \<and> length (script w2) < length (script w)")
        case True
        then obtain s1 where s1: "x = Ret (Inl s1)" "length (script w2) < length (script w)" by blast
        then have "loop_m body s1 w2 = (res, w1)"
          using 1(2) Pair by (simp add: loop_m.simps [of body s w])
        from "1.IH" [OF Pair [symmetric] s1(1) refl s1(2) this 1(3)] s1(2) show ?thesis by simp
      next
        case False
        then show ?thesis using 1(2) Pair le
          by (auto simp: loop_m.simps [of body s w] split: outcome.splits sum.splits)
      qed
    qed
  qed
  then show ?thesis by (simp add: shrinks_def)
qed

lemma shrinks_retry [shrink_rules]: "shrinks m \<Longrightarrow> shrinks (retry m)"
  unfolding retry_def by (intro shrink_rules)

lemma shrinks_for [shrink_rules]: "(\<And>x s. shrinks (body x s)) \<Longrightarrow> shrinks (for_m xs body s)"
  by (induction xs arbitrary: s) (auto intro!: shrink_rules)

end
