(* ===== verification/BulkIO.thy ===== *)
theory BulkIO
  imports Posix
begin

text \<open>
  \<open>bulk_read\<close> and \<open>bulk_write\<close>, the loops that every networked program of the
  repository uses to move exactly \<open>count\<close> bytes through a descriptor whose calls move as
  many bytes as they like and may fail with EINTR. The canonical text is
  \<open>socket_lib.h\<close>; \<open>Lab2/prog16b.c\<close> has a variant whose per-call count is not narrowed
  to \<open>int\<close>.
\<close>

section \<open>The loops\<close>

text \<open>Storing bytes into a buffer at an offset; what a successful read stores.\<close>

definition put_at :: "nat \<Rightarrow> byte list \<Rightarrow> byte list \<Rightarrow> byte list" where
  "put_at off new mem = take off mem @ new @ drop (off + length new) mem"

definition stored :: "reply \<Rightarrow> byte list" where
  "stored r = (if 0 < r_val r then r_data r else [])"

text \<open>
  The state of the read loop is \<open>(len, mem, count)\<close>: the bytes moved so far, the content
  of the caller's buffer, the bytes still wanted. \<open>conv\<close> is the conversion to the type
  of the variable \<open>c\<close>.
\<close>

definition bulk_read_body ::
  "(int \<Rightarrow> int) \<Rightarrow> int \<Rightarrow> nat \<times> byte list \<times> nat \<Rightarrow>
   ('g, (nat \<times> byte list \<times> nat) + (int \<times> byte list)) prog" where
  "bulk_read_body conv fd = (\<lambda>(len, mem, count).
     bind_m (retry (sys_read fd count)) (\<lambda>r.
       let c = conv (r_val r); mem1 = put_at len (stored r) mem in
       if c < 0 then ret (Inr (c, mem1))
       else if c = 0 then ret (Inr (int len, mem1))
       else let len1 = len + nat c; count1 = count - nat c in
         if count1 > 0 then ret (Inl (len1, mem1, count1))
         else ret (Inr (int len1, mem1))))"

definition bulk_read :: "int \<Rightarrow> nat \<Rightarrow> ('g, int \<times> byte list) prog" where
  "bulk_read fd count = loop_m (bulk_read_body to_int32 fd) (0, [], count)"

text \<open>The state of the write loop is \<open>(len, buf, count)\<close> with \<open>buf\<close> what is left to write.\<close>

definition bulk_write_body ::
  "(int \<Rightarrow> int) \<Rightarrow> int \<Rightarrow> nat \<times> byte list \<Rightarrow> ('g, (nat \<times> byte list) + int) prog" where
  "bulk_write_body conv fd = (\<lambda>(len, buf).
     bind_m (retry (sys_write fd buf)) (\<lambda>r.
       let c = conv (r_val r) in
       if c < 0 then ret (Inr c)
       else let len1 = len + nat c; buf1 = drop (nat c) buf in
         if buf1 \<noteq> [] then ret (Inl (len1, buf1)) else ret (Inr (int len1))))"

definition bulk_write :: "int \<Rightarrow> byte list \<Rightarrow> ('g, int) prog" where
  "bulk_write fd buf = loop_m (bulk_write_body to_int32 fd) (0, buf)"

text \<open>The variants of \<open>Lab2/prog16b.c\<close>.\<close>

definition bulk_read_ss :: "int \<Rightarrow> nat \<Rightarrow> ('g, int \<times> byte list) prog" where
  "bulk_read_ss fd count = loop_m (bulk_read_body id fd) (0, [], count)"

definition bulk_write_ss :: "int \<Rightarrow> byte list \<Rightarrow> ('g, int) prog" where
  "bulk_write_ss fd buf = loop_m (bulk_write_body id fd) (0, buf)"

section \<open>Traces that grow by one kind of call\<close>

definition extends :: "(event \<Rightarrow> bool) \<Rightarrow> event list \<Rightarrow> event list \<Rightarrow> bool" where
  "extends P tr tr1 \<longleftrightarrow> (\<exists>evs. tr1 = tr @ evs \<and> list_all P evs)"

fun io_event :: "sysno \<Rightarrow> int \<Rightarrow> event \<Rightarrow> bool" where
  "io_event n fd (Out s) = True"
| "io_event n fd e = is_call n fd e"

lemma extends_refl [simp]: "extends P tr tr"
  by (auto simp: extends_def)

lemma extends_trans: "extends P a b \<Longrightarrow> extends P b c \<Longrightarrow> extends P a c"
  by (auto simp: extends_def)

lemma extends_sys:
  "sys_post n [fd] p r w w1 \<Longrightarrow> extends (io_event n fd) tr (trace w) \<Longrightarrow>
   extends (io_event n fd) tr (trace w1)"
  by (auto simp: extends_def sys_post_def outs_after_def list_all_iff)

lemma extends_halt:
  "sys_halt w h w1 \<Longrightarrow> extends (io_event n fd) tr (trace w) \<Longrightarrow> extends (io_event n fd) tr (trace w1)"
  by (auto simp: extends_def sys_halt_def outs_after_def list_all_iff)

lemma io_event_sent: "n \<notin> {SYS_write, SYS_send} \<Longrightarrow> list_all (io_event n fd) evs \<Longrightarrow> sent d evs = []"
  by (induction evs) (auto elim: io_event.elims simp: io_event.simps)

lemma io_event_got: "n \<notin> {SYS_read, SYS_recv} \<Longrightarrow> list_all (io_event n fd) evs \<Longrightarrow> got d evs = []"
  by (induction evs) (auto elim: io_event.elims)

lemma io_event_calls: "m \<noteq> n \<Longrightarrow> list_all (io_event n fd) evs \<Longrightarrow> calls m d evs = 0"
  by (induction evs) (auto elim: io_event.elims)

lemma extends_frame:
  assumes "extends (io_event n fd) tr tr1"
  shows "n \<notin> {SYS_write, SYS_send} \<Longrightarrow> sent d tr1 = sent d tr"
    and "n \<notin> {SYS_read, SYS_recv} \<Longrightarrow> got d tr1 = got d tr"
    and "m \<noteq> n \<Longrightarrow> calls m d tr1 = calls m d tr"
  using assms by (auto simp: extends_def io_event_sent io_event_got io_event_calls)

section \<open>One retried call\<close>

text \<open>
  What is known when a retried call on a descriptor returns reply \<open>r\<close>: only calls of that
  kind were made, the interrupted ones moved nothing, and the last one answered \<open>r\<close>.
\<close>

definition io_post :: "sysno \<Rightarrow> int \<Rightarrow> byte list \<Rightarrow> reply \<Rightarrow> 'g world \<Rightarrow> 'g world \<Rightarrow> bool" where
  "io_post n fd p r w w1 \<longleftrightarrow>
     extends (io_event n fd) (trace w) (trace w1) \<and>
     (\<forall>d. sent d (trace w1) = sent d (trace w) @ sent1 d (Sys n [fd] p r)) \<and>
     (\<forall>d. got d (trace w1) = got d (trace w) @ got1 d (Sys n [fd] p r)) \<and>
     (\<exists>tr. trace w1 = tr @ [Sys n [fd] p r]) \<and>
     (\<forall>m. successes m (trace w1) =
        successes m (trace w) + (if m = n \<and> 0 \<le> r_val r then 1 else 0)) \<and>
     same_sig w w1 \<and>
     length (script w1) < length (script w) \<and>
     (r_val r = -1 \<longrightarrow> werrno w1 = r_errno r \<and> r_errno r \<noteq> EINTR)"

definition io_halt :: "sysno \<Rightarrow> int \<Rightarrow> 'g world \<Rightarrow> 'g world \<Rightarrow> bool" where
  "io_halt n fd w w1 \<longleftrightarrow>
     extends (io_event n fd) (trace w) (trace w1) \<and>
     (\<forall>d. sent d (trace w1) = sent d (trace w)) \<and> (\<forall>d. got d (trace w1) = got d (trace w)) \<and>
     (\<forall>m. successes m (trace w1) = successes m (trace w))"

lemma io_halt_refl [simp]: "io_halt n fd w w"
  by (simp add: io_halt_def)

lemma failed_call_moves_nothing: "\<not> 0 < r_val r \<Longrightarrow> sent1 d (Sys n a p r) = [] \<and> got1 d (Sys n a p r) = []"
  by simp

lemma wp_retry_io:
  assumes ret: "\<And>r w1. good r \<Longrightarrow> io_post n fd p r w w1 \<Longrightarrow> Q r w1"
    and halt: "\<And>h w1. io_halt n fd w w1 \<Longrightarrow> E h w1"
  shows "wp (retry (sys n [fd] p good)) Q E w"
proof (rule wp_retry [where
      I = "\<lambda>v. (io_halt n fd w v \<and> same_sig w v) \<and> length (script v) \<le> length (script w)"])
  show "(io_halt n fd w w \<and> same_sig w w) \<and> length (script w) \<le> length (script w)" by simp
next
  fix v assume v: "(io_halt n fd w v \<and> same_sig w v) \<and> length (script v) \<le> length (script w)"
  show "wp (sys n [fd] p good) (\<lambda>r w1. if r_val r = -1 \<and> werrno w1 = EINTR
      then ((io_halt n fd w w1 \<and> same_sig w w1) \<and> length (script w1) \<le> length (script w)) \<and>
        length (script w1) < length (script v)
      else Q r w1) E v"
  proof (rule wp_sys)
    fix r w1 assume good: "good r" and post: "sys_post n [fd] p r v w1"
    have ext: "extends (io_event n fd) (trace w) (trace w1)"
      using v post by (auto simp: io_halt_def intro: extends_sys)
    have tr: "sent d (trace w1) = sent d (trace w) @ sent1 d (Sys n [fd] p r)"
      "got d (trace w1) = got d (trace w) @ got1 d (Sys n [fd] p r)"
      "successes m (trace w1) = successes m (trace w) + (if m = n \<and> 0 \<le> r_val r then 1 else 0)" for d m
      using v sys_post_traces(1,2) [OF post, of d] successes_append [OF sys_post_traces(4) [OF post]]
      by (simp_all add: io_halt_def)
    have sig: "same_sig w w1" using v sys_post_same_sig [OF post] same_sig_trans by blast
    have e: "r_val r = -1 \<longrightarrow> werrno w1 = r_errno r" and
      s: "length (script w1) < length (script v)" and
      last: "\<exists>tr. trace w1 = tr @ [Sys n [fd] p r]"
      using post by (auto simp: sys_post_def)
    show "if r_val r = -1 \<and> werrno w1 = EINTR
      then ((io_halt n fd w w1 \<and> same_sig w w1) \<and> length (script w1) \<le> length (script w)) \<and>
        length (script w1) < length (script v)
      else Q r w1"
    proof (cases "r_val r = -1 \<and> werrno w1 = EINTR")
      case True
      then show ?thesis using ext tr s v sig by (simp add: io_halt_def)
    next
      case False
      then have "io_post n fd p r w w1"
        using ext tr e s v last sig by (auto simp: io_post_def)
      with False good ret show ?thesis by auto
    qed
  next
    fix h w1 assume "sys_halt v h w1"
    then show "E h w1"
      using v by (intro halt)
        (auto simp: io_halt_def sys_halt_traces successes_def intro: extends_halt)
  qed
qed

lemma io_post_extends:
  "io_post n fd p r v w1 \<Longrightarrow> extends (io_event n fd) tr (trace v) \<Longrightarrow>
   extends (io_event n fd) tr (trace w1)"
  unfolding io_post_def by (blast intro: extends_trans)

lemma io_halt_extends:
  "io_halt n fd v w1 \<Longrightarrow> extends (io_event n fd) tr (trace v) \<Longrightarrow>
   extends (io_event n fd) tr (trace w1)"
  unfolding io_halt_def by (blast intro: extends_trans)

section \<open>What the loops guarantee, whatever the kernel does\<close>

text \<open>
  \<open>bulk_read\<close> returns the number of bytes it stored, never more than \<open>count\<close>, in the
  order the descriptor delivered them; it returns early only after a read that reported end
  of file; a negative result is -1 with an errno other than EINTR.
\<close>

definition read_result :: "int \<Rightarrow> nat \<Rightarrow> 'g world \<Rightarrow> int \<times> byte list \<Rightarrow> 'g world \<Rightarrow> bool" where
  "read_result fd count w res w1 \<longleftrightarrow>
     (case res of (n, buf) \<Rightarrow>
       same_sig w w1 \<and> extends (io_event SYS_read fd) (trace w) (trace w1) \<and>
       got fd (trace w1) = got fd (trace w) @ buf \<and>
       (if n < 0 then n = -1 \<and> werrno w1 \<noteq> EINTR \<and> length buf < max 1 count
        else nat n = length buf \<and> length buf \<le> count \<and>
          (length buf < count \<longrightarrow> (\<exists>tr r. trace w1 = tr @ [Sys SYS_read [fd] [] r] \<and> r_val r = 0))))"

lemma put_at_end: "put_at (length mem) new mem = mem @ new"
  by (simp add: put_at_def)

text \<open>The loop invariant of \<open>bulk_read\<close>.\<close>

definition read_inv :: "int \<Rightarrow> nat \<Rightarrow> 'g world \<Rightarrow> nat \<times> byte list \<times> nat \<Rightarrow> 'g world \<Rightarrow> bool" where
  "read_inv fd count w st v \<longleftrightarrow> (case st of (len, mem, left) \<Rightarrow>
     len = length mem \<and> len + left = count \<and> (0 < left \<or> count = 0) \<and> same_sig w v \<and>
     extends (io_event SYS_read fd) (trace w) (trace v) \<and>
     got fd (trace v) = got fd (trace w) @ mem)"

lemma wp_bulk_read_body:
  assumes conv: "\<And>c. -1 \<le> c \<Longrightarrow> c \<le> int count \<Longrightarrow> conv c = c"
    and halt: "\<And>h w1. extends (io_event SYS_read fd) (trace w) (trace w1) \<Longrightarrow> E h w1"
    and post: "\<And>res w1. read_result fd count w res w1 \<Longrightarrow> Q res w1"
    and I: "read_inv fd count w (len, mem, left) v"
  shows "wp (bulk_read_body conv fd (len, mem, left)) (\<lambda>x w1. case x of
        Inl s1 \<Rightarrow> read_inv fd count w s1 w1 \<and> length (script w1) < length (script v)
      | Inr r \<Rightarrow> Q r w1) E v"
  unfolding bulk_read_body_def sys_read_def split wp_bind
proof (rule wp_retry_io)
  fix r w1 assume r: "in_ok left r" and p: "io_post SYS_read fd [] r v w1"
  have ext: "extends (io_event SYS_read fd) (trace w) (trace w1)"
    by (rule io_post_extends [OF p]) (use I in \<open>simp add: read_inv_def\<close>)
  have sig: "same_sig w w1"
    using I p same_sig_trans unfolding io_post_def read_inv_def split by blast
  have "-1 \<le> r_val r" "r_val r \<le> int count"
    using r I by (auto simp: in_ok_def read_inv_def)
  then have c: "conv (r_val r) = r_val r" by (rule conv)
  have g: "got fd (trace w1) = got fd (trace w) @ mem @ stored r"
    using I p by (simp add: io_post_def stored_def read_inv_def)
  have len: "len = length mem" "len + left = count" "0 < left \<or> count = 0"
    using I by (auto simp: read_inv_def)
  consider (err) "r_val r = -1" | (eof) "r_val r = 0" | (some) "0 < r_val r"
    using \<open>-1 \<le> r_val r\<close> by linarith
  then show "wp (let c = conv (r_val r); mem1 = put_at len (stored r) mem
        in if c < 0 then ret (Inr (c, mem1))
           else if c = 0 then ret (Inr (int len, mem1))
                else let len1 = len + nat c; count1 = left - nat c
                     in if 0 < count1 then ret (Inl (len1, mem1, count1))
                        else ret (Inr (int len1, mem1)))
      (\<lambda>x w1. case x of
        Inl s1 \<Rightarrow> read_inv fd count w s1 w1 \<and> length (script w1) < length (script v)
      | Inr r \<Rightarrow> Q r w1) E w1"
  proof cases
    case err
    then show ?thesis using p ext g len c sig
      by (auto simp: Let_def wp_rules put_at_end stored_def io_post_def read_result_def
          intro!: post)
  next
    case eof
    then show ?thesis using p ext g len c sig
      by (auto simp: Let_def wp_rules put_at_end stored_def io_post_def read_result_def
          intro!: post)
  next
    case some
    then have "length (stored r) = nat (r_val r)" "nat (r_val r) \<le> left"
      using r by (auto simp: in_ok_def stored_def)
    then show ?thesis using some p ext g len c sig
      by (auto simp: Let_def wp_rules put_at_end io_post_def read_result_def read_inv_def
          intro!: post)
  qed
next
  fix h w1 assume "io_halt SYS_read fd v w1"
  then show "E h w1"
    by (intro halt, elim io_halt_extends) (use I in \<open>simp add: read_inv_def\<close>)
qed

lemma wp_bulk_read_gen:
  assumes "\<And>c. -1 \<le> c \<Longrightarrow> c \<le> int count \<Longrightarrow> conv c = c"
    and "\<And>h w1. extends (io_event SYS_read fd) (trace w) (trace w1) \<Longrightarrow> E h w1"
    and "\<And>res w1. read_result fd count w res w1 \<Longrightarrow> Q res w1"
  shows "wp (loop_m (bulk_read_body conv fd) (0, [], count)) Q E w"
proof (rule wp_loop [where I = "read_inv fd count w"])
  show "read_inv fd count w (0, [], count) w" by (auto simp: read_inv_def)
next
  fix st v assume "read_inv fd count w st v"
  then show "wp (bulk_read_body conv fd st) (\<lambda>x w1. case x of
        Inl s1 \<Rightarrow> read_inv fd count w s1 w1 \<and> length (script w1) < length (script v)
      | Inr r \<Rightarrow> Q r w1) E v"
    using wp_bulk_read_body [OF assms] by (cases st) auto
qed

lemma wp_bulk_read:
  assumes "count < 2 ^ 31"
    and "\<And>h w1. extends (io_event SYS_read fd) (trace w) (trace w1) \<Longrightarrow> E h w1"
    and "\<And>res w1. read_result fd count w res w1 \<Longrightarrow> Q res w1"
  shows "wp (bulk_read fd count) Q E w"
  unfolding bulk_read_def
  by (rule wp_bulk_read_gen) (use assms in \<open>auto simp: in_int_iff\<close>)

lemma wp_bulk_read_ss:
  assumes "\<And>h w1. extends (io_event SYS_read fd) (trace w) (trace w1) \<Longrightarrow> E h w1"
    and "\<And>res w1. read_result fd count w res w1 \<Longrightarrow> Q res w1"
  shows "wp (bulk_read_ss fd count) Q E w"
  unfolding bulk_read_ss_def
  by (rule wp_bulk_read_gen) (use assms in auto)

text \<open>
  \<open>bulk_write\<close> returns the length of the buffer, and then the descriptor has accepted the
  buffer, whole and in order; or -1 with an errno other than EINTR, after a proper prefix.
\<close>

definition write_result :: "int \<Rightarrow> byte list \<Rightarrow> 'g world \<Rightarrow> int \<Rightarrow> 'g world \<Rightarrow> bool" where
  "write_result fd buf w n w1 \<longleftrightarrow>
     same_sig w w1 \<and> extends (io_event SYS_write fd) (trace w) (trace w1) \<and>
     (if n < 0 then n = -1 \<and> werrno w1 \<noteq> EINTR \<and>
        (\<exists>p q. buf = p @ q \<and> (buf \<noteq> [] \<longrightarrow> q \<noteq> []) \<and> sent fd (trace w1) = sent fd (trace w) @ p)
      else n = int (length buf) \<and> sent fd (trace w1) = sent fd (trace w) @ buf)"

definition write_inv :: "int \<Rightarrow> byte list \<Rightarrow> 'g world \<Rightarrow> nat \<times> byte list \<Rightarrow> 'g world \<Rightarrow> bool" where
  "write_inv fd buf w st v \<longleftrightarrow> (case st of (len, left) \<Rightarrow>
     len \<le> length buf \<and> left = drop len buf \<and> (left \<noteq> [] \<or> buf = []) \<and> same_sig w v \<and>
     extends (io_event SYS_write fd) (trace w) (trace v) \<and>
     sent fd (trace v) = sent fd (trace w) @ take len buf)"

lemma wp_bulk_write_body:
  assumes conv: "\<And>c. -1 \<le> c \<Longrightarrow> c \<le> int (length buf) \<Longrightarrow> conv c = c"
    and halt: "\<And>h w1. extends (io_event SYS_write fd) (trace w) (trace w1) \<Longrightarrow> E h w1"
    and post: "\<And>n w1. write_result fd buf w n w1 \<Longrightarrow> Q n w1"
    and I: "write_inv fd buf w (len, left) v"
  shows "wp (bulk_write_body conv fd (len, left)) (\<lambda>x w1. case x of
        Inl s1 \<Rightarrow> write_inv fd buf w s1 w1 \<and> length (script w1) < length (script v)
      | Inr n \<Rightarrow> Q n w1) E v"
  unfolding bulk_write_body_def sys_write_def split wp_bind
proof (rule wp_retry_io)
  fix r w1 assume r: "out_ok (length left) r" and p: "io_post SYS_write fd left r v w1"
  have ext: "extends (io_event SYS_write fd) (trace w) (trace w1)"
    by (rule io_post_extends [OF p]) (use I in \<open>simp add: write_inv_def\<close>)
  have len: "len \<le> length buf" "left = drop len buf" "left \<noteq> [] \<or> buf = []"
    using I unfolding write_inv_def split by blast+
  have sig: "same_sig w w1"
    using I p same_sig_trans unfolding io_post_def write_inv_def split by blast
  have "-1 \<le> r_val r" "r_val r \<le> int (length buf)"
    using r len by (auto simp: out_ok_def)
  then have c: "conv (r_val r) = r_val r" by (rule conv)
  have s: "sent fd (trace w1) =
      sent fd (trace w) @ take len buf @ (if 0 < r_val r then take (nat (r_val r)) left else [])"
  proof -
    have "sent fd (trace v) = sent fd (trace w) @ take len buf"
      using I unfolding write_inv_def split by blast
    moreover have "sent fd (trace w1) = sent fd (trace v) @ sent1 fd (Sys SYS_write [fd] left r)"
      using p unfolding io_post_def by blast
    ultimately show ?thesis by simp
  qed
  show "wp (let c = conv (r_val r)
        in if c < 0 then ret (Inr c)
           else let len1 = len + nat c; buf1 = drop (nat c) left
                in if buf1 \<noteq> [] then ret (Inl (len1, buf1)) else ret (Inr (int len1)))
      (\<lambda>x w1. case x of
        Inl s1 \<Rightarrow> write_inv fd buf w s1 w1 \<and> length (script w1) < length (script v)
      | Inr n \<Rightarrow> Q n w1) E w1"
  proof (cases "r_val r < 0")
    case True
    then have "r_val r = -1" using \<open>-1 \<le> r_val r\<close> by simp
    moreover have "\<exists>p q. buf = p @ q \<and> (buf \<noteq> [] \<longrightarrow> q \<noteq> []) \<and>
        sent fd (trace w1) = sent fd (trace w) @ p"
      by (rule exI [of _ "take len buf"], rule exI [of _ left])
        (use s len True in \<open>simp; blast\<close>)
    ultimately have "write_result fd buf w (-1) w1"
      using p ext sig unfolding write_result_def io_post_def by simp
    then show ?thesis using True c \<open>r_val r = -1\<close> by (auto simp: Let_def wp_rules intro: post)
  next
    case False
    define k where "k = nat (r_val r)"
    have k: "k \<le> length left" "r_val r = int k" using False r by (auto simp: out_ok_def k_def)
    have sk: "sent fd (trace w1) = sent fd (trace w) @ take (len + k) buf"
      using s k len by (cases "k = 0") (auto simp: take_add)
    show ?thesis
    proof (cases "drop k left = []")
      case True
      then have "len + k = length buf" using k len by simp
      then have "write_result fd buf w (int (len + k)) w1"
        using sk ext sig by (simp add: write_result_def)
      then show ?thesis using True k c by (auto simp: Let_def wp_rules intro: post)
    next
      case more: False
      then have "write_inv fd buf w (len + k, drop k left) w1"
        using sk ext k len sig by (auto simp: write_inv_def add.commute)
      then show ?thesis using more k c p by (auto simp: Let_def wp_rules io_post_def)
    qed
  qed
next
  fix h w1 assume "io_halt SYS_write fd v w1"
  then show "E h w1"
    by (intro halt, elim io_halt_extends) (use I in \<open>simp add: write_inv_def\<close>)
qed

lemma wp_bulk_write_gen:
  assumes "\<And>c. -1 \<le> c \<Longrightarrow> c \<le> int (length buf) \<Longrightarrow> conv c = c"
    and "\<And>h w1. extends (io_event SYS_write fd) (trace w) (trace w1) \<Longrightarrow> E h w1"
    and "\<And>n w1. write_result fd buf w n w1 \<Longrightarrow> Q n w1"
  shows "wp (loop_m (bulk_write_body conv fd) (0, buf)) Q E w"
proof (rule wp_loop [where I = "write_inv fd buf w"])
  show "write_inv fd buf w (0, buf) w" by (auto simp: write_inv_def)
next
  fix st v assume "write_inv fd buf w st v"
  then show "wp (bulk_write_body conv fd st) (\<lambda>x w1. case x of
        Inl s1 \<Rightarrow> write_inv fd buf w s1 w1 \<and> length (script w1) < length (script v)
      | Inr r \<Rightarrow> Q r w1) E v"
    using wp_bulk_write_body [OF assms] by (cases st) auto
qed

lemma wp_bulk_write:
  assumes "length buf < 2 ^ 31"
    and "\<And>h w1. extends (io_event SYS_write fd) (trace w) (trace w1) \<Longrightarrow> E h w1"
    and "\<And>n w1. write_result fd buf w n w1 \<Longrightarrow> Q n w1"
  shows "wp (bulk_write fd buf) Q E w"
  unfolding bulk_write_def
  by (rule wp_bulk_write_gen) (use assms in \<open>auto simp: in_int_iff\<close>)

lemma wp_bulk_write_ss:
  assumes "\<And>h w1. extends (io_event SYS_write fd) (trace w) (trace w1) \<Longrightarrow> E h w1"
    and "\<And>n w1. write_result fd buf w n w1 \<Longrightarrow> Q n w1"
  shows "wp (bulk_write_ss fd buf) Q E w"
  unfolding bulk_write_ss_def
  by (rule wp_bulk_write_gen) (use assms in auto)

section \<open>The loops return\<close>

text \<open>
  \<open>feeds n rs bs\<close>: the replies \<open>rs\<close> deliver the bytes \<open>bs\<close>, exactly \<open>n\<close> of them, cut
  into non-empty pieces in any way and with any interruptions between; \<open>drains n rs\<close>: the
  replies accept exactly \<open>n\<close> bytes, in pieces and with interruptions likewise.
\<close>

definition interrupted :: "reply \<Rightarrow> bool" where
  "interrupted r \<longleftrightarrow> r_val r = -1 \<and> r_errno r = EINTR"

fun feeds :: "nat \<Rightarrow> reply list \<Rightarrow> byte list \<Rightarrow> bool" where
  "feeds n [] bs = (n = 0 \<and> bs = [])"
| "feeds n (r # rs) bs = (r_sigs r = [] \<and> 0 < n \<and>
     (if interrupted r then feeds n rs bs
      else 0 < r_val r \<and> in_ok n r \<and> take (length (r_data r)) bs = r_data r \<and>
        feeds (n - length (r_data r)) rs (drop (length (r_data r)) bs)))"

fun drains :: "nat \<Rightarrow> reply list \<Rightarrow> bool" where
  "drains n [] = (n = 0)"
| "drains n (r # rs) = (r_sigs r = [] \<and> 0 < n \<and>
     (if interrupted r then drains n rs
      else 0 < r_val r \<and> out_ok n r \<and> drains (n - nat (r_val r)) rs))"

lemma feeds_nil [simp]: "feeds 0 rs bs \<longleftrightarrow> rs = [] \<and> bs = []"
  by (cases rs) auto

lemma drains_nil [simp]: "drains 0 rs \<longleftrightarrow> rs = []"
  by (cases rs) auto

text \<open>The calls of one kind that consumed the replies \<open>rs\<close>.\<close>

definition io_events :: "sysno \<Rightarrow> int \<Rightarrow> reply list \<Rightarrow> event list" where
  "io_events n fd rs = map (Sys n [fd] []) rs"

lemma bulk_bodies_consume:
  shows "bulk_read_body conv fd st w = (Ret x, w1) \<Longrightarrow> length (script w1) < length (script w)"
    and "bulk_write_body conv fd st2 w = (Ret x2, w1) \<Longrightarrow> length (script w1) < length (script w)"
proof -
  have "wp (bulk_read_body conv fd st) (\<lambda>x w1. length (script w1) < length (script w)) (\<lambda>_ _. True) w"
    unfolding bulk_read_body_def sys_read_def split_beta wp_bind
    by (rule wp_retry_io) (auto simp: Let_def wp_rules io_post_def)
  then show "bulk_read_body conv fd st w = (Ret x, w1) \<Longrightarrow> length (script w1) < length (script w)"
    by (rule wp_Ret)
  have "wp (bulk_write_body conv fd st2) (\<lambda>x w1. length (script w1) < length (script w)) (\<lambda>_ _. True) w"
    unfolding bulk_write_body_def sys_write_def split_beta wp_bind
    by (rule wp_retry_io) (auto simp: Let_def wp_rules io_post_def)
  then show "bulk_write_body conv fd st2 w = (Ret x2, w1) \<Longrightarrow> length (script w1) < length (script w)"
    by (rule wp_Ret)
qed

lemma bulk_read_feeds:
  assumes "feeds left rs bs" "0 < left" "len = length mem"
    and conv: "\<And>c. 0 < c \<Longrightarrow> c \<le> int left \<Longrightarrow> conv c = c"
    and "script w = rs @ rest"
  shows "\<exists>w1. loop_m (bulk_read_body conv fd) (len, mem, left) w =
      (Ret (int (len + left), mem @ bs), w1) \<and>
    script w1 = rest \<and> trace w1 = trace w @ io_events SYS_read fd rs \<and> glob w1 = glob w \<and>
    sigact w1 = sigact w \<and> sigmask w1 = sigmask w"
  using assms
proof (induction rs arbitrary: left bs len mem w)
  case Nil
  then show ?case by simp
next
  case (Cons r rs)
  have script: "script w = r # (rs @ rest)" and q: "r_sigs r = []" using Cons.prems by auto
  show ?case
  proof (cases "interrupted r")
    case True
    have "loop_m (bulk_read_body conv fd) (len, mem, left) w =
        loop_m (bulk_read_body conv fd) (len, mem, left) (adv SYS_read [fd] [] r w)"
    proof (rule loop_m_skip [OF _ bulk_bodies_consume(1)])
      show "bulk_read_body conv fd (len, mem, left) w =
          bulk_read_body conv fd (len, mem, left) (adv SYS_read [fd] [] r w)"
        using True script q
        by (simp add: bulk_read_body_def sys_read_def bind_m_def
            retry_interrupted [OF script, of "in_ok left"] interrupted_def in_ok_def)
    qed (simp_all add: script)
    moreover have "feeds left rs bs" using Cons.prems(1) True by simp
    ultimately show ?thesis
      using Cons.IH [OF _ Cons.prems(2,3,4), of bs "adv SYS_read [fd] [] r w"] script
      by (simp add: io_events_def)
  next
    case False
    let ?d = "r_data r" and ?w = "adv SYS_read [fd] [] r w"
    have r: "0 < r_val r" "in_ok left r" "take (length ?d) bs = ?d"
      "feeds (left - length ?d) rs (drop (length ?d) bs)"
      using Cons.prems(1) False by auto
    have k: "r_val r = int (length ?d)" "length ?d \<le> left" using r by (auto simp: in_ok_def)
    have c: "conv (int (length ?d)) = int (length ?d)" using conv r k Cons.prems(4) by simp
    have body: "bulk_read_body conv fd (len, mem, left) w =
        (Ret (if length ?d < left then Inl (len + length ?d, mem @ ?d, left - length ?d)
              else Inr (int (len + length ?d), mem @ ?d)), ?w)"
      using script q r k c False Cons.prems(3)
      by (simp add: bulk_read_body_def sys_read_def bind_m_def retry_returns [OF script]
          interrupted_def Let_def ret_def stored_def put_at_end)
    show ?thesis
    proof (cases "length ?d < left")
      case True
      have "\<exists>w1. loop_m (bulk_read_body conv fd) (len + length ?d, mem @ ?d, left - length ?d) ?w =
          (Ret (int (len + length ?d + (left - length ?d)), (mem @ ?d) @ drop (length ?d) bs), w1) \<and>
        script w1 = rest \<and> trace w1 = trace ?w @ io_events SYS_read fd rs \<and> glob w1 = glob ?w \<and>
        sigact w1 = sigact ?w \<and> sigmask w1 = sigmask ?w"
        by (rule Cons.IH) (use True r(4) Cons.prems script in auto)
      moreover have "?d @ drop (length ?d) bs = bs" using r(3) by (metis append_take_drop_id)
      ultimately show ?thesis
        using True body script by (simp add: loop_m.simps [of _ _ w] io_events_def)
    next
      case False
      then have e: "length ?d = left" using k by simp
      then have "rs = []" "bs = ?d" using r(3,4) by auto
      then show ?thesis
        using e body script Cons.prems by (simp add: loop_m.simps [of _ _ w] io_events_def)
    qed
  qed
qed

lemma bulk_read_returns:
  assumes "feeds count rs bs" "0 < count" "count < 2 ^ 31" "script w = rs @ rest"
  shows "\<exists>w1. bulk_read fd count w = (Ret (int count, bs), w1) \<and> script w1 = rest \<and>
    trace w1 = trace w @ io_events SYS_read fd rs \<and> glob w1 = glob w \<and>
    sigact w1 = sigact w \<and> sigmask w1 = sigmask w"
  unfolding bulk_read_def
  using bulk_read_feeds [OF assms(1,2), of 0 "[]" to_int32 w rest fd] assms(3,4)
  by (simp add: in_int_iff)

lemma bulk_write_drains:
  assumes "drains (length left) rs" "left \<noteq> []"
    and conv: "\<And>c. 0 < c \<Longrightarrow> c \<le> int (length left) \<Longrightarrow> conv c = c"
    and "script w = rs @ rest"
  shows "\<exists>w1. loop_m (bulk_write_body conv fd) (len, left) w = (Ret (int (len + length left)), w1) \<and>
    script w1 = rest \<and> sent fd (trace w1) = sent fd (trace w) @ left \<and>
    extends (io_event SYS_write fd) (trace w) (trace w1) \<and>
    printed (trace w1) = printed (trace w) \<and> glob w1 = glob w \<and>
    sigact w1 = sigact w \<and> sigmask w1 = sigmask w"
  using assms
proof (induction rs arbitrary: left len w)
  case Nil
  then show ?case by simp
next
  case (Cons r rs)
  have script: "script w = r # (rs @ rest)" and q: "r_sigs r = []" using Cons.prems by auto
  let ?w = "adv SYS_write [fd] left r w"
  have ext: "extends (io_event SYS_write fd) (trace w) (trace w @ [Sys SYS_write [fd] left r])"
    by (simp add: extends_def)
  show ?case
  proof (cases "interrupted r")
    case True
    have "bulk_write_body conv fd (len, left) w = bulk_write_body conv fd (len, left) ?w"
      using True script q
      by (simp add: bulk_write_body_def sys_write_def bind_m_def
          retry_interrupted [OF script, of "out_ok (length left)"] interrupted_def out_ok_def)
    then have "loop_m (bulk_write_body conv fd) (len, left) w =
        loop_m (bulk_write_body conv fd) (len, left) ?w"
      by (rule loop_m_skip [OF _ bulk_bodies_consume(2)]) (simp_all add: script)
    moreover have "drains (length left) rs" using Cons.prems(1) True by simp
    ultimately show ?thesis
      using Cons.IH [OF _ Cons.prems(2,3), of ?w] script True
      by (auto simp: interrupted_def intro: extends_trans [OF ext])
  next
    case False
    define k where "k = nat (r_val r)"
    have r: "0 < k" "r_val r = int k" "k \<le> length left" "out_ok (length left) r"
      "drains (length left - k) rs"
      using Cons.prems(1) False by (auto simp: k_def out_ok_def)
    have c: "conv (int k) = int k" using r Cons.prems(3) by simp
    have body: "bulk_write_body conv fd (len, left) w =
        (Ret (if drop k left \<noteq> [] then Inl (len + k, drop k left) else Inr (int (len + k))), ?w)"
      using script q r c False
      by (simp add: bulk_write_body_def sys_write_def bind_m_def retry_returns [OF script]
          interrupted_def Let_def ret_def)
    have sent: "sent fd (trace ?w) = sent fd (trace w) @ take k left" using r by simp
    show ?thesis
    proof (cases "drop k left = []")
      case True
      then have e: "k = length left" using r by simp
      then have "rs = []" using r(5) by simp
      then show ?thesis
        using e body script sent ext by (simp add: loop_m.simps [of _ _ w])
    next
      case more: False
      have "\<exists>w1. loop_m (bulk_write_body conv fd) (len + k, drop k left) ?w =
          (Ret (int (len + k + length (drop k left))), w1) \<and> script w1 = rest \<and>
        sent fd (trace w1) = sent fd (trace ?w) @ drop k left \<and>
        extends (io_event SYS_write fd) (trace ?w) (trace w1) \<and>
        printed (trace w1) = printed (trace ?w) \<and> glob w1 = glob ?w \<and>
        sigact w1 = sigact ?w \<and> sigmask w1 = sigmask ?w"
        by (rule Cons.IH) (use more r Cons.prems script in auto)
      then show ?thesis
        using more body script sent r
        by (auto simp: loop_m.simps [of _ _ w] intro: extends_trans [OF ext])
    qed
  qed
qed

lemma bulk_write_returns:
  assumes "drains (length buf) rs" "buf \<noteq> []" "length buf < 2 ^ 31" "script w = rs @ rest"
  shows "\<exists>w1. bulk_write fd buf w = (Ret (int (length buf)), w1) \<and> script w1 = rest \<and>
    sent fd (trace w1) = sent fd (trace w) @ buf \<and>
    extends (io_event SYS_write fd) (trace w) (trace w1) \<and>
    printed (trace w1) = printed (trace w) \<and> glob w1 = glob w \<and>
    sigact w1 = sigact w \<and> sigmask w1 = sigmask w"
  unfolding bulk_write_def
  using bulk_write_drains [OF assms(1,2), of to_int32 w rest fd 0] assms(3,4)
  by (simp add: in_int_iff)

section \<open>The two routines\<close>

text \<open>
  Property C5. Whatever the kernel answers and whatever signals arrive, \<open>bulk_read\<close> makes
  no call but reads of its descriptor, and when it returns a count, that many bytes are in the
  buffer: the ones the descriptor delivered, in order, never more than asked for, and fewer
  only when the last read reported end of file; a negative result is -1, with an errno that is
  not EINTR.
\<close>

theorem bulk_read_correct:
  assumes "count < 2 ^ 31"
  shows "case bulk_read fd count w of
      (Ret (n, buf), w1) \<Rightarrow>
        extends (io_event SYS_read fd) (trace w) (trace w1) \<and>
        got fd (trace w1) = got fd (trace w) @ buf \<and>
        (if n < 0 then n = -1 \<and> werrno w1 \<noteq> EINTR
         else nat n = length buf \<and> length buf \<le> count \<and>
           (length buf < count \<longrightarrow> (\<exists>tr r. trace w1 = tr @ [Sys SYS_read [fd] [] r] \<and> r_val r = 0)))
    | (Halt h, w1) \<Rightarrow> extends (io_event SYS_read fd) (trace w) (trace w1)"
proof -
  have "wp (bulk_read fd count) (read_result fd count w)
      (\<lambda>h w1. extends (io_event SYS_read fd) (trace w) (trace w1)) w"
    by (rule wp_bulk_read) (use assms in auto)
  then show ?thesis
    by (auto simp: wp_def read_result_def split: prod.splits outcome.splits if_splits)
qed

definition reader5 :: "unit world" where
  "reader5 = idle [data_reply [1, 2], failed_reply EINTR, data_reply [3], ok_reply 0] ()"

lemma reader5_run: "fst (bulk_read 3 5 reader5) = Ret (3, [1, 2, 3])"
  by code_simp

theorem bulk_read_correct_witness:
  "got 3 (trace (snd (bulk_read 3 5 reader5))) = [1, 2, 3] \<and>
   (\<exists>tr r. trace (snd (bulk_read 3 5 reader5)) = tr @ [Sys SYS_read [3] [] r] \<and> r_val r = 0)"
proof -
  have "trace reader5 = []" by (simp add: reader5_def idle_def)
  then show ?thesis
    using bulk_read_correct [of 5 3 reader5] reader5_run
    by (cases "bulk_read 3 5 reader5") auto
qed

text \<open>
  Property C6. Whatever the kernel answers, \<open>bulk_write\<close> makes no call but writes to its
  descriptor; when it returns a count, it is the whole length and the descriptor has accepted
  exactly the buffer; a negative result is -1 with an errno that is not EINTR, and then a
  proper prefix has been accepted.
\<close>

theorem bulk_write_correct:
  assumes "length buf < 2 ^ 31"
  shows "case bulk_write fd buf w of
      (Ret n, w1) \<Rightarrow>
        extends (io_event SYS_write fd) (trace w) (trace w1) \<and>
        (if n < 0 then n = -1 \<and> werrno w1 \<noteq> EINTR \<and>
           (\<exists>p q. buf = p @ q \<and> (buf \<noteq> [] \<longrightarrow> q \<noteq> []) \<and> sent fd (trace w1) = sent fd (trace w) @ p)
         else n = int (length buf) \<and> sent fd (trace w1) = sent fd (trace w) @ buf)
    | (Halt h, w1) \<Rightarrow> extends (io_event SYS_write fd) (trace w) (trace w1)"
proof -
  have "wp (bulk_write fd buf) (write_result fd buf w)
      (\<lambda>h w1. extends (io_event SYS_write fd) (trace w) (trace w1)) w"
    by (rule wp_bulk_write) (use assms in auto)
  then show ?thesis
    by (auto simp: wp_def write_result_def split: prod.splits outcome.splits if_splits)
qed

definition writer5 :: "unit world" where
  "writer5 = idle [ok_reply 2, failed_reply EINTR, ok_reply 3] ()"

lemma writer5_run: "fst (bulk_write 3 [1, 2, 3, 4, 5] writer5) = Ret 5"
  by code_simp

theorem bulk_write_correct_witness:
  "sent 3 (trace (snd (bulk_write 3 [1, 2, 3, 4, 5] writer5))) = [1, 2, 3, 4, 5]"
proof -
  have "trace writer5 = []" by (simp add: writer5_def idle_def)
  then show ?thesis
    using bulk_write_correct [of "[1, 2, 3, 4, 5]" 3 writer5] writer5_run
    by (cases "bulk_write 3 [1, 2, 3, 4, 5] writer5") auto
qed

text \<open>Counting successful calls over these loops.\<close>

lemma io_event_successes: "m \<noteq> n \<Longrightarrow> list_all (io_event n fd) evs \<Longrightarrow> successes m evs = 0"
  by (induction evs) (auto elim: io_event.elims is_call.elims simp: successes_def)

lemma extends_successes:
  "extends (io_event n fd) tr tr1 \<Longrightarrow> m \<noteq> n \<Longrightarrow> successes m tr1 = successes m tr"
  using io_event_successes by (fastforce simp: extends_def successes_def)

lemma shrinks_bulk [shrink_rules]:
  "shrinks (bulk_read fd n)" "shrinks (bulk_write fd buf)" "shrinks (sys_close fd)"
  "shrinks (bulk_read_ss fd n)" "shrinks (bulk_write_ss fd buf)"
  unfolding bulk_read_def bulk_write_def bulk_read_body_def bulk_write_body_def sys_close_def
    sys_read_def sys_write_def bulk_read_ss_def bulk_write_ss_def
  by (intro shrink_rules)+

end
