(* ===== verification/Sockets.thy ===== *)
theory Sockets
  imports BulkIO
begin

text \<open>
  The socket helpers the networked programs share: creating, binding and listening,
  accepting without blocking, connecting with an interrupted connect completed by select,
  and installing signal handlers. The canonical text is \<open>socket_lib.h\<close>; \<open>connect_socket\<close>
  is that of the TCP clients and \<open>bind_inet_socket\<close> that of the UDP servers.
\<close>

definition PF_UNIX :: int where "PF_UNIX = 1"
definition PF_INET :: int where "PF_INET = 2"
definition SOCK_STREAM :: int where "SOCK_STREAM = 1"
definition SOCK_DGRAM :: int where "SOCK_DGRAM = 2"
definition SOL_SOCKET :: int where "SOL_SOCKET = 1"
definition SO_REUSEADDR :: int where "SO_REUSEADDR = 2"
definition SO_ERROR :: int where "SO_ERROR = 4"

lemmas socket_consts = PF_UNIX_def PF_INET_def SOCK_STREAM_def SOCK_DGRAM_def SOL_SOCKET_def
  SO_REUSEADDR_def SO_ERROR_def

text \<open>
  The memory image of a cleared \<open>sockaddr_in\<close> with the family, the port and the address
  INADDR_ANY set; the part of a \<open>sockaddr_un\<close> that SUN_LEN covers, whose path is cut to
  107 bytes by \<open>strncpy\<close>.
\<close>

definition sockaddr_in :: "16 word \<Rightarrow> byte list" where
  "sockaddr_in port = bytes16 2 @ bytes16 (htons port) @ bytes32 (htonl 0) @ replicate 8 0"

definition sockaddr_un :: "byte list \<Rightarrow> byte list" where
  "sockaddr_un name = bytes16 1 @ take 107 (cstr name)"

section \<open>Creating and binding\<close>

definition make_socket :: "int \<Rightarrow> int \<Rightarrow> ('g, int) prog" where
  "make_socket domain type = bind_m (sys SYS_socket [domain, type, 0] [] fd_ok) (\<lambda>r.
     if r_val r < 0 then err_exit ''socket'' else ret (r_val r))"

definition bind_local_socket :: "byte list \<Rightarrow> int \<Rightarrow> ('g, int) prog" where
  "bind_local_socket name backlog =
     bind_m (sys SYS_unlink [] (cstr name) status_ok) (\<lambda>u.
     bind_m get_errno (\<lambda>e.
     if r_val u < 0 \<and> e \<noteq> ENOENT then err_exit ''unlink''
     else bind_m (make_socket PF_UNIX SOCK_STREAM) (\<lambda>socketfd.
     bind_m (sys SYS_bind [socketfd] (sockaddr_un name) status_ok) (\<lambda>b.
     if r_val b < 0 then err_exit ''bind''
     else bind_m (sys SYS_listen [socketfd, backlog] [] status_ok) (\<lambda>l.
     if r_val l < 0 then err_exit ''listen''
     else ret socketfd)))))"

definition bind_tcp_socket :: "16 word \<Rightarrow> int \<Rightarrow> ('g, int) prog" where
  "bind_tcp_socket port backlog =
     bind_m (make_socket PF_INET SOCK_STREAM) (\<lambda>socketfd.
     bind_m (sys SYS_setsockopt [socketfd, SOL_SOCKET, SO_REUSEADDR, 1] [] status_ok) (\<lambda>o'.
     if r_val o' \<noteq> 0 then err_exit ''setsockopt''
     else bind_m (sys SYS_bind [socketfd] (sockaddr_in port) status_ok) (\<lambda>b.
     if r_val b < 0 then err_exit ''bind''
     else bind_m (sys SYS_listen [socketfd, backlog] [] status_ok) (\<lambda>l.
     if r_val l < 0 then err_exit ''listen''
     else ret socketfd))))"

text \<open>The library's UDP variant also listens, which a datagram socket refuses.\<close>

definition bind_udp_scoket :: "16 word \<Rightarrow> int \<Rightarrow> ('g, int) prog" where
  "bind_udp_scoket port backlog =
     bind_m (make_socket PF_INET SOCK_DGRAM) (\<lambda>socketfd.
     bind_m (sys SYS_setsockopt [socketfd, SOL_SOCKET, SO_REUSEADDR, 1] [] status_ok) (\<lambda>o'.
     if r_val o' \<noteq> 0 then err_exit ''setsockopt''
     else bind_m (sys SYS_bind [socketfd] (sockaddr_in port) status_ok) (\<lambda>b.
     if r_val b < 0 then err_exit ''bind''
     else bind_m (sys SYS_listen [socketfd, backlog] [] status_ok) (\<lambda>l.
     if r_val l < 0 then err_exit ''listen''
     else ret socketfd))))"

text \<open>The variant of \<open>file_server.c\<close>, which listens on a stream socket only.\<close>

definition bind_inet_socket :: "16 word \<Rightarrow> int \<Rightarrow> int \<Rightarrow> ('g, int) prog" where
  "bind_inet_socket port type backlog =
     bind_m (make_socket PF_INET type) (\<lambda>socketfd.
     bind_m (sys SYS_setsockopt [socketfd, SOL_SOCKET, SO_REUSEADDR, 1] [] status_ok) (\<lambda>o'.
     if r_val o' \<noteq> 0 then err_exit ''setsockopt''
     else bind_m (sys SYS_bind [socketfd] (sockaddr_in port) status_ok) (\<lambda>b.
     if r_val b < 0 then err_exit ''bind''
     else if type = SOCK_STREAM then
       bind_m (sys SYS_listen [socketfd, backlog] [] status_ok) (\<lambda>l.
       if r_val l < 0 then err_exit ''listen'' else ret socketfd)
     else ret socketfd)))"

section \<open>Accepting and connecting\<close>

definition add_new_client :: "int \<Rightarrow> ('g, int) prog" where
  "add_new_client sfd = bind_m (retry (sys SYS_accept [sfd] [] fd_ok)) (\<lambda>r.
     if r_val r < 0 then bind_m get_errno (\<lambda>e.
       if e = EAGAIN then ret (-1) else err_exit ''accept'')
     else ret (r_val r))"

text \<open>
  The resolver: it stores a \<open>sockaddr_in\<close> image or fails, in which case the program
  reports (the data of the reply is then the text \<open>gai_strerror\<close> gives) and exits.
\<close>

definition make_address :: "byte list \<Rightarrow> byte list \<Rightarrow> ('g, byte list) prog" where
  "make_address address port =
     bind_m (sys SYS_getaddrinfo [] (cstr address @ 0 # cstr port @ [0]) any_ok) (\<lambda>r.
       if r_val r \<noteq> 0 then bind_m (eprintf (str ''getaddrinfo: '' @ r_data r @ [10])) (\<lambda>_. halt_m (Exit 1))
       else ret (r_data r))"

definition connect_socket :: "byte list \<Rightarrow> byte list \<Rightarrow> ('g, int) prog" where
  "connect_socket name port =
     bind_m (make_socket PF_INET SOCK_STREAM) (\<lambda>socketfd.
     bind_m (make_address name port) (\<lambda>addr.
     bind_m (sys SYS_connect [socketfd] addr status_ok) (\<lambda>c.
     if r_val c < 0 then
       bind_m get_errno (\<lambda>e.
       if e \<noteq> EINTR then err_exit ''connect''
       else
         bind_m (retry (sys SYS_select [socketfd] [] fd_ok)) (\<lambda>s.
         if r_val s < 0 then err_exit ''select''
         else bind_m (sys SYS_getsockopt [socketfd, SOL_SOCKET, SO_ERROR] [] status_ok) (\<lambda>g.
         if r_val g < 0 then err_exit ''getsockopt''
         else if r_vals g \<noteq> [0] then err_exit ''connect''
         else ret socketfd)))
     else ret socketfd)))"

section \<open>Signal handlers and non-blocking descriptors\<close>

text \<open>The two texts of \<open>sethandler\<close>: one returns -1 on failure, one reports it itself.\<close>

definition sethandler :: "'g handler \<Rightarrow> nat \<Rightarrow> ('g, int) prog" where
  "sethandler f sigNo = bind_m (sys_sigaction sigNo f) (\<lambda>r.
     if r_val r = -1 then ret (-1) else ret 0)"

definition sethandler_err :: "'g handler \<Rightarrow> nat \<Rightarrow> ('g, unit) prog" where
  "sethandler_err f sigNo = bind_m (sys_sigaction sigNo f) (\<lambda>r.
     if r_val r = -1 then err_exit ''sigaction'' else ret ())"

definition O_NONBLOCK :: int where "O_NONBLOCK = 2048"
definition F_GETFL :: int where "F_GETFL = 3"
definition F_SETFL :: int where "F_SETFL = 4"

text \<open>\<open>new_flags = fcntl(fd, F_GETFL) | O_NONBLOCK; fcntl(fd, F_SETFL, new_flags)\<close>.\<close>

definition set_nonblock :: "int \<Rightarrow> ('g, int) prog" where
  "set_nonblock fd =
     bind_m (sys SYS_fcntl [fd, F_GETFL] [] any_ok) (\<lambda>g.
     bind_m (sys SYS_fcntl [fd, F_SETFL, or (r_val g) O_NONBLOCK] [] status_ok) (\<lambda>s.
     ret (r_val s)))"

section \<open>What the helpers do\<close>

text \<open>
  A helper makes a fixed sequence of calls: when it returns, it has made all of them and
  they succeeded; when it exits, it has made a prefix of them and the last one failed.
\<close>

type_synonym done_call = "sysno \<times> int list \<times> byte list \<times> int"
type_synonym planned_call = "sysno \<times> int list \<times> byte list"

fun completed :: "planned_call list \<Rightarrow> done_call list \<Rightarrow> bool" where
  "completed [] cs = (cs = [])"
| "completed ((n, a, p) # plan) cs = (case cs of [] \<Rightarrow> False | (n', a', p', v) # cs' \<Rightarrow>
     n' = n \<and> a' = a \<and> p' = p \<and> v \<noteq> -1 \<and> completed plan cs')"

fun failed_in :: "planned_call list \<Rightarrow> done_call list \<Rightarrow> bool" where
  "failed_in [] cs = False"
| "failed_in ((n, a, p) # plan) cs = (case cs of [] \<Rightarrow> False | (n', a', p', v) # cs' \<Rightarrow>
     n' = n \<and> a' = a \<and> p' = p \<and> (if cs' = [] then v = -1 else v \<noteq> -1 \<and> failed_in plan cs'))"

definition bound_setup :: "int \<Rightarrow> 16 word \<Rightarrow> int \<Rightarrow> planned_call list" where
  "bound_setup type port fd =
     [(SYS_socket, [PF_INET, type, 0], []),
      (SYS_setsockopt, [fd, SOL_SOCKET, SO_REUSEADDR, 1], []),
      (SYS_bind, [fd], sockaddr_in port)]"

definition tcp_setup :: "16 word \<Rightarrow> int \<Rightarrow> int \<Rightarrow> planned_call list" where
  "tcp_setup port backlog fd =
     bound_setup SOCK_STREAM port fd @ [(SYS_listen, [fd, backlog], [])]"

text \<open>What \<open>w1\<close> has done beyond \<open>w\<close>.\<close>

definition new_calls :: "'g world \<Rightarrow> 'g world \<Rightarrow> done_call list" where
  "new_calls w w1 = drop (length (syscalls (trace w))) (syscalls (trace w1))"

text \<open>The result of the first of the calls, which creates the socket.\<close>

definition first_result :: "done_call list \<Rightarrow> int" where
  "first_result cs = snd (snd (snd (hd cs)))"

lemmas setup_defs = status_ok_def fd_ok_def tcp_setup_def bound_setup_def new_calls_def
  first_result_def

lemma wp_bind_tcp_socket:
  "wp (bind_tcp_socket port backlog)
     (\<lambda>fd w1. 0 \<le> fd \<and> first_result (new_calls w w1) = fd \<and>
        completed (tcp_setup port backlog fd) (new_calls w w1))
     (\<lambda>h w1. h = Exit 1 \<longrightarrow>
        failed_in (tcp_setup port backlog (first_result (new_calls w w1))) (new_calls w w1)) w"
  unfolding bind_tcp_socket_def make_socket_def
  by (auto simp: wp_rules setup_defs intro!: wp_sys_calls)

text \<open>
  \<open>bind_tcp_socket\<close> creates, configures, binds and listens in that order on
  one and the same socket: when it returns a descriptor, exactly these four calls were made,
  on that descriptor, and all succeeded; when it exits with an error, it has made a prefix of
  them of which only the last failed.
\<close>

theorem bind_tcp_socket_order:
  "case bind_tcp_socket port backlog w of
     (Ret fd, w1) \<Rightarrow> 0 \<le> fd \<and> first_result (new_calls w w1) = fd \<and>
        completed (tcp_setup port backlog fd) (new_calls w w1)
   | (Halt h, w1) \<Rightarrow> (if h = Exit 1
        then failed_in (tcp_setup port backlog (first_result (new_calls w w1))) (new_calls w w1)
        else h = Blocked \<or> (\<exists>s. h = Killed s))"
proof -
  have "wp (bind_tcp_socket port backlog) (\<lambda>_ _. True) (\<lambda>h w1. h = Exit 1 \<or> h = Blocked \<or> (\<exists>s. h = Killed s)) w"
    unfolding bind_tcp_socket_def make_socket_def
    by (auto simp: wp_rules intro!: wp_sys_calls)
  then show ?thesis using wp_bind_tcp_socket [of port backlog w]
    by (auto simp: wp_def split: prod.splits outcome.splits)
qed

end
