(* ===== verification/Calculator.thy ===== *)
theory Calculator
  imports Sockets
begin

text \<open>
  The calculator service of \<open>L2_3\<close>: a server that answers one five-word request per
  connection on a local and a TCP socket, and the two clients. A request and its answer are
  five 32-bit words in network byte order: the operands, the result, the operation
  character and the status.
\<close>

section \<open>The computation\<close>

text \<open>
  The C program leaves \<open>result\<close> uninitialised when the status is 0: \<open>junk\<close> is that
  indeterminate value. \<open>None\<close> is undefined behaviour: signed overflow, and the division of
  the least integer by -1.
\<close>

definition calc_op :: "32 word \<Rightarrow> byte \<Rightarrow> int \<Rightarrow> int \<Rightarrow> (int \<times> 32 word) option" where
  "calc_op junk oper op1 op2 =
     (if oper = of_char CHR ''+'' then map_option (\<lambda>v. (1, word_of_int v)) (c_int (op1 + op2))
      else if oper = of_char CHR ''-'' then map_option (\<lambda>v. (1, word_of_int v)) (c_int (op1 - op2))
      else if oper = of_char CHR ''*'' then map_option (\<lambda>v. (1, word_of_int v)) (c_int (op1 * op2))
      else if oper = of_char CHR ''/'' then
        (if op2 = 0 then Some (0, junk)
         else map_option (\<lambda>v. (1, word_of_int v)) (c_div op1 op2))
      else Some (0, junk))"

definition calculate :: "32 word \<Rightarrow> 32 word list \<Rightarrow> 32 word list option" where
  "calculate junk data =
     (let op1 = sint (ntohl (data ! 0)); op2 = sint (ntohl (data ! 1));
          oper = ucast (ntohl (data ! 3))
      in case calc_op junk oper op1 op2 of
           None \<Rightarrow> None
         | Some (status, result) \<Rightarrow>
             Some (data[4 := htonl (word_of_int status), 2 := htonl result]))"

section \<open>The server\<close>

definition communicate :: "32 word \<Rightarrow> int \<Rightarrow> ('g, unit) prog" where
  "communicate junk cfd =
     bind_m (bulk_read cfd 20) (\<lambda>(size, buf).
     if size < 0 then err_exit ''read:''
     else bind_m
       (if size = 20 then
          (case calculate junk (words32 buf) of
             None \<Rightarrow> halt_m Undef
           | Some data \<Rightarrow>
               bind_m (bulk_write cfd (image32 data)) (\<lambda>n.
               bind_m get_errno (\<lambda>e.
               if n < 0 \<and> e \<noteq> EPIPE then err_exit ''write:'' else ret ())))
        else ret ()) (\<lambda>_.
     bind_m (retry (sys_close cfd)) (\<lambda>r.
     if r_val r < 0 then err_exit ''close'' else ret ())))"

text \<open>The global of the server is \<open>do_work\<close>; SIGINT clears it.\<close>

definition sigint_handler :: "nat \<Rightarrow> int \<Rightarrow> int \<times> byte list list" where
  "sigint_handler sig do_work = (0, [])"

definition doServer_body :: "32 word \<Rightarrow> int \<Rightarrow> int \<Rightarrow> nat list \<Rightarrow> unit \<Rightarrow> (int, unit + unit) prog" where
  "doServer_body junk fdL fdT oldmask = (\<lambda>_.
     bind_m get_glob (\<lambda>do_work.
     if do_work = 0 then ret (Inr ())
     else
       bind_m (with_mask oldmask (sys SYS_pselect [max fdL fdT + 1] [] fd_ok)) (\<lambda>r.
       if r_val r > 0 then
         bind_m (if fdL \<in> set (r_vals r) then add_new_client fdL else add_new_client fdT) (\<lambda>cfd.
         if cfd \<ge> 0 then bind_m (communicate junk cfd) (\<lambda>_. ret (Inl ()))
         else ret (Inl ()))
       else bind_m get_errno (\<lambda>e.
         if e = EINTR then ret (Inl ()) else err_exit ''pselect''))))"

definition doServer :: "32 word \<Rightarrow> int \<Rightarrow> int \<Rightarrow> (int, unit) prog" where
  "doServer junk fdL fdT =
     bind_m (sigprocmask_block [SIGINT]) (\<lambda>oldmask.
     bind_m (loop_m (doServer_body junk fdL fdT oldmask) ()) (\<lambda>_.
     sigprocmask_unblock [SIGINT]))"

definition usage_server :: "byte list \<Rightarrow> ('g, unit) prog" where
  "usage_server name = eprintf (str ''USAGE: '' @ name @ str '' socket port'' @ [10])"

definition server_main :: "32 word \<Rightarrow> byte list list \<Rightarrow> (int, int) prog" where
  "server_main junk argv =
     (if length argv \<noteq> 3 then bind_m (usage_server (argv ! 0)) (\<lambda>_. ret 1)
      else
        bind_m (sethandler SIG_IGN SIGPIPE) (\<lambda>a. if a \<noteq> 0 then err_exit ''Seting SIGPIPE:'' else
        bind_m (sethandler (Handler sigint_handler) SIGINT) (\<lambda>b.
        if b \<noteq> 0 then err_exit ''Seting SIGINT:'' else
        bind_m (bind_local_socket (argv ! 1) 3) (\<lambda>fdL.
        bind_m (set_nonblock fdL) (\<lambda>_.
        bind_m (bind_tcp_socket (word_of_int (atoi (argv ! 2))) 3) (\<lambda>fdT.
        bind_m (set_nonblock fdT) (\<lambda>_.
        bind_m (doServer junk fdL fdT) (\<lambda>_.
        bind_m (retry (sys_close fdL)) (\<lambda>c. if r_val c < 0 then err_exit ''close'' else
        bind_m (sys SYS_unlink [] (cstr (argv ! 1)) status_ok) (\<lambda>u.
        if r_val u < 0 then err_exit ''unlink'' else
        bind_m (retry (sys_close fdT)) (\<lambda>d. if r_val d < 0 then err_exit ''close'' else
        bind_m (eprintf (str ''Server has terminated.'' @ [10])) (\<lambda>_.
        ret 0))))))))))))"

section \<open>The clients\<close>

text \<open>
  \<open>prepare_request\<close> of the TCP client reads the operands from \<open>argv[3]\<close>, \<open>argv[4]\<close> and
  the operation from \<open>argv[5]\<close>; the local client reads them one place earlier. A plain
  \<open>char\<close> is signed, so the operation is sign extended.
\<close>

definition request_words :: "byte list \<Rightarrow> byte list \<Rightarrow> byte list \<Rightarrow> 32 word list" where
  "request_words a b oper =
     [htonl (word_of_int (atoi a)), htonl (word_of_int (atoi b)), htonl 0,
      htonl (scast (hd (oper @ [0]))), htonl 1]"

definition prepare_request :: "byte list list \<Rightarrow> 32 word list" where
  "prepare_request argv = request_words (argv ! 3) (argv ! 4) (argv ! 5)"

definition prepare_request_local :: "byte list list \<Rightarrow> 32 word list" where
  "prepare_request_local argv = request_words (argv ! 2) (argv ! 3) (argv ! 4)"

definition answer_text :: "32 word list \<Rightarrow> byte list" where
  "answer_text data =
     (if ntohl (data ! 4) \<noteq> 0 then
        fmt_d (sint (ntohl (data ! 0))) @ str '' '' @ [ucast (ntohl (data ! 3))] @ str '' '' @
        fmt_d (sint (ntohl (data ! 1))) @ str '' = '' @ fmt_d (sint (ntohl (data ! 2))) @ [10]
      else str ''Operation impossible'' @ [10])"

definition print_answer :: "32 word list \<Rightarrow> ('g, unit) prog" where
  "print_answer data = printf (answer_text data)"

text \<open>What both clients do once connected: send the request, read the answer, print it.\<close>

definition client_exchange :: "int \<Rightarrow> 32 word list \<Rightarrow> ('g, int) prog" where
  "client_exchange fd data =
     bind_m (bulk_write fd (image32 data)) (\<lambda>n. if n < 0 then err_exit ''write:'' else
     bind_m (bulk_read fd 20) (\<lambda>(m, buf). if m < 20 then err_exit ''read:'' else
     bind_m (print_answer (words32 buf)) (\<lambda>_.
     bind_m (retry (sys_close fd)) (\<lambda>r. if r_val r < 0 then err_exit ''close'' else ret 0))))"

definition usage_client_tcp :: "byte list \<Rightarrow> ('g, unit) prog" where
  "usage_client_tcp name =
     eprintf (str ''USAGE: '' @ name @ str '' domain port  operand1 operand2 operation '' @ [10])"

definition client_tcp_main :: "byte list list \<Rightarrow> (unit, int) prog" where
  "client_tcp_main argv =
     (if length argv \<noteq> 6 then bind_m (usage_client_tcp (argv ! 0)) (\<lambda>_. ret 1)
      else
        bind_m (sethandler SIG_IGN SIGPIPE) (\<lambda>a. if a \<noteq> 0 then err_exit ''Seting SIGPIPE:'' else
        bind_m (connect_socket (argv ! 1) (argv ! 2)) (\<lambda>fd.
        client_exchange fd (prepare_request argv))))"

text \<open>The local client connects to a path.\<close>

definition connect_local :: "byte list \<Rightarrow> ('g, int) prog" where
  "connect_local name =
     bind_m (make_socket PF_UNIX SOCK_STREAM) (\<lambda>socketfd.
     bind_m (sys SYS_connect [socketfd] (sockaddr_un name) status_ok) (\<lambda>c.
     if r_val c < 0 then
       bind_m get_errno (\<lambda>e.
       if e \<noteq> EINTR then err_exit ''connect''
       else
         bind_m (retry (sys SYS_select [socketfd] [] fd_ok)) (\<lambda>s.
         if r_val s < 0 then err_exit ''select''
         else bind_m (sys SYS_getsockopt [socketfd, SOL_SOCKET, SO_ERROR] [] status_ok) (\<lambda>g.
         if r_val g < 0 then err_exit ''getsockopt''
         else if r_vals g \<noteq> [0] then err_exit ''connect''
         else ret socketfd)))
     else ret socketfd))"

definition usage_client_local :: "byte list \<Rightarrow> ('g, unit) prog" where
  "usage_client_local name =
     eprintf (str ''USAGE: '' @ name @ str '' socket operand1 operand2 operation '' @ [10])"

definition client_local_main :: "byte list list \<Rightarrow> (unit, int) prog" where
  "client_local_main argv =
     (if length argv \<noteq> 5 then bind_m (usage_client_local (argv ! 0)) (\<lambda>_. ret 1)
      else
        bind_m (sethandler SIG_IGN SIGPIPE) (\<lambda>a. if a \<noteq> 0 then err_exit ''Seting SIGPIPE:'' else
        bind_m (connect_local (argv ! 1)) (\<lambda>fd.
        client_exchange fd (prepare_request_local argv))))"


section \<open>What a request means\<close>

text \<open>
  The meaning of a request, independent of its encoding: undefined behaviour, an operation
  the service refuses, or a number. Division truncates towards zero.
\<close>

datatype meaning = Undefined_op | Impossible | Value int

definition calc_meaning :: "byte \<Rightarrow> int \<Rightarrow> int \<Rightarrow> meaning" where
  "calc_meaning oper a b =
     (let value = (\<lambda>v. if in_int v then Value v else Undefined_op) in
      if oper = 43 then value (a + b)
      else if oper = 45 then value (a - b)
      else if oper = 42 then value (a * b)
      else if oper = 47 then (if b = 0 then Impossible else value (a sdiv b))
      else Impossible)"

definition meaning_text :: "byte \<Rightarrow> int \<Rightarrow> int \<Rightarrow> meaning \<Rightarrow> byte list option" where
  "meaning_text oper a b m = (case m of
     Undefined_op \<Rightarrow> None
   | Impossible \<Rightarrow> Some (str ''Operation impossible'' @ [10])
   | Value v \<Rightarrow> Some (fmt_d a @ str '' '' @ [oper] @ str '' '' @ fmt_d b @ str '' = '' @ fmt_d v @ [10]))"

lemma sint_word_of_int32: "sint (word_of_int x :: 32 word) = to_int32 x"
  by (simp add: sint_sbintrunc' to_int32_def)

lemma in_int_sint32 [simp]: "in_int (sint (w :: 32 word))"
  using sint_range_size [of w] by (simp add: in_int_iff word_size)

text \<open>The four operators as bytes.\<close>

lemma operator_bytes:
  "(of_char CHR ''+'' :: byte) = 43" "(of_char CHR ''-'' :: byte) = 45"
  "(of_char CHR ''*'' :: byte) = 42" "(of_char CHR ''/'' :: byte) = 47"
  by code_simp+

lemma calculate_text:
  "map_option answer_text (calculate junk [htonl x, htonl y, u, htonl op, v]) =
   meaning_text (ucast op) (sint x) (sint y) (calc_meaning (ucast op) (sint x) (sint y))"
  by (simp add: calculate_def calc_op_def operator_bytes calc_meaning_def meaning_text_def
      answer_text_def c_int_def c_div_def sint_word_of_int32 Let_def
      del: of_int_add of_int_diff of_int_mult)

lemma calculate_length: "calculate junk data = Some ans \<Longrightarrow> length ans = length data"
  by (auto simp: calculate_def Let_def split: option.splits)

lemma ucast_scast_byte [simp]: "ucast (scast (b :: byte) :: 32 word) = b"
  by (rule bit_word_eqI) (auto simp: bit_simps)

lemma request_words_text:
  assumes "oper \<noteq> []"
  shows "map_option answer_text (calculate junk (request_words a b oper)) =
    meaning_text (hd oper) (atoi a) (atoi b) (calc_meaning (hd oper) (atoi a) (atoi b))"
  using assms calculate_text [of junk "word_of_int (atoi a)" "word_of_int (atoi b)" "htonl 0"
      "scast (hd oper)" "htonl 1"]
  by (simp add: request_words_def sint_word_of_int32)

text \<open>
  Property C8. For every pair of operands, every operation character and whatever the
  uninitialised \<open>result\<close> holds, the answer the server computes is printed by the client as
  \<open>a op b = r\<close> with the exact integer result when that result is an \<open>int\<close>, as
  \<open>Operation impossible\<close> for an unknown operation and for a division by zero; the
  computation is undefined exactly when the operation is known and its result is no
  \<open>int\<close>.
\<close>

theorem calculate_correct:
  "map_option answer_text (calculate junk [htonl x, htonl y, u, htonl oper, v]) =
   (let a = sint x; b = sint y; c = ucast oper :: byte;
        line = (\<lambda>r. if in_int r
          then Some (fmt_d a @ str '' '' @ [c] @ str '' '' @ fmt_d b @ str '' = '' @ fmt_d r @ [10])
          else None) in
    if c = of_char CHR ''+'' then line (a + b)
    else if c = of_char CHR ''-'' then line (a - b)
    else if c = of_char CHR ''*'' then line (a * b)
    else if c = of_char CHR ''/'' \<and> b \<noteq> 0 then line (a sdiv b)
    else Some (str ''Operation impossible'' @ [10]))"
  unfolding calculate_text
  by (simp add: operator_bytes calc_meaning_def meaning_text_def Let_def)


section \<open>A whole session\<close>

lemma communicate_answers:
  assumes "feeds 20 sr (image32 data)" "length data = 5" "calculate junk data = Some ans"
    and "drains 20 sw" "r_sigs c = []" "r_val c = 0" "script w = sr @ sw @ c # rest"
  shows "\<exists>w1. communicate junk cfd w = (Ret (), w1) \<and> script w1 = rest \<and> glob w1 = glob w \<and>
    sent cfd (trace w1) = sent cfd (trace w) @ image32 ans"
proof -
  obtain w1 where w1: "bulk_read cfd 20 w = (Ret (20, image32 data), w1)" "script w1 = sw @ c # rest"
    "trace w1 = trace w @ io_events SYS_read cfd sr" "glob w1 = glob w"
    using bulk_read_returns [OF assms(1), of w "sw @ c # rest" cfd] assms(7) by auto
  have len: "length (image32 ans) = 20" using calculate_length [OF assms(3)] assms(2) by simp
  then obtain w2 where w2: "bulk_write cfd (image32 ans) w1 = (Ret 20, w2)" "script w2 = c # rest"
    "sent cfd (trace w2) = sent cfd (trace w1) @ image32 ans" "glob w2 = glob w1"
    using bulk_write_returns [of "image32 ans" sw w1 "c # rest" cfd] assms(2,4) w1(2)
      calculate_length [OF assms(3)] by force
  have close: "retry (sys_close cfd) w2 = (Ret c, adv SYS_close [cfd] [] c w2)"
    unfolding sys_close_def by (rule retry_returns [OF w2(2)]) (simp_all add: status_ok_def assms)
  have "sent cfd (io_events SYS_read cfd sr) = []"
    by (induction sr) (simp_all add: io_events_def)
  then show ?thesis
    using w1 w2 close assms(3,6)
    by (simp add: communicate_def bind_m_def get_errno_def ret_def)
qed

lemma client_exchange_prints:
  assumes "drains 20 cw" "length req = 5" "feeds 20 cr (image32 ans)"
    and "r_sigs c = []" "r_val c = 0" "script w = cw @ cr @ c # rest"
  shows "\<exists>w1. client_exchange fd req w = (Ret 0, w1) \<and> script w1 = rest \<and>
    sent fd (trace w1) = sent fd (trace w) @ image32 req \<and>
    got fd (trace w1) = got fd (trace w) @ image32 ans \<and>
    printed (trace w1) = printed (trace w) @ answer_text ans"
proof -
  obtain w1 where w1: "bulk_write fd (image32 req) w = (Ret 20, w1)" "script w1 = cr @ c # rest"
    "sent fd (trace w1) = sent fd (trace w) @ image32 req"
    "extends (io_event SYS_write fd) (trace w) (trace w1)" "printed (trace w1) = printed (trace w)"
    using bulk_write_returns [of "image32 req" cw w "cr @ c # rest" fd] assms by force
  obtain w2 where w2: "bulk_read fd 20 w1 = (Ret (20, image32 ans), w2)" "script w2 = c # rest"
    "trace w2 = trace w1 @ io_events SYS_read fd cr"
    using bulk_read_returns [OF assms(3), of w1 "c # rest" fd] w1(2) by auto
  let ?w3 = "w2\<lparr>trace := trace w2 @ [Out (answer_text ans)]\<rparr>"
  have close: "retry (sys_close fd) ?w3 = (Ret c, adv SYS_close [fd] [] c ?w3)"
    unfolding sys_close_def by (rule retry_returns) (simp_all add: w2 status_ok_def assms)
  have "sent fd (io_events SYS_read fd cr) = []" "printed (io_events SYS_read fd cr) = []"
    by (induction cr) (simp_all add: io_events_def)
  moreover have "got fd (io_events SYS_read fd rs) = bs" if "feeds n rs bs" for n rs bs
    using that by (induction n rs bs rule: feeds.induct)
      (auto simp: io_events_def interrupted_def split: if_splits,
        metis append_take_drop_id)
  ultimately show ?thesis
    using w1 w2 close assms(3,5) extends_frame(2) [OF w1(4), of fd]
    by (simp add: client_exchange_def bind_m_def ret_def print_answer_def printf_def)
qed


text \<open>
  Property C7. A whole session: the request bytes travel to the server and the answer bytes
  back, each cut into pieces in any way and with any interrupted calls between (\<open>sr\<close>,
  \<open>cr\<close> deliver, \<open>cw\<close>, \<open>sw\<close> accept). Then the server answers and
  closes, the client returns 0, each side has received what the other sent, and the client
  has printed the text that the meaning of the request prescribes.
\<close>

theorem calculator_session:
  assumes "argv ! 5 \<noteq> []"
    and "meaning_text (hd (argv ! 5)) (atoi (argv ! 3)) (atoi (argv ! 4))
      (calc_meaning (hd (argv ! 5)) (atoi (argv ! 3)) (atoi (argv ! 4))) = Some line"
    and "calculate junk (prepare_request argv) = Some ans"
    and "script c = cw @ cr @ cc # crest" "drains 20 cw" "r_sigs cc = []" "r_val cc = 0"
    and "script s = sr @ sw @ sc # srest" "drains 20 sw" "r_sigs sc = []" "r_val sc = 0"
    and "sent fd (trace c) = []" "sent cfd (trace s) = []"
    and "feeds 20 sr (sent fd (trace (snd (client_exchange fd (prepare_request argv) c))))"
    and "feeds 20 cr (image32 ans)"
  shows "fst (client_exchange fd (prepare_request argv) c) = Ret 0 \<and>
    fst (communicate junk cfd s) = Ret () \<and>
    sent cfd (trace (snd (communicate junk cfd s))) = image32 ans \<and>
    printed (trace (snd (client_exchange fd (prepare_request argv) c))) = printed (trace c) @ line"
proof -
  have len: "length (prepare_request argv) = 5" by (simp add: prepare_request_def request_words_def)
  have line: "answer_text ans = line"
    using assms(2,3) request_words_text [OF assms(1), of junk "argv ! 3" "argv ! 4"]
    by (simp add: prepare_request_def)
  obtain w1 where client: "client_exchange fd (prepare_request argv) c = (Ret 0, w1)"
    "sent fd (trace w1) = image32 (prepare_request argv)"
    "printed (trace w1) = printed (trace c) @ line"
    using client_exchange_prints [OF assms(5) len assms(15,6,7,4), of fd] assms(12) line by auto
  obtain w2 where server: "communicate junk cfd s = (Ret (), w2)" "sent cfd (trace w2) = image32 ans"
    using communicate_answers [OF _ len assms(3,9,10,11,8), of cfd] assms(13,14) client by auto
  show ?thesis using client server by simp
qed

text \<open>The instance: \<open>client host port 6 -7 *\<close>, with interrupted and short calls.\<close>

definition argv6 :: "byte list list" where
  "argv6 = [str ''client'', str ''host'', str ''port'', str ''6'', str ''-7'', str ''*'']"

definition req6 :: "byte list" where
  "req6 = [0,0,0,6, 255,255,255,249, 0,0,0,0, 0,0,0,42, 0,0,0,1]"

definition ans6 :: "byte list" where
  "ans6 = [0,0,0,6, 255,255,255,249, 255,255,255,214, 0,0,0,42, 0,0,0,1]"

definition client6 :: "unit world" where
  "client6 = idle ([failed_reply EINTR, ok_reply 5, ok_reply 15] @
     [data_reply (take 3 ans6), failed_reply EINTR, data_reply (drop 3 ans6)] @ [ok_reply 0]) ()"

definition server6 :: "int world" where
  "server6 = idle ([data_reply (take 19 req6), data_reply (drop 19 req6)] @
     [ok_reply 12, failed_reply EINTR, ok_reply 8] @ [ok_reply 0]) 1"

lemma session6_facts:
  "calculate 5 (prepare_request argv6) = Some (words32 ans6)"
  "meaning_text (hd (argv6 ! 5)) (atoi (argv6 ! 3)) (atoi (argv6 ! 4))
     (calc_meaning (hd (argv6 ! 5)) (atoi (argv6 ! 3)) (atoi (argv6 ! 4))) =
   Some (str ''6 * -7 = -42'' @ [10])"
  "feeds 20 [data_reply (take 19 req6), data_reply (drop 19 req6)]
     (sent 3 (trace (snd (client_exchange 3 (prepare_request argv6) client6))))"
  "feeds 20 [data_reply (take 3 ans6), failed_reply EINTR, data_reply (drop 3 ans6)]
     (image32 (words32 ans6))"
  "drains 20 [failed_reply EINTR, ok_reply 5, ok_reply 15]"
  "drains 20 [ok_reply 12, failed_reply EINTR, ok_reply 8]"
  by code_simp+

theorem calculator_session_witness:
  "printed (trace (snd (client_exchange 3 (prepare_request argv6) client6))) = str ''6 * -7 = -42'' @ [10] \<and>
   sent 4 (trace (snd (communicate 5 4 server6))) = ans6"
proof -
  have "argv6 ! 5 \<noteq> []" by code_simp
  moreover have "script client6 = [failed_reply EINTR, ok_reply 5, ok_reply 15] @
     [data_reply (take 3 ans6), failed_reply EINTR, data_reply (drop 3 ans6)] @ ok_reply 0 # []"
    "trace client6 = []" "trace server6 = []"
    "script server6 = [data_reply (take 19 req6), data_reply (drop 19 req6)] @
     [ok_reply 12, failed_reply EINTR, ok_reply 8] @ ok_reply 0 # []"
    by (simp_all add: client6_def server6_def idle_def)
  moreover have "image32 (words32 ans6) = ans6" by code_simp
  ultimately show ?thesis
    using calculator_session [of argv6 _ 5 "words32 ans6" client6 _ _ "ok_reply 0" "[]" server6 _ _
        "ok_reply 0" "[]" 3 4, OF _ session6_facts(2,1) _ session6_facts(5) _ _ _ session6_facts(6)
        _ _ _ _ session6_facts(3,4)]
    by (simp add: ok_reply_def)
qed

section \<open>Every accepted connection is closed\<close>



text \<open>What the loop of the server keeps: \<open>open\<close> connections are accepted and not closed.\<close>

definition open_conns :: "nat \<Rightarrow> 'g world \<Rightarrow> 'h world \<Rightarrow> bool" where
  "open_conns k w w1 \<longleftrightarrow>
     successes SYS_accept (trace w1) + successes SYS_close (trace w) =
     successes SYS_close (trace w1) + successes SYS_accept (trace w) + k"

lemma open_conns_refl: "open_conns 0 w w"
  by (simp add: open_conns_def)

lemma open_conns_same:
  "(\<And>m. successes m (trace w1) = successes m (trace v)) \<Longrightarrow> open_conns k w w1 = open_conns k w v"
  by (simp add: open_conns_def)

lemma open_conns_world [simp]:
  "open_conns k w (w1\<lparr>sigmask := m\<rparr>) = open_conns k w w1"
  "open_conns k w (w1\<lparr>script := x\<rparr>) = open_conns k w w1"
  "open_conns k w (w1\<lparr>trace := tr @ [Perror s e]\<rparr>) = open_conns k w (w1\<lparr>trace := tr\<rparr>)"
  by (simp_all add: open_conns_def)





end
