(* ===== verification/ConnTable.thy ===== *)
theory ConnTable
  imports Prelude
begin

text \<open>
  The interface of a connection table: a fixed number of slots, each free or held by a peer.
  Two servers of the repository have one (\<open>findIndex\<close> of \<open>L2_3/file_server.c\<close>,
  \<open>find_index\<close> of \<open>L2_3_Graded/server.c\<close>), with different slots and different
  notions of the peer a query names; both are instances of this contract, and what their callers need
  is proved from the contract once.
\<close>

locale conn_table =
  fixes slots :: nat
    and table_ok :: "'t \<Rightarrow> bool"
    and holder :: "'t \<Rightarrow> nat \<Rightarrow> 'a option"
    and peer :: "'q \<Rightarrow> 'a"
    and find_slot :: "'q \<Rightarrow> 't \<Rightarrow> int \<times> 't"
  assumes holder_bound: "table_ok t \<Longrightarrow> holder t i = Some a \<Longrightarrow> i < slots"
    and holder_unique: "table_ok t \<Longrightarrow> holder t i = Some a \<Longrightarrow> holder t j = Some a \<Longrightarrow> i = j"
    and find_hit: "table_ok t \<Longrightarrow> holder t i = Some (peer q) \<Longrightarrow> find_slot q t = (int i, t)"
    and find_miss: "table_ok t \<Longrightarrow> (\<And>i. holder t i \<noteq> Some (peer q)) \<Longrightarrow> i < slots \<Longrightarrow> holder t i = None \<Longrightarrow>
      \<exists>j t1. find_slot q t = (int j, t1) \<and> j < slots \<and> holder t j = None \<and> table_ok t1 \<and>
        holder t1 = (holder t)(j := Some (peer q))"
    and find_full: "table_ok t \<Longrightarrow> (\<And>i. holder t i \<noteq> Some (peer q)) \<Longrightarrow> (\<And>i. i < slots \<Longrightarrow> holder t i \<noteq> None) \<Longrightarrow>
      find_slot q t = (-1, t)"
begin

lemma find_cases:
  assumes "table_ok t"
  obtains (hit) i where "holder t i = Some (peer q)" "find_slot q t = (int i, t)"
  | (fresh) j t1 where "\<And>i. holder t i \<noteq> Some (peer q)" "find_slot q t = (int j, t1)" "j < slots"
      "holder t j = None" "table_ok t1" "holder t1 = (holder t)(j := Some (peer q))"
  | (full) "\<And>i. holder t i \<noteq> Some (peer q)" "\<And>i. i < slots \<Longrightarrow> holder t i \<noteq> None" "find_slot q t = (-1, t)"
proof (cases "\<exists>i. holder t i = Some (peer q)")
  case True
  then show ?thesis using find_hit [OF assms] hit by blast
next
  case False
  then have no: "\<And>i. holder t i \<noteq> Some (peer q)" by auto
  show ?thesis
  proof (cases "\<exists>i < slots. holder t i = None")
    case True
    then obtain i where "i < slots" "holder t i = None" by blast
    from find_miss [OF assms no this] no fresh show ?thesis by blast
  next
    case False
    then have "\<And>i. i < slots \<Longrightarrow> holder t i \<noteq> None" by auto
    then show ?thesis using find_full [OF assms no] full no by blast
  qed
qed

lemma find_ok: "table_ok t \<Longrightarrow> table_ok (snd (find_slot q t))"
  by (rule find_cases [of t q]) auto

lemma find_range:
  assumes "table_ok t"
  shows "fst (find_slot q t) = -1 \<or> (0 \<le> fst (find_slot q t) \<and> fst (find_slot q t) < int slots)"
  by (rule find_cases [OF assms, of q]) (use holder_bound [OF assms] in auto)

lemma find_holds:
  assumes "table_ok t" "0 \<le> fst (find_slot q t)"
  shows "holder (snd (find_slot q t)) (nat (fst (find_slot q t))) = Some (peer q)"
  by (rule find_cases [OF assms(1), of q]) (use assms(2) in auto)

lemma find_others:
  assumes "table_ok t" "b \<noteq> peer q"
  shows "holder (snd (find_slot q t)) i = Some b \<longleftrightarrow> holder t i = Some b"
  by (rule find_cases [OF assms(1), of q]) (use assms(2) in auto)

lemma find_fails_iff:
  assumes "table_ok t"
  shows "fst (find_slot q t) = -1 \<longleftrightarrow>
    (\<forall>i < slots. holder t i \<noteq> None) \<and> (\<forall>i. holder t i \<noteq> Some (peer q))"
proof (rule find_cases [OF assms, of q])
  fix j t1
  assume "find_slot q t = (int j, t1)" "j < slots" "holder t j = None"
  then show ?thesis by auto
qed auto

lemma find_again:
  assumes "table_ok t" "find_slot q t = (i, t1)" "0 \<le> i"
  shows "find_slot q t1 = (i, t1)"
  using find_hit [of t1 "nat i" q] find_ok [OF assms(1), of q] find_holds [OF assms(1), of q] assms(2,3)
  by simp

lemma find_separates:
  assumes "table_ok t" "find_slot q t = (i, t1)" "find_slot r t1 = (j, t2)" "0 \<le> i" "0 \<le> j" "peer q \<noteq> peer r"
  shows "i \<noteq> j \<and> find_slot q t2 = (i, t2)"
proof -
  have ok: "table_ok t1" "table_ok t2"
    using find_ok [OF assms(1), of q] find_ok [of t1 r] assms(2,3) by auto
  have ha: "holder t1 (nat i) = Some (peer q)" using find_holds [OF assms(1), of q] assms(2,4) by simp
  then have ha2: "holder t2 (nat i) = Some (peer q)"
    using find_others [OF ok(1) assms(6), of "nat i"] assms(3) by simp
  have hb: "holder t2 (nat j) = Some (peer r)" using find_holds [OF ok(1), of r] assms(3,5) by simp
  have "nat i \<noteq> nat j" using ha2 hb assms(6) by auto
  then show ?thesis using find_hit [OF ok(2) ha2] assms(4,5) by auto
qed

end

section \<open>Tables that are arrays of slots\<close>

text \<open>
  Both servers scan an array from its start: the last free slot passed is remembered, and
  the scan stops at the slot of the peer. It returns the variables \<open>(empty, pos)\<close>.
\<close>

fun slot_scan :: "('c \<Rightarrow> bool) \<Rightarrow> ('c \<Rightarrow> bool) \<Rightarrow> 'c list \<Rightarrow> int \<Rightarrow> int \<Rightarrow> int \<times> int" where
  "slot_scan fr own [] i emp = (emp, -1)"
| "slot_scan fr own (c # con) i emp =
     (if fr c then slot_scan fr own con (i + 1) i
      else if own c then (emp, i)
      else slot_scan fr own con (i + 1) emp)"

definition slot_holder :: "('c \<Rightarrow> bool) \<Rightarrow> ('c \<Rightarrow> 'a) \<Rightarrow> 'c list \<Rightarrow> nat \<Rightarrow> 'a option" where
  "slot_holder fr key con i = (if i < length con \<and> \<not> fr (con ! i) then Some (key (con ! i)) else None)"

definition slots_ok :: "nat \<Rightarrow> ('c \<Rightarrow> bool) \<Rightarrow> ('c \<Rightarrow> 'a) \<Rightarrow> 'c list \<Rightarrow> bool" where
  "slots_ok n fr key con \<longleftrightarrow> length con = n \<and>
     (\<forall>i < n. \<forall>j < n. i \<noteq> j \<longrightarrow> \<not> fr (con ! i) \<longrightarrow> \<not> fr (con ! j) \<longrightarrow> key (con ! i) \<noteq> key (con ! j))"

lemma scan_hit:
  "j < length con \<Longrightarrow> \<not> fr (con ! j) \<Longrightarrow> own (con ! j) \<Longrightarrow>
   (\<And>m. m < j \<Longrightarrow> \<not> fr (con ! m) \<Longrightarrow> \<not> own (con ! m)) \<Longrightarrow>
   snd (slot_scan fr own con i emp) = i + int j"
proof (induction con arbitrary: i emp j)
  case Nil
  then show ?case by simp
next
  case (Cons c con)
  show ?case
  proof (cases j)
    case 0
    then show ?thesis using Cons.prems by simp
  next
    case (Suc m)
    have c: "\<not> (\<not> fr c \<and> own c)" using Cons.prems(4) [of 0] Suc by auto
    have rest: "l < m \<Longrightarrow> \<not> fr (con ! l) \<Longrightarrow> \<not> own (con ! l)" for l
      using Cons.prems(4) [of "Suc l"] Suc by simp
    have "snd (slot_scan fr own con (i + 1) e) = i + 1 + int m" for e
      by (rule Cons.IH) (use Cons.prems Suc rest in auto)
    then show ?thesis using c Suc by auto
  qed
qed

lemma scan_miss:
  "(\<And>j. j < length con \<Longrightarrow> \<not> fr (con ! j) \<Longrightarrow> \<not> own (con ! j)) \<Longrightarrow>
   snd (slot_scan fr own con i emp) = -1 \<and>
   (fst (slot_scan fr own con i emp) = emp \<and> (\<forall>j < length con. \<not> fr (con ! j)) \<or>
    (\<exists>j < length con. fst (slot_scan fr own con i emp) = i + int j \<and> fr (con ! j)))"
proof (induction con arbitrary: i emp)
  case Nil
  then show ?case by simp
next
  case (Cons c con)
  have rest: "j < length con \<Longrightarrow> \<not> fr (con ! j) \<Longrightarrow> \<not> own (con ! j)" for j
    using Cons.prems [of "Suc j"] by simp
  have c: "\<not> fr c \<Longrightarrow> \<not> own c" using Cons.prems [of 0] by simp
  define e where "e = (if fr c then i else emp)"
  have step: "slot_scan fr own (c # con) i emp = slot_scan fr own con (i + 1) e"
    using c by (auto simp: e_def)
  from Cons.IH [OF rest, of "i + 1" e]
  consider "fst (slot_scan fr own con (i + 1) e) = e" "\<forall>j < length con. \<not> fr (con ! j)"
    | j where "j < length con" "fst (slot_scan fr own con (i + 1) e) = i + 1 + int j" "fr (con ! j)"
    by blast
  then show ?case
  proof cases
    case 1
    then show ?thesis using Cons.IH [OF rest, of "i + 1" e] unfolding step
      by (auto simp: e_def less_Suc_eq_0_disj)
  next
    case 2
    then show ?thesis using Cons.IH [OF rest, of "i + 1" e] unfolding step
      by (intro conjI disjI2 exI [of _ "Suc j"]) auto
  qed
qed

text \<open>Taking a slot for a peer.\<close>

lemma slot_holder_update:
  "j < length con \<Longrightarrow>
   slot_holder fr key (con[j := c]) = (slot_holder fr key con)(j := (if fr c then None else Some (key c)))"
  by (auto simp: slot_holder_def fun_eq_iff)

lemma slots_ok_claim:
  "slots_ok n fr key con \<Longrightarrow> (\<And>i. slot_holder fr key con i \<noteq> Some (key c)) \<Longrightarrow>
   slots_ok n fr key (con[j := c])"
  unfolding slots_ok_def slot_holder_def
  by (cases "j < length con") (auto simp: nth_list_update, metis+)

locale slot_table =
  fixes slots :: nat
    and fr :: "'c \<Rightarrow> bool"
    and key :: "'c \<Rightarrow> 'a"
    and peer :: "'q \<Rightarrow> 'a"
    and claim :: "'q \<Rightarrow> 'c \<Rightarrow> 'c"
    and find_slot :: "'q \<Rightarrow> 'c list \<Rightarrow> int \<times> 'c list"
  assumes claim_key: "key (claim q c) = peer q"
    and claim_taken: "\<not> fr (claim q c)"
    and find_scan: "find_slot q con = (case slot_scan fr (\<lambda>c. key c = peer q) con 0 (-1) of (emp, pos) \<Rightarrow>
      if pos = -1 \<and> emp \<noteq> -1 then (emp, con[nat emp := claim q (con ! nat emp)]) else (pos, con))"
begin

lemma scan_finds:
  assumes "slots_ok slots fr key con" "slot_holder fr key con i = Some (peer q)"
  shows "find_slot q con = (int i, con)"
proof -
  have i: "i < length con" "\<not> fr (con ! i)" "key (con ! i) = peer q"
    using assms(2) by (auto simp: slot_holder_def split: if_splits)
  have "snd (slot_scan fr (\<lambda>c. key c = peer q) con 0 (-1)) = 0 + int i"
  proof (rule scan_hit)
    fix m assume m: "m < i" "\<not> fr (con ! m)"
    then have "key (con ! m) \<noteq> key (con ! i)" using assms(1) i(1,2) unfolding slots_ok_def by auto
    then show "key (con ! m) \<noteq> peer q" using i(3) by simp
  qed (use i in simp_all)
  then show ?thesis by (cases "slot_scan fr (\<lambda>c. key c = peer q) con 0 (-1)") (simp add: find_scan)
qed

lemma scan_claims:
  assumes "slots_ok slots fr key con" "\<And>i. slot_holder fr key con i \<noteq> Some (peer q)"
  shows "(\<exists>j < slots. slot_holder fr key con j = None \<and> find_slot q con = (int j, con[j := claim q (con ! j)])) \<or>
    (\<forall>j < slots. slot_holder fr key con j \<noteq> None) \<and> find_slot q con = (-1, con)"
proof -
  have no: "\<And>j. j < length con \<Longrightarrow> \<not> fr (con ! j) \<Longrightarrow> key (con ! j) \<noteq> peer q"
    by (metis assms(2) slot_holder_def)
  have len: "length con = slots" using assms(1) by (simp add: slots_ok_def)
  from scan_miss [of con fr "\<lambda>c. key c = peer q" 0 "-1", OF no]
  consider "slot_scan fr (\<lambda>c. key c = peer q) con 0 (-1) = (-1, -1)" "\<forall>j < length con. \<not> fr (con ! j)"
    | j where "j < length con" "slot_scan fr (\<lambda>c. key c = peer q) con 0 (-1) = (int j, -1)" "fr (con ! j)"
    by (cases "slot_scan fr (\<lambda>c. key c = peer q) con 0 (-1)") auto
  then show ?thesis
    by cases (auto simp: find_scan slot_holder_def len)
qed

end

text \<open>Such an array meets the contract of a connection table.\<close>

sublocale slot_table \<subseteq> conn_table slots "slots_ok slots fr key" "slot_holder fr key" peer find_slot
proof (unfold_locales)
  fix t i a assume "slots_ok slots fr key t" "slot_holder fr key t i = Some a"
  then show "i < slots" by (auto simp: slot_holder_def slots_ok_def split: if_splits)
next
  fix t i a j assume "slots_ok slots fr key t" "slot_holder fr key t i = Some a" "slot_holder fr key t j = Some a"
  then show "i = j" by (auto simp: slot_holder_def slots_ok_def split: if_splits)
next
  fix t i q assume "slots_ok slots fr key t" "slot_holder fr key t i = Some (peer q)"
  then show "find_slot q t = (int i, t)" by (rule scan_finds)
next
  fix t q i
  assume t: "slots_ok slots fr key t" "\<And>i. slot_holder fr key t i \<noteq> Some (peer q)"
    and i: "i < slots" "slot_holder fr key t i = None"
  then obtain j where j: "j < slots" "slot_holder fr key t j = None" "find_slot q t = (int j, t[j := claim q (t ! j)])"
    using scan_claims [OF t] by blast
  have "length t = slots" using t(1) by (simp add: slots_ok_def)
  then show "\<exists>j t1. find_slot q t = (int j, t1) \<and> j < slots \<and> slot_holder fr key t j = None \<and>
      slots_ok slots fr key t1 \<and> slot_holder fr key t1 = (slot_holder fr key t)(j := Some (peer q))"
    using j t slots_ok_claim [OF t(1), of "claim q (t ! j)" j]
    by (intro exI [of _ j] exI [of _ "t[j := claim q (t ! j)]"])
      (simp add: slot_holder_update claim_key claim_taken)
next
  fix t q
  assume t: "slots_ok slots fr key t" "\<And>i. slot_holder fr key t i \<noteq> Some (peer q)"
    and "\<And>i. i < slots \<Longrightarrow> slot_holder fr key t i \<noteq> None"
  then show "find_slot q t = (-1, t)" using scan_claims [OF t] by blast
qed

end
