(* ===== verification/FileServer.thy ===== *)
theory FileServer
  imports ConnTable Sockets
begin

text \<open>
  The UDP file server of \<open>L2_3/file_server.c\<close>: datagrams of 576 bytes that carry a chunk
  number, a last-chunk flag and a payload; a table of five connections, each with the number
  of the chunk accepted last; the reply is the datagram itself.
\<close>

section \<open>The connection table\<close>

text \<open>A peer is the sixteen bytes of its \<open>sockaddr_in\<close>, as the call stored them.\<close>

type_synonym addr = "int list"

record connections =
  free_flag :: int
  chunkNo :: int
  con_addr :: addr

definition MAXADDR :: nat where "MAXADDR = 5"
definition MAXBUF :: nat where "MAXBUF = 576"

text \<open>The loop of \<open>findIndex\<close>: it returns the variables \<open>(empty, pos)\<close>.\<close>

fun findIndex_scan :: "addr \<Rightarrow> connections list \<Rightarrow> int \<Rightarrow> int \<Rightarrow> int \<times> int" where
  "findIndex_scan addr [] i emp = (emp, -1)"
| "findIndex_scan addr (c # con) i emp =
     (if free_flag c \<noteq> 0 then findIndex_scan addr con (i + 1) i
      else if addr = con_addr c then (emp, i)
      else findIndex_scan addr con (i + 1) emp)"

definition findIndex :: "addr \<Rightarrow> connections list \<Rightarrow> int \<times> connections list" where
  "findIndex addr con =
     (case findIndex_scan addr con 0 (-1) of (emp, pos) \<Rightarrow>
        if pos = -1 \<and> emp \<noteq> -1
        then (emp, con[nat emp := (con ! nat emp)\<lparr>free_flag := 0, chunkNo := 0, con_addr := addr\<rparr>])
        else (pos, con))"

text \<open>Who holds a slot; a table is well formed when no two live slots have the same holder.\<close>

definition con_holder :: "connections list \<Rightarrow> nat \<Rightarrow> addr option" where
  "con_holder con i =
     (if i < length con \<and> free_flag (con ! i) = 0 then Some (con_addr (con ! i)) else None)"

definition con_ok :: "connections list \<Rightarrow> bool" where
  "con_ok con \<longleftrightarrow> length con = MAXADDR \<and>
     (\<forall>i < MAXADDR. \<forall>j < MAXADDR. i \<noteq> j \<longrightarrow>
        free_flag (con ! i) = 0 \<longrightarrow> free_flag (con ! j) = 0 \<longrightarrow> con_addr (con ! i) \<noteq> con_addr (con ! j))"

text \<open>The scan is that of \<open>slot_table\<close>, which gives the contract of a connection table.\<close>

definition claim_con :: "addr \<Rightarrow> connections \<Rightarrow> connections" where
  "claim_con a c = c\<lparr>free_flag := 0, chunkNo := 0, con_addr := a\<rparr>"

lemma findIndex_scan_eq:
  "findIndex_scan a con i emp = slot_scan (\<lambda>c. free_flag c \<noteq> 0) (\<lambda>c. con_addr c = a) con i emp"
  by (induction con arbitrary: i emp) auto

interpretation file_slots: slot_table MAXADDR "\<lambda>c. free_flag c \<noteq> 0" con_addr "\<lambda>a. a" claim_con findIndex
  by unfold_locales (simp_all add: claim_con_def findIndex_def findIndex_scan_eq split: prod.split)

lemma con_ok_slots: "con_ok = slots_ok MAXADDR (\<lambda>c. free_flag c \<noteq> 0) con_addr"
  by (simp add: con_ok_def slots_ok_def fun_eq_iff)

lemma con_holder_slots: "con_holder = slot_holder (\<lambda>c. free_flag c \<noteq> 0) con_addr"
  by (simp add: con_holder_def slot_holder_def fun_eq_iff)

interpretation file_con: conn_table MAXADDR con_ok con_holder "\<lambda>a. a" findIndex
  unfolding con_ok_slots con_holder_slots by (rule file_slots.conn_table_axioms)

lemma findIndex_miss:
  assumes "con_ok con" "\<And>i. con_holder con i \<noteq> Some a"
  shows "(\<exists>j < MAXADDR. con_holder con j = None \<and>
      findIndex a con = (int j, con[j := (con ! j)\<lparr>free_flag := 0, chunkNo := 0, con_addr := a\<rparr>])) \<or>
    (\<forall>j < MAXADDR. con_holder con j \<noteq> None) \<and> findIndex a con = (-1, con)"
  using file_slots.scan_claims [of con a] assms unfolding con_ok_slots con_holder_slots claim_con_def .

lemma con_holder_update:
  "j < length con \<Longrightarrow>
   con_holder (con[j := c]) = (con_holder con)(j := (if free_flag c = 0 then Some (con_addr c) else None))"
  by (auto simp: con_holder_def fun_eq_iff)



section \<open>The server\<close>

text \<open>
  What lines 114-126 do with a datagram from \<open>addr\<close> whose first two words are the chunk
  number and the last flag: the table afterwards, the index used (-1 when the table is full),
  whether the payload is printed and whether the datagram is sent back.
\<close>

definition serve_chunk ::
  "addr \<Rightarrow> int \<Rightarrow> int \<Rightarrow> connections list \<Rightarrow> connections list \<times> int \<times> bool \<times> bool" where
  "serve_chunk addr chunk lst con =
     (case findIndex addr con of (i, con1) \<Rightarrow>
        if i < 0 then (con1, i, False, False)
        else let c = con1 ! nat i in
          if chunk > chunkNo c + 1 then (con1, i, False, False)
          else if chunk = chunkNo c + 1 then
            (con1[nat i := c\<lparr>free_flag := (if lst \<noteq> 0 then 1 else free_flag c), chunkNo := chunkNo c + 1\<rparr>],
             i, True, True)
          else (con1, i, False, True))"

text \<open>The counter of a slot is an \<open>int32_t\<close>: adding one to the largest is undefined.\<close>

definition overflows :: "addr \<Rightarrow> connections list \<Rightarrow> bool" where
  "overflows addr con =
     (case findIndex addr con of (i, con1) \<Rightarrow> 0 \<le> i \<and> chunkNo (con1 ! nat i) = int_max)"

definition chunk_no :: "byte list \<Rightarrow> int" where
  "chunk_no buf = sint (ntohl (word32 (take 4 buf)))"

definition chunk_last :: "byte list \<Rightarrow> int" where
  "chunk_last buf = sint (ntohl (word32 (take 4 (drop 4 buf))))"

text \<open>
  The line printed for an accepted chunk. \<open>%s\<close> prints up to the first NUL; a payload
  without one makes printf read past the end of \<open>buf\<close> (\<open>None\<close>).
\<close>

definition part_line :: "byte list \<Rightarrow> byte list option" where
  "part_line buf =
     (if 0 \<notin> set (drop 8 buf) then None
      else Some ((if chunk_last buf \<noteq> 0 then str ''Last Part '' else str ''Part '') @
        fmt_d (chunk_no buf) @ [10] @ cstr (drop 8 buf) @ [10]))"

text \<open>
  The loop body of \<open>doServer\<close>; its state is the table, the buffer and the address. The
  parenthesis of line 112 makes the retried expression the comparison, whose value is 0 or
  1: a receive that fails is never retried.
\<close>

definition file_doServer_body ::
  "int \<Rightarrow> connections list \<times> byte list \<times> addr \<Rightarrow>
   ('g, connections list \<times> byte list \<times> addr + unit) prog" where
  "file_doServer_body fd = (\<lambda>(con, buf, addr).
     bind_m (sys SYS_recvfrom [fd] [] (in_ok MAXBUF)) (\<lambda>r.
     if r_val r < 0 then err_exit ''read:''
     else
       let buf = put_at 0 (r_data r) buf; addr = r_vals r in
       case serve_chunk addr (chunk_no buf) (chunk_last buf) con of (con1, i, show_part, reply) \<Rightarrow>
         if overflows addr con then halt_m Undef else
         bind_m (if show_part then
             (case part_line buf of None \<Rightarrow> halt_m Undef | Some line \<Rightarrow> printf line)
           else ret ()) (\<lambda>_.
         if reply then
           bind_m (retry (sys SYS_sendto (fd # addr) buf (out_ok MAXBUF))) (\<lambda>s.
           if r_val s < 0 then
             bind_m get_errno (\<lambda>e.
             if e = EPIPE then ret (Inl (con1[nat i := (con1 ! nat i)\<lparr>free_flag := 1\<rparr>], buf, addr))
             else err_exit ''send:'')
           else ret (Inl (con1, buf, addr)))
         else ret (Inl (con1, buf, addr)))))"

text \<open>
  \<open>junk\<close> and \<open>junkcon\<close> stand for the uninitialised contents of the buffer and the table.
\<close>

definition file_doServer :: "byte list \<Rightarrow> connections list \<Rightarrow> int \<Rightarrow> ('g, unit) prog" where
  "file_doServer junk junkcon fd =
     loop_m (file_doServer_body fd) (map (\<lambda>c. c\<lparr>free_flag := 1\<rparr>) junkcon, junk, [])"

definition usage_file_server :: "byte list \<Rightarrow> ('g, unit) prog" where
  "usage_file_server name = eprintf (str ''USAGE: '' @ name @ str '' port'' @ [10])"

definition file_server_main :: "byte list \<Rightarrow> connections list \<Rightarrow> byte list list \<Rightarrow> (unit, int) prog" where
  "file_server_main junk junkcon argv =
     (if length argv \<noteq> 2 then bind_m (usage_file_server (argv ! 0)) (\<lambda>_. ret 1)
      else
        bind_m (sethandler SIG_IGN SIGPIPE) (\<lambda>a. if a \<noteq> 0 then err_exit ''Seting SIGPIPE:'' else
        bind_m (bind_inet_socket (word_of_int (atoi (argv ! 1))) SOCK_DGRAM 3) (\<lambda>fd.
        bind_m (file_doServer junk junkcon fd) (\<lambda>_.
        bind_m (retry (sys_close fd)) (\<lambda>c. if r_val c < 0 then err_exit ''close'' else
        bind_m (eprintf (str ''Server has terminated.'' @ [10])) (\<lambda>_.
        ret 0))))))"

section \<open>What a datagram does to the table\<close>

lemma con_ok_chunk:
  "con_ok con \<Longrightarrow> con_ok (con[j := (con ! j)\<lparr>chunkNo := n\<rparr>])"
  by (cases "j < length con") (auto simp: con_ok_def nth_list_update)

lemma con_ok_free:
  "con_ok con \<Longrightarrow> f \<noteq> 0 \<Longrightarrow> con_ok (con[j := (con ! j)\<lparr>free_flag := f, chunkNo := n\<rparr>])"
  by (cases "j < length con") (auto simp: con_ok_def nth_list_update)

lemma serve_chunk_ok: "con_ok con \<Longrightarrow> con_ok (fst (serve_chunk a n l con))"
  using file_con.find_ok [of con a] con_ok_chunk con_ok_free
  by (cases "findIndex a con") (auto simp: serve_chunk_def Let_def)

text \<open>The number of the last accepted chunk of a peer, when it has a slot.\<close>

definition progress_of :: "addr \<Rightarrow> connections list \<Rightarrow> int option" where
  "progress_of a con =
     (case filter (\<lambda>i. con_holder con i = Some a) [0..<MAXADDR] of
        [] \<Rightarrow> None | i # _ \<Rightarrow> Some (chunkNo (con ! i)))"

lemma progress_of_Some:
  assumes "con_ok con" "con_holder con i = Some a"
  shows "progress_of a con = Some (chunkNo (con ! i))"
proof -
  have i: "i < MAXADDR" by (rule file_con.holder_bound [OF assms])
  then have "i \<in> set (filter (\<lambda>i. con_holder con i = Some a) [0..<MAXADDR])" using assms by simp
  then obtain j js where f: "filter (\<lambda>i. con_holder con i = Some a) [0..<MAXADDR] = j # js"
    by (cases "filter (\<lambda>i. con_holder con i = Some a) [0..<MAXADDR]") auto
  then have "con_holder con j = Some a" by (metis (mono_tags, lifting) filter_eq_ConsD)
  then have "j = i" using file_con.holder_unique [OF assms(1)] assms(2) by blast
  then show ?thesis by (simp add: progress_of_def f)
qed

lemma progress_of_None: "(\<And>i. con_holder con i \<noteq> Some a) \<Longrightarrow> progress_of a con = None"
  by (simp add: progress_of_def)

lemma progress_of_eq_None:
  "con_ok con \<Longrightarrow> progress_of a con = None \<longleftrightarrow> (\<forall>i. con_holder con i \<noteq> Some a)"
  using progress_of_Some progress_of_None by (metis option.distinct(1))

text \<open>Whether the server has a slot for a peer, or a free one to give it.\<close>

definition served :: "addr \<Rightarrow> connections list \<Rightarrow> bool" where
  "served a con \<longleftrightarrow> progress_of a con \<noteq> None \<or> (\<exists>i < MAXADDR. con_holder con i = None)"

text \<open>
  The effect of a datagram on the sender's own slot: out of order chunks are ignored, the
  next chunk is accepted, repeated chunks are only acknowledged.
\<close>

lemma serve_own:
  assumes ok: "con_ok con" and "serve_chunk a n l con = (con1, i, shown, reply)"
  defines "k \<equiv> (case progress_of a con of None \<Rightarrow> 0 | Some k \<Rightarrow> k)"
  shows "if \<not> served a con then con1 = con \<and> i = -1 \<and> \<not> shown \<and> \<not> reply
    else shown = (n = k + 1) \<and> reply = (n \<le> k + 1) \<and>
      progress_of a con1 = (if n = k + 1 then if l \<noteq> 0 then None else Some (k + 1) else Some k)"
proof -
  have settled: "shown = (n = k + 1) \<and> reply = (n \<le> k + 1) \<and>
      progress_of a con1 = (if n = k + 1 then if l \<noteq> 0 then None else Some (k + 1) else Some k)"
    if find: "findIndex a con = (int j, con2)" and hold: "con_holder con2 j = Some a"
      and ok2: "con_ok con2" and k: "chunkNo (con2 ! j) = k" for j con2
  proof -
    have j: "j < length con2" "free_flag (con2 ! j) = 0" "con_addr (con2 ! j) = a"
      using hold by (auto simp: con_holder_def split: if_splits)
    have p2: "progress_of a con2 = Some k" using progress_of_Some [OF ok2 hold] k by simp
    let ?next = "con2[j := (con2 ! j)\<lparr>chunkNo := k + 1\<rparr>]"
    let ?free = "con2[j := (con2 ! j)\<lparr>free_flag := 1, chunkNo := k + 1\<rparr>]"
    have "con_holder ?next j = Some a" using j by (simp add: con_holder_def)
    then have "progress_of a ?next = Some (k + 1)"
      using progress_of_Some [OF con_ok_chunk [OF ok2]] j by fastforce
    moreover have "progress_of a ?free = None"
    proof (rule progress_of_None)
      fix m show "con_holder ?free m \<noteq> Some a"
        using file_con.holder_unique [OF ok2 hold, of m] con_holder_update [OF j(1)] by auto
    qed
    moreover have "con1 = (if n = k + 1 then if l \<noteq> 0 then ?free else ?next else con2) \<and>
        shown = (n = k + 1) \<and> reply = (n \<le> k + 1)"
      using assms(2) k by (cases "l = 0") (auto simp: serve_chunk_def find Let_def split: if_splits)
    ultimately show ?thesis using p2 by simp
  qed
  show ?thesis
  proof (cases rule: file_con.find_cases [OF ok, of a, case_names hit fresh full])
    case (hit j)
    then have "progress_of a con = Some (chunkNo (con ! j))" using progress_of_Some ok by blast
    then show ?thesis using settled [OF hit(2,1) ok] by (simp add: k_def served_def)
  next
    case (fresh j con2)
    have none: "progress_of a con = None" using fresh(1) by (rule progress_of_None)
    have hold: "con_holder con2 j = Some a" using fresh(6) by simp
    have "findIndex a con = (int j, con[j := (con ! j)\<lparr>free_flag := 0, chunkNo := 0, con_addr := a\<rparr>])"
      using findIndex_miss [OF ok fresh(1)] fresh(2,3,4) by auto
    then have "con2 = con[j := (con ! j)\<lparr>free_flag := 0, chunkNo := 0, con_addr := a\<rparr>]"
      using fresh(2) by simp
    then have "chunkNo (con2 ! j) = 0" using fresh(3) ok by (simp add: con_ok_def)
    then have "chunkNo (con2 ! j) = k" by (simp add: k_def none)
    then show ?thesis using settled [OF fresh(2) hold fresh(5)] fresh(3,4) by (auto simp: served_def)
  next
    case full
    then have "\<not> served a con" using progress_of_None [of con a] by (auto simp: served_def)
    then show ?thesis using full(3) assms(2) by (simp add: serve_chunk_def)
  qed
qed

lemma serve_other:
  assumes ok: "con_ok con" and "b \<noteq> a" and s: "serve_chunk b n l con = (con1, i, shown, reply)"
  shows "progress_of a con1 = progress_of a con"
proof -
  obtain m con2 where f: "findIndex b con = (m, con2)" by fastforce
  have ok2: "con_ok con2" using file_con.find_ok [OF ok, of b] f by simp
  have same: "con_holder con2 j = Some a \<longleftrightarrow> con_holder con j = Some a" for j
    using file_con.find_others [OF ok, of a b j] assms(2) f by simp
  have chunk: "chunkNo (con2 ! j) = chunkNo (con ! j)" if "con_holder con j = Some a" for j
  proof (cases rule: file_con.find_cases [OF ok, of b, case_names hit fresh full])
    case (fresh j' t1)
    then obtain l where "con_holder con l = None"
      "con2 = con[l := (con ! l)\<lparr>free_flag := 0, chunkNo := 0, con_addr := b\<rparr>] \<or> con2 = con"
      using findIndex_miss [OF ok fresh(1)] f by auto
    moreover from this(1) that have "l \<noteq> j" by auto
    ultimately show ?thesis by auto
  qed (use f in auto)
  have p2: "progress_of a con2 = progress_of a con"
  proof (cases "\<exists>j. con_holder con j = Some a")
    case True
    then show ?thesis using progress_of_Some ok ok2 same chunk by metis
  next
    case False
    then show ?thesis using same progress_of_None by metis
  qed
  show ?thesis
  proof (cases "0 \<le> m \<and> n = chunkNo (con2 ! nat m) + 1")
    case True
    let ?j = "nat m"
    have hold: "con_holder con2 ?j = Some b"
      using file_con.find_holds [OF ok, of b] f True by simp
    let ?c = "con2[?j := (con2 ! ?j)\<lparr>free_flag := (if l \<noteq> 0 then 1 else free_flag (con2 ! ?j)),
        chunkNo := chunkNo (con2 ! ?j) + 1\<rparr>]"
    have con1: "con1 = ?c" using s True f by (cases "l = 0") (auto simp: serve_chunk_def Let_def)
    have "?j < length con2" "con_addr (con2 ! ?j) = b"
      using hold by (auto simp: con_holder_def split: if_splits)
    then have "con_holder ?c j = Some a \<longleftrightarrow> con_holder con2 j = Some a" for j
      using hold assms(2) by (cases "j = ?j") (auto simp: con_holder_update)
    moreover have "chunkNo (?c ! j) = chunkNo (con2 ! j)" if "con_holder con2 j = Some a" for j
      using hold that assms(2) by (cases "j = ?j") auto
    moreover have "con_ok con1" using serve_chunk_ok [OF ok, of b n l] s by simp
    ultimately have "progress_of a con1 = progress_of a con2"
      using progress_of_Some [OF ok2] progress_of_Some [of con1] progress_of_None [of con1 a]
        progress_of_None [of con2 a] con1 by metis
    then show ?thesis using p2 by simp
  next
    case False
    then have "con1 = con2" using s f by (auto simp: serve_chunk_def Let_def split: if_splits)
    then show ?thesis using p2 by simp
  qed
qed

end
