(* ===== verification/FileTransfer.thy ===== *)
theory FileTransfer
  imports FileServer
begin

text \<open>
  The UDP file client of \<open>L2_3/file_client_udp.c\<close> and the protocol the two programs speak:
  the client sends the chunks of a file one at a time and repeats a chunk until the server
  has echoed it (or six attempts have failed); the network may lose, duplicate, delay and
  reorder datagrams in both directions, and other clients use the same server.
\<close>

section \<open>The client\<close>

text \<open>The global is \<open>last_signal\<close>, set by the handler of SIGALRM.\<close>

definition sigalrm_handler :: "nat \<Rightarrow> int \<Rightarrow> int \<times> byte list list" where
  "sigalrm_handler sig last_signal = (int sig, [])"

text \<open>One turn of the loop that waits for the echo or the alarm.\<close>

definition recv_body :: "int \<Rightarrow> nat \<Rightarrow> byte list \<Rightarrow> (int, byte list + byte list) prog" where
  "recv_body fd count buf2 =
     bind_m (sys SYS_recv [fd] [] (in_ok count)) (\<lambda>r.
     if r_val r < 0 then
       bind_m get_errno (\<lambda>e.
       if e \<noteq> EINTR then err_exit ''recv:''
       else bind_m get_glob (\<lambda>last_signal.
         if last_signal = int SIGALRM then ret (Inr buf2) else ret (Inl buf2)))
     else ret (Inr (put_at 0 (stored r) buf2)))"

definition sendAndConfirm :: "int \<Rightarrow> addr \<Rightarrow> byte list \<Rightarrow> byte list \<Rightarrow> (int, byte list) prog" where
  "sendAndConfirm fd addr buf1 buf2 =
     bind_m (retry (sys SYS_sendto (fd # addr) buf1 (out_ok (length buf1)))) (\<lambda>s.
     if r_val s < 0 then err_exit ''sendto:''
     else bind_m (sys SYS_setitimer [0, 0, 500000] [] status_ok) (\<lambda>_.
     bind_m (set_glob 0) (\<lambda>_.
     loop_m (recv_body fd (length buf1)) buf2)))"

definition PAYLOAD :: nat where "PAYLOAD = MAXBUF - 8"

text \<open>The datagram for a chunk: number, last flag, data, and zeros up to 576 bytes.\<close>

definition make_chunk :: "int \<Rightarrow> int \<Rightarrow> byte list \<Rightarrow> byte list" where
  "make_chunk chunk lst payload =
     bytes32 (htonl (word_of_int chunk)) @ bytes32 (htonl (word_of_int lst)) @ payload @
     replicate (PAYLOAD - length payload) 0"

text \<open>The inner loop: send until the echo carries the number of the chunk, six times at most.\<close>

definition confirm_body ::
  "int \<Rightarrow> addr \<Rightarrow> byte list \<Rightarrow> int \<Rightarrow> nat \<times> byte list \<Rightarrow> (int, nat \<times> byte list + nat \<times> byte list) prog" where
  "confirm_body fd addr buf chunk = (\<lambda>(counter, buf2).
     bind_m (sendAndConfirm fd addr buf buf2) (\<lambda>buf2.
     if word32 (take 4 buf2) \<noteq> htonl (word_of_int chunk) \<and> Suc counter \<le> 5
     then ret (Inl (Suc counter, buf2))
     else ret (Inr (Suc counter, buf2))))"

definition doClient_body ::
  "int \<Rightarrow> addr \<Rightarrow> int \<Rightarrow> int \<times> int \<Rightarrow> (int, int \<times> int + unit) prog" where
  "doClient_body fd addr file = (\<lambda>(chunk, lst).
     bind_m (bulk_read file PAYLOAD) (\<lambda>(size, payload).
     if size < 0 then err_exit ''read from file:''
     else if chunk = int_max then halt_m Undef
     else
       let chunk = chunk + 1;
           lst = (if nat size < PAYLOAD then 1 else lst);
           buf = make_chunk chunk lst payload
       in bind_m (loop_m (confirm_body fd addr buf chunk) (0, replicate MAXBUF 0)) (\<lambda>(counter, buf2).
          if word32 (take 4 buf2) \<noteq> htonl (word_of_int chunk) \<and> counter > 5 then ret (Inr ())
          else if nat size = PAYLOAD then ret (Inl (chunk, lst))
          else ret (Inr ()))))"

definition doClient :: "int \<Rightarrow> addr \<Rightarrow> int \<Rightarrow> (int, unit) prog" where
  "doClient fd addr file = loop_m (doClient_body fd addr file) (0, 0)"

definition usage_file_client :: "byte list \<Rightarrow> ('g, unit) prog" where
  "usage_file_client name = eprintf (str ''USAGE: '' @ name @ str '' domain port file '' @ [10])"

definition file_client_main :: "byte list list \<Rightarrow> (int, int) prog" where
  "file_client_main argv =
     (if length argv \<noteq> 4 then bind_m (usage_file_client (argv ! 0)) (\<lambda>_. ret 1)
      else
        bind_m (sethandler SIG_IGN SIGPIPE) (\<lambda>a. if a \<noteq> 0 then err_exit ''Seting SIGPIPE:'' else
        bind_m (sethandler (Handler sigalrm_handler) SIGALRM) (\<lambda>b.
        if b \<noteq> 0 then err_exit ''Seting SIGALRM:'' else
        bind_m (retry (sys SYS_open [0] (cstr (argv ! 3)) fd_ok)) (\<lambda>f.
        if r_val f < 0 then err_exit ''open:'' else
        bind_m (make_socket PF_INET SOCK_DGRAM) (\<lambda>fd.
        bind_m (make_address (argv ! 1) (argv ! 2)) (\<lambda>addr.
        bind_m (doClient fd (map uint addr) (r_val f)) (\<lambda>_.
        bind_m (retry (sys_close fd)) (\<lambda>c. if r_val c < 0 then err_exit ''close'' else
        bind_m (retry (sys_close (r_val f))) (\<lambda>c. if r_val c < 0 then err_exit ''close'' else
        ret 0)))))))))"

section \<open>The chunks of a file\<close>

function file_chunks :: "byte list \<Rightarrow> byte list list" where
  "file_chunks bs = (if length bs < PAYLOAD then [bs] else take PAYLOAD bs # file_chunks (drop PAYLOAD bs))"
  by pat_completeness auto
termination
  by (relation "measure length") (auto simp: PAYLOAD_def MAXBUF_def)

declare file_chunks.simps [simp del]

lemma PAYLOAD_pos [simp]: "0 < PAYLOAD"
  by (simp add: PAYLOAD_def MAXBUF_def)

lemma file_chunks_nonempty [simp]: "file_chunks bs \<noteq> []"
  by (subst file_chunks.simps) simp

lemma concat_file_chunks: "concat (file_chunks bs) = bs"
proof (induction bs rule: file_chunks.induct)
  case (1 bs)
  then show ?case by (subst file_chunks.simps) auto
qed

lemma file_chunks_lengths:
  "i < length (file_chunks bs) \<Longrightarrow>
   length (file_chunks bs ! i) \<le> PAYLOAD \<and>
   (length (file_chunks bs ! i) < PAYLOAD \<longleftrightarrow> Suc i = length (file_chunks bs))"
proof (induction bs arbitrary: i rule: file_chunks.induct)
  case (1 bs)
  show ?case
  proof (cases "length bs < PAYLOAD")
    case True
    then show ?thesis using "1.prems" by (simp add: file_chunks.simps [of bs])
  next
    case False
    then have eq: "file_chunks bs = take PAYLOAD bs # file_chunks (drop PAYLOAD bs)"
      by (simp add: file_chunks.simps [of bs])
    show ?thesis
    proof (cases i)
      case 0
      then show ?thesis using False by (simp add: eq)
    next
      case (Suc m)
      then show ?thesis using "1.IH" [OF False, of m] "1.prems" by (simp add: eq)
    qed
  qed
qed

text \<open>The datagrams for a file: the chunks numbered from 1, the last one flagged.\<close>

definition messages :: "byte list \<Rightarrow> byte list list" where
  "messages bs = (let cs = file_chunks bs in
     map (\<lambda>i. make_chunk (int (Suc i)) (if Suc i = length cs then 1 else 0) (cs ! i)) [0..<length cs])"

lemma length_messages [simp]: "length (messages bs) = length (file_chunks bs)"
  by (simp add: messages_def Let_def)

lemma chunk_no_make: "in_int n \<Longrightarrow> chunk_no (make_chunk n l d) = n"
  by (simp add: chunk_no_def make_chunk_def to_int32_def [symmetric] sint_sbintrunc')

lemma chunk_last_make: "in_int l \<Longrightarrow> chunk_last (make_chunk n l d) = l"
  by (simp add: chunk_last_def make_chunk_def to_int32_def [symmetric] sint_sbintrunc')

lemma chunk_payload_make: "drop 8 (make_chunk n l d) = d @ replicate (PAYLOAD - length d) 0"
  by (simp add: make_chunk_def)

lemma messages_nth:
  assumes "i < length (file_chunks bs)" "length (file_chunks bs) < 2 ^ 31"
  shows "chunk_no (messages bs ! i) = int (Suc i)"
    and "chunk_last (messages bs ! i) = (if Suc i = length (file_chunks bs) then 1 else 0)"
proof -
  have "in_int (int (Suc i))" using assms by (simp add: in_int_iff)
  then show "chunk_no (messages bs ! i) = int (Suc i)"
    using assms by (simp add: messages_def Let_def chunk_no_make del: of_nat_Suc)
  have "in_int 0" "in_int 1" by (simp_all add: in_int_iff)
  then show "chunk_last (messages bs ! i) = (if Suc i = length (file_chunks bs) then 1 else 0)"
    using assms by (simp add: messages_def Let_def chunk_last_make)
qed

section \<open>The protocol over an unreliable network\<close>

text \<open>
  The state of a transfer of the messages \<open>msgs\<close> by one peer: the number of chunks the
  client knows to be confirmed, every datagram of the peer that was ever sent (the network
  may deliver it any number of times, or never), every echo, the server's table, the
  datagrams of the peer the server has printed, and whether it has printed the last part.
\<close>

record transfer =
  confirmed :: nat
  packets :: "byte list set"
  echoes :: "byte list set"
  table :: "connections list"
  parts :: "byte list list"
  complete :: bool

definition transfer_init :: "addr \<Rightarrow> transfer \<Rightarrow> bool" where
  "transfer_init me s \<longleftrightarrow> confirmed s = 0 \<and> packets s = {} \<and> echoes s = {} \<and> parts s = [] \<and>
     \<not> complete s \<and> con_ok (table s) \<and> progress_of me (table s) = None"

text \<open>
  The steps up to the moment the last part is printed, and the client's last confirmation:
  the client (re)sends the current chunk, the network delivers some datagram of the peer to
  the server, delivers a datagram of any other peer, or delivers an echo to the client, which
  moves on when the echo carries the number of the current chunk.
\<close>

inductive transfer_step :: "addr \<Rightarrow> byte list list \<Rightarrow> transfer \<Rightarrow> transfer \<Rightarrow> bool"
  for me :: addr and msgs :: "byte list list" where
  Send: "confirmed s < length msgs \<Longrightarrow>
    transfer_step me msgs s (s\<lparr>packets := insert (msgs ! confirmed s) (packets s)\<rparr>)"
| Deliver: "p \<in> packets s \<Longrightarrow> \<not> complete s \<Longrightarrow>
    serve_chunk me (chunk_no p) (chunk_last p) (table s) = (con1, i, shown, reply) \<Longrightarrow>
    transfer_step me msgs s (s\<lparr>table := con1,
      parts := parts s @ (if shown then [p] else []),
      echoes := (if reply then insert p (echoes s) else echoes s),
      complete := (shown \<and> chunk_last p \<noteq> 0)\<rparr>)"
| Other: "a \<noteq> me \<Longrightarrow> serve_chunk a n l (table s) = (con1, i, shown, reply) \<Longrightarrow>
    transfer_step me msgs s (s\<lparr>table := con1\<rparr>)"
| Echo: "p \<in> echoes s \<Longrightarrow> confirmed s < length msgs \<Longrightarrow> chunk_no p = int (Suc (confirmed s)) \<Longrightarrow>
    transfer_step me msgs s (s\<lparr>confirmed := Suc (confirmed s)\<rparr>)"

inductive_cases transfer_stepE: "transfer_step me msgs s t"

text \<open>
  The invariant: what was printed is a prefix of the messages, at most one chunk ahead of the
  client; the server's counter is its length until the transfer is complete; datagrams in the
  network are messages up to the current one, echoes are printed ones.
\<close>

definition synced :: "addr \<Rightarrow> connections list \<Rightarrow> nat \<Rightarrow> bool" where
  "synced me con n \<longleftrightarrow> (case progress_of me con of None \<Rightarrow> n = 0 | Some k \<Rightarrow> k = int n)"

definition transfer_inv :: "addr \<Rightarrow> byte list list \<Rightarrow> transfer \<Rightarrow> bool" where
  "transfer_inv me msgs s \<longleftrightarrow>
     con_ok (table s) \<and>
     parts s = take (length (parts s)) msgs \<and>
     confirmed s \<le> length (parts s) \<and> length (parts s) \<le> Suc (confirmed s) \<and>
     packets s \<subseteq> set (take (Suc (confirmed s)) msgs) \<and>
     echoes s = set (parts s) \<and>
     (complete s \<longleftrightarrow> parts s = msgs) \<and>
     (\<not> complete s \<longrightarrow> synced me (table s) (length (parts s)))"

text \<open>What the argument needs of the messages: numbered from 1, only the last one flagged.\<close>

definition numbered :: "byte list list \<Rightarrow> bool" where
  "numbered msgs \<longleftrightarrow> msgs \<noteq> [] \<and> (\<forall>i < length msgs. chunk_no (msgs ! i) = int (Suc i) \<and>
     (chunk_last (msgs ! i) \<noteq> 0 \<longleftrightarrow> Suc i = length msgs))"

lemma numbered_messages: "length (file_chunks bs) < 2 ^ 31 \<Longrightarrow> numbered (messages bs)"
  by (auto simp: numbered_def messages_nth) (metis file_chunks_nonempty length_0_conv length_messages list.size(3))

lemma set_take_nth: "x \<in> set (take n xs) \<longleftrightarrow> (\<exists>i < n. i < length xs \<and> xs ! i = x)"
  by (auto simp: in_set_conv_nth)

lemma transfer_init_inv: "msgs \<noteq> [] \<Longrightarrow> transfer_init me s \<Longrightarrow> transfer_inv me msgs s"
  by (auto simp: transfer_init_def transfer_inv_def synced_def)

lemma transfer_inv_step:
  assumes num: "numbered msgs" and I: "transfer_inv me msgs s" and "transfer_step me msgs s t"
  shows "transfer_inv me msgs t"
  using assms(3)
proof cases
  case Send
  then have "msgs ! confirmed s \<in> set (take (Suc (confirmed s)) msgs)"
    by (auto simp: set_take_nth)
  then show ?thesis using I Send(1) by (simp add: transfer_inv_def)
next
  case (Other a n l con1 i shown reply)
  have "con_ok con1" using serve_chunk_ok [of "table s" a n l] Other I by (simp add: transfer_inv_def)
  moreover have "progress_of me con1 = progress_of me (table s)"
    using serve_other [OF _ Other(2,3)] I by (simp add: transfer_inv_def)
  ultimately show ?thesis using I Other(1) by (simp add: transfer_inv_def synced_def)
next
  case (Echo p)
  let ?n = "length (parts s)"
  have "p \<in> set (take ?n msgs)" using I Echo(2) by (auto simp: transfer_inv_def)
  then obtain j where j: "j < ?n" "j < length msgs" "msgs ! j = p" by (auto simp: set_take_nth)
  then have "j = confirmed s" using num Echo(4) by (auto simp: numbered_def)
  then have n: "?n = Suc (confirmed s)" using I j(1) by (simp add: transfer_inv_def)
  have "set (take (Suc (confirmed s)) msgs) \<subseteq> set (take (Suc (Suc (confirmed s))) msgs)"
    by (rule set_take_subset_set_take) simp
  then show ?thesis using I n Echo(1) by (auto simp: transfer_inv_def)
next
  case (Deliver p con1 i shown reply)
  let ?n = "length (parts s)"
  have ok: "con_ok (table s)" and open_s: "\<not> complete s" and pre: "parts s = take ?n msgs"
    and le: "confirmed s \<le> ?n" "?n \<le> Suc (confirmed s)"
    using I Deliver(3) by (auto simp: transfer_inv_def)
  have ok1: "con_ok con1" using serve_chunk_ok [OF ok, of me] Deliver(4) by (metis fst_conv)
  have k: "(case progress_of me (table s) of None \<Rightarrow> 0 | Some k \<Rightarrow> k) = int ?n"
    using I open_s by (auto simp: transfer_inv_def synced_def split: option.splits)
  have "p \<in> set (take (Suc (confirmed s)) msgs)" using I Deliver(2) by (auto simp: transfer_inv_def)
  then obtain j where j: "j \<le> confirmed s" "j < length msgs" "msgs ! j = p"
    by (auto simp: set_take_nth less_Suc_eq_le)
  then have no: "chunk_no p = int (Suc j)" and lst: "chunk_last p \<noteq> 0 \<longleftrightarrow> Suc j = length msgs"
    using num by (auto simp: numbered_def)
  note own = serve_own [OF ok Deliver(4), unfolded k]
  have n_less: "?n < length msgs"
    using I open_s pre by (metis length_take min.absorb4 not_less take_all transfer_inv_def
        linorder_le_less_linear)
  show ?thesis
  proof (cases "served me (table s)")
    case False
    then show ?thesis using own Deliver(1) I open_s by (simp add: transfer_inv_def)
  next
    case served: True
    then have s: "shown = (j = ?n)" "reply = (j \<le> ?n)"
      "progress_of me con1 = (if j = ?n then if chunk_last p \<noteq> 0 then None else Some (int ?n + 1)
        else Some (int ?n))"
      using own no by auto
    show ?thesis
    proof (cases "j = ?n")
      case True
      have take1: "parts s @ [p] = take (Suc ?n) msgs"
        using pre j True by (metis take_Suc_conv_app_nth)
      have full: "parts s @ [p] = msgs \<longleftrightarrow> Suc ?n = length msgs"
        using take1 n_less by (metis length_append_singleton take_all order_refl)
      have "confirmed s = ?n" using True j(1) le by simp
      moreover have "set (take (Suc ?n) msgs) = insert p (set (parts s))"
        by (metis take1 Un_insert_right empty_set list.simps(15) set_append sup_bot_right)
      ultimately have "confirmed s = ?n" "set (take (Suc ?n) msgs) = insert p (set (parts s))" .
      then show ?thesis using I Deliver(1) s True ok1 take1 full lst
        by (auto simp: transfer_inv_def synced_def)
    next
      case False
      then have "p \<in> set (parts s)" using j pre le s
        by (metis Suc_leD le_neq_implies_less le_trans not_less_eq_eq set_take_nth)
      moreover have "parts s \<noteq> msgs" using n_less by auto
      ultimately show ?thesis using I Deliver(1) s False ok1 open_s
        by (auto simp: transfer_inv_def synced_def)
    qed
  qed
qed

interpretation transfer: inv_system "transfer_init me" "transfer_step me (messages bs)"
    "\<lambda>s. length (file_chunks bs) < 2 ^ 31 \<longrightarrow> transfer_inv me (messages bs) s"
  for me bs
proof
  fix s assume "transfer_init me s"
  moreover have "messages bs \<noteq> []"
    by (metis file_chunks_nonempty length_0_conv length_messages)
  ultimately show "length (file_chunks bs) < 2 ^ 31 \<longrightarrow> transfer_inv me (messages bs) s"
    using transfer_init_inv by blast
next
  fix s t
  assume "length (file_chunks bs) < 2 ^ 31 \<longrightarrow> transfer_inv me (messages bs) s"
    and "transfer_step me (messages bs) s t"
  then show "length (file_chunks bs) < 2 ^ 31 \<longrightarrow> transfer_inv me (messages bs) t"
    using transfer_inv_step numbered_messages by blast
qed



text \<open>The file content a list of accepted datagrams carries, without the padding.\<close>

lemma accepted_payload:
  assumes "ps = take n (messages bs)" "n \<le> length (messages bs)"
  shows "map (drop 8) ps =
    map (\<lambda>c. c @ replicate (PAYLOAD - length c) 0) (take n (file_chunks bs))"
  using assms
  by (auto simp: messages_def Let_def chunk_payload_make intro!: nth_equalityI)

text \<open>
  Property C1. Whatever the network does, and whatever other clients send, until and
  including the moment the last part is printed the server has printed the chunks of the
  file in order, each once: the payloads of the printed parts are the first chunks of the
  file (padded with zeros), never more than one ahead of what the client knows to be
  confirmed; the last part is printed exactly when all of them are; and the chunks put
  together are the file.
\<close>

theorem file_transfer_in_order:
  assumes "length (file_chunks bs) < 2 ^ 31" "transfer_init me s0"
    and "(transfer_step me (messages bs))\<^sup>*\<^sup>* s0 s"
  shows "map (drop 8) (parts s) =
      map (\<lambda>c. c @ replicate (PAYLOAD - length c) 0) (take (length (parts s)) (file_chunks bs)) \<and>
    confirmed s \<le> length (parts s) \<and> length (parts s) \<le> Suc (confirmed s) \<and>
    (complete s \<longleftrightarrow> length (parts s) = length (file_chunks bs)) \<and>
    concat (file_chunks bs) = bs"
proof -
  have I: "transfer_inv me (messages bs) s"
    using transfer.inv_reachable [OF assms(2,3)] assms(1) by blast
  then have p: "parts s = take (length (parts s)) (messages bs)" by (simp add: transfer_inv_def)
  then have len: "length (parts s) \<le> length (messages bs)" by (metis length_take min.cobounded1)
  have "parts s = messages bs \<longleftrightarrow> length (parts s) = length (file_chunks bs)"
    using p by (metis length_messages take_all order_refl)
  then show ?thesis
    using accepted_payload [OF p len] I concat_file_chunks by (simp add: transfer_inv_def)
qed

section \<open>What the client sends\<close>

fun datagram1 :: "event \<Rightarrow> byte list list" where
  "datagram1 (Sys n args p r) = (if n = SYS_sendto then [p] else [])"
| "datagram1 _ = []"

definition datagrams :: "event list \<Rightarrow> byte list list" where
  "datagrams tr = concat (map datagram1 tr)"

lemma datagrams_simps [simp]:
  "datagrams [] = []" "datagrams (xs @ ys) = datagrams xs @ datagrams ys"
  "datagrams (e # xs) = datagram1 e @ datagrams xs"
  by (simp_all add: datagrams_def)

lemma datagrams_outs [simp]: "datagrams (map Out outs) = []"
  by (induction outs) simp_all

lemma sys_post_datagrams:
  "sys_post n args p r w w1 \<Longrightarrow> datagrams (trace w1) = datagrams (trace w) @ (if n = SYS_sendto then [p] else [])"
  by (auto simp: sys_post_def outs_after_def)

lemma sys_halt_datagrams: "sys_halt w h w1 \<Longrightarrow> datagrams (trace w1) = datagrams (trace w)"
  by (auto simp: sys_halt_def outs_after_def)

lemma extends_datagrams:
  assumes "extends (io_event n fd) tr tr1" "n \<noteq> SYS_sendto"
  shows "datagrams tr1 = datagrams tr"
proof -
  have "list_all (io_event n fd) evs \<Longrightarrow> datagrams evs = []" for evs
    using assms(2) by (induction evs) (auto elim: io_event.elims is_call.elims)
  then show ?thesis using assms(1) by (auto simp: extends_def)
qed

text \<open>Since \<open>w\<close>, datagram \<open>buf\<close> was sent \<open>n\<close> times and nothing was read from the file.\<close>

definition resent :: "int \<Rightarrow> byte list \<Rightarrow> nat \<Rightarrow> 'g world \<Rightarrow> 'g world \<Rightarrow> bool" where
  "resent file buf n w v \<longleftrightarrow> datagrams (trace v) = datagrams (trace w) @ replicate n buf \<and>
     got file (trace v) = got file (trace w) \<and> length (script v) \<le> length (script w)"

lemma resent_refl: "resent file buf 0 w w"
  by (simp add: resent_def)

lemma resent_trans: "resent file buf m a b \<Longrightarrow> resent file buf n b c \<Longrightarrow> resent file buf (m + n) a c"
  by (simp add: resent_def replicate_add)

text \<open>How a step that has sent it at least once, or that stops, leaves the world.\<close>

definition delivered_on :: "int \<Rightarrow> byte list \<Rightarrow> 'g world \<Rightarrow> 'g world \<Rightarrow> bool" where
  "delivered_on file buf w v \<longleftrightarrow>
     (\<exists>n \<ge> 1. resent file buf n w v) \<and> length (script v) < length (script w)"

definition stopped_on :: "int \<Rightarrow> byte list \<Rightarrow> 'g world \<Rightarrow> 'g world \<Rightarrow> bool" where
  "stopped_on file buf w v \<longleftrightarrow>
     (\<exists>n. datagrams (trace v) = datagrams (trace w) @ replicate n buf) \<and>
     got file (trace v) = got file (trace w)"

lemma stopped_on_resent: "resent file buf n w v \<Longrightarrow> stopped_on file buf w v"
  by (auto simp: stopped_on_def resent_def)

lemma stopped_on_perror [simp]:
  "stopped_on file buf w (v\<lparr>trace := trace v @ [Perror s e]\<rparr>) = stopped_on file buf w v"
  by (simp add: stopped_on_def)

lemma wp_sys_resent:
  assumes k: "resent file buf k w v"
    and c: "n = SYS_sendto \<longrightarrow> p = buf" "n \<noteq> SYS_read" "n = SYS_recv \<longrightarrow> args \<noteq> [file]"
    and "\<And>r v1. resent file buf (k + (if n = SYS_sendto then 1 else 0)) w v1 \<Longrightarrow>
      length (script v1) < length (script v) \<Longrightarrow> Q r v1"
    and "\<And>h v1. stopped_on file buf w v1 \<Longrightarrow> E h v1"
  shows "wp (sys n args p good) Q E v"
proof (rule wp_sys)
  fix r v1 assume post: "sys_post n args p r v v1"
  have "resent file buf (k + (if n = SYS_sendto then 1 else 0)) w v1"
    using k c sys_post_datagrams [OF post] sys_post_traces(2) [OF post, of "file"] sys_post_shorter [OF post]
    by (auto simp: resent_def replicate_add)
  then show "Q r v1" using assms(5) sys_post_shorter [OF post] by blast
next
  fix h v1 assume "sys_halt v h v1"
  then have "stopped_on file buf w v1"
    using k sys_halt_datagrams sys_halt_traces(2) by (fastforce simp: stopped_on_def resent_def)
  then show "E h v1" by (rule assms(6))
qed

lemma wp_recv_body:
  assumes "fd \<noteq> file" "delivered_on file buf w v"
  shows "wp (recv_body fd n st) (\<lambda>x v1. delivered_on file buf w v1 \<and> length (script v1) < length (script v))
    (\<lambda>_. stopped_on file buf w) v"
proof -
  from assms(2) obtain k where k: "1 \<le> k" "resent file buf k w v" "length (script v) < length (script w)"
    by (auto simp: delivered_on_def)
  have ok: "delivered_on file buf w v1" if "resent file buf k w v1" "length (script v1) < length (script v)" for v1
    using that k by (auto simp: delivered_on_def)
  show ?thesis
    unfolding recv_body_def wp_bind [of "sys _ _ _ _"]
    by (rule wp_sys_resent [OF k(2)])
      (use assms(1) in \<open>auto simp: wp_rules intro: ok stopped_on_resent\<close>)
qed

lemma wp_await_echo:
  assumes "fd \<noteq> file" "delivered_on file buf w v"
  shows "wp (loop_m (recv_body fd n) st) (\<lambda>_. delivered_on file buf w) (\<lambda>_. stopped_on file buf w) v"
  by (rule wp_loop [where I = "\<lambda>_. delivered_on file buf w"])
    (use assms in \<open>auto intro: wp_mono [OF wp_recv_body [OF assms(1)]] split: sum.split\<close>)

lemma wp_send_rest:
  assumes "fd \<noteq> file" "resent file buf (Suc k) w v" "length (script v) < length (script w)"
  shows "wp (bind_m (sys SYS_setitimer [0, 0, 500000] [] status_ok) (\<lambda>_.
      bind_m (set_glob 0) (\<lambda>_. loop_m (recv_body fd n) st)))
    (\<lambda>_. delivered_on file buf w) (\<lambda>_. stopped_on file buf w) v"
  unfolding wp_bind wp_set_glob
proof (rule wp_sys_resent [OF assms(2)])
  fix v1 assume "resent file buf (Suc k + (if SYS_setitimer = SYS_sendto then 1 else 0)) w v1"
    "length (script v1) < length (script v)"
  then have "delivered_on file buf w (v1\<lparr>glob := 0\<rparr>)"
    using assms(3) unfolding delivered_on_def by (auto simp: resent_def intro!: exI [of _ "Suc k"])
  then show "wp (loop_m (recv_body fd n) st) (\<lambda>_. delivered_on file buf w) (\<lambda>_. stopped_on file buf w)
      (v1\<lparr>glob := 0\<rparr>)"
    by (rule wp_await_echo [OF assms(1)])
qed auto

lemma wp_sendAndConfirm:
  assumes "fd \<noteq> file"
  shows "wp (sendAndConfirm fd addr buf buf2) (\<lambda>_. delivered_on file buf w) (\<lambda>_. stopped_on file buf w) w"
  unfolding sendAndConfirm_def wp_bind [of "retry _"]
proof (rule wp_retry [where I = "\<lambda>v. \<exists>k. resent file buf k w v"])
  show "\<exists>k. resent file buf k w w" using resent_refl by blast
next
  fix v :: "int world" assume "\<exists>k. resent file buf k w v"
  then obtain k where k: "resent file buf k w v" by blast
  then have le: "length (script v) \<le> length (script w)" by (simp add: resent_def)
  show "wp (sys SYS_sendto (fd # addr) buf (out_ok (length buf)))
    (\<lambda>r w1. if r_val r = -1 \<and> werrno w1 = EINTR
       then (\<exists>k. resent file buf k w w1) \<and> length (script w1) < length (script v)
       else wp (if r_val r < 0 then err_exit ''sendto:''
          else bind_m (sys SYS_setitimer [0, 0, 500000] [] status_ok) (\<lambda>_.
            bind_m (set_glob 0) (\<lambda>_. loop_m (recv_body fd (length buf)) buf2)))
         (\<lambda>_. delivered_on file buf w) (\<lambda>_. stopped_on file buf w) w1)
    (\<lambda>_. stopped_on file buf w) v"
    by (rule wp_sys_resent [OF k])
      (use le in \<open>auto simp: wp_err_exit intro!: wp_send_rest [OF assms] intro: stopped_on_resent\<close>)
qed

lemma delivered_on_trans:
  "delivered_on file buf w v \<Longrightarrow> delivered_on file buf v u \<Longrightarrow> delivered_on file buf w u"
proof -
  assume a: "delivered_on file buf w v" "delivered_on file buf v u"
  then obtain m n where "1 \<le> m" "resent file buf m w v" "resent file buf n v u"
    by (auto simp: delivered_on_def)
  then have "1 \<le> m + n \<and> resent file buf (m + n) w u" using resent_trans by auto
  then show ?thesis using a by (auto simp: delivered_on_def)
qed

lemma delivered_on_shorter: "delivered_on file buf w v \<Longrightarrow> length (script v) < length (script w)"
  by (simp add: delivered_on_def)

lemma stopped_on_trans:
  "delivered_on file buf w v \<Longrightarrow> stopped_on file buf v u \<Longrightarrow> stopped_on file buf w u"
  by (auto simp: delivered_on_def stopped_on_def resent_def replicate_add [symmetric])

lemma wp_confirm:
  assumes "fd \<noteq> file"
  shows "wp (loop_m (confirm_body fd addr buf chunk) (0, b)) (\<lambda>_. delivered_on file buf w)
    (\<lambda>_. stopped_on file buf w) w"
proof (rule wp_loop [where I = "\<lambda>_ v. v = w \<or> delivered_on file buf w v"])
  fix st :: "nat \<times> byte list" and v :: "int world"
  assume v: "v = w \<or> delivered_on file buf w v"
  obtain counter buf2 where st: "st = (counter, buf2)" by fastforce
  show "wp (confirm_body fd addr buf chunk st)
      (\<lambda>x w1. case x of Inl s1 \<Rightarrow> (w1 = w \<or> delivered_on file buf w w1) \<and> length (script w1) < length (script v)
        | Inr r \<Rightarrow> delivered_on file buf w w1) (\<lambda>_. stopped_on file buf w) v"
    unfolding confirm_body_def st split wp_bind
    by (rule wp_mono [OF wp_sendAndConfirm [OF assms]])
      (use v in \<open>auto simp: wp_rules delivered_on_shorter intro: delivered_on_trans stopped_on_trans\<close>)
qed simp

text \<open>The datagrams for a list of payloads, numbered from 1, the short ones flagged.\<close>

definition numbered_chunks :: "byte list list \<Rightarrow> byte list list" where
  "numbered_chunks ps = map (\<lambda>i. make_chunk (int i + 1) (if length (ps ! i) < PAYLOAD then 1 else 0) (ps ! i))
     [0..<length ps]"

lemma numbered_chunks_snoc:
  "numbered_chunks (ps @ [p]) =
   numbered_chunks ps @ [make_chunk (int (length ps) + 1) (if length p < PAYLOAD then 1 else 0) p]"
  by (auto simp: numbered_chunks_def nth_append)

lemma remdups_adj_snoc_replicate:
  "0 < n \<Longrightarrow> (xs = [] \<or> last xs \<noteq> x) \<Longrightarrow> remdups_adj (xs @ replicate n x) = remdups_adj xs @ [x]"
proof -
  assume n: "0 < n" and xs: "xs = [] \<or> last xs \<noteq> x"
  then obtain m where m: "n = Suc m" by (cases n) auto
  have r: "remdups_adj (x # replicate m x) = [x]"
    using remdups_adj_replicate [of "Suc m" x] by simp
  show ?thesis
    using xs unfolding m
    by (induction xs rule: remdups_adj.induct) (auto simp: r)
qed

text \<open>
  What the loop of \<open>doClient\<close> keeps: the payloads read so far, all full, are the file's
  bytes read so far, and their datagrams are what was sent, each once or several times.
\<close>

definition client_sent :: "int \<Rightarrow> byte list list \<Rightarrow> 'g world \<Rightarrow> bool" where
  "client_sent file ps v \<longleftrightarrow> remdups_adj (datagrams (trace v)) = numbered_chunks ps \<and>
     got file (trace v) = concat ps \<and>
     (\<forall>p \<in> set (butlast ps). length p = PAYLOAD) \<and> (ps \<noteq> [] \<longrightarrow> length (last ps) \<le> PAYLOAD)"

lemma last_datagram:
  assumes "client_sent file ps v" "datagrams (trace v) \<noteq> []" "int (length ps) < int_max"
  shows "last (datagrams (trace v)) \<noteq> make_chunk (int (length ps) + 1) l p"
proof -
  have r: "remdups_adj (datagrams (trace v)) = numbered_chunks ps"
    using assms(1) by (simp add: client_sent_def)
  then have "ps \<noteq> []" using assms(2) by (auto simp: numbered_chunks_def)
  then obtain qs q where ps: "ps = qs @ [q]" by (metis rev_exhaust)
  have "last (datagrams (trace v)) = last (numbered_chunks ps)"
    using r by (metis last_remdups_adj)
  then have "chunk_no (last (datagrams (trace v))) = int (length ps)"
    using assms(3) by (simp add: ps numbered_chunks_snoc chunk_no_make in_int_def int_min_def del: of_nat_Suc)
  moreover have "chunk_no (make_chunk (int (length ps) + 1) l p) = int (length ps) + 1"
    using assms(3) by (intro chunk_no_make) (simp add: in_int_def int_min_def)
  ultimately show ?thesis by auto
qed

lemma client_sent_snoc:
  assumes "client_sent file ps v" "\<forall>p \<in> set ps. length p = PAYLOAD" "int (length ps) < int_max"
    and "length p \<le> PAYLOAD" "1 \<le> n"
    and "datagrams (trace u) = datagrams (trace v) @ replicate n
      (make_chunk (int (length ps) + 1) (if length p < PAYLOAD then 1 else 0) p)"
    and "got file (trace u) = got file (trace v) @ p"
  shows "client_sent file (ps @ [p]) u"
proof -
  have "remdups_adj (datagrams (trace u)) = numbered_chunks (ps @ [p])"
    unfolding assms(6) numbered_chunks_snoc
    by (subst remdups_adj_snoc_replicate)
      (use assms(1,5) last_datagram [OF assms(1) _ assms(3)] in \<open>auto simp: client_sent_def\<close>)
  then show ?thesis using assms by (simp add: client_sent_def)
qed

text \<open>Where the client stops otherwise, some bytes read may not have been sent.\<close>

definition client_stopped :: "int \<Rightarrow> 'g world \<Rightarrow> bool" where
  "client_stopped file v \<longleftrightarrow> (\<exists>ps rest. remdups_adj (datagrams (trace v)) = numbered_chunks ps \<and>
     got file (trace v) = concat ps @ rest)"

definition client_inv :: "int \<Rightarrow> int \<times> int \<Rightarrow> 'g world \<Rightarrow> bool" where
  "client_inv file st v \<longleftrightarrow> (\<exists>ps. client_sent file ps v \<and> (\<forall>p \<in> set ps. length p = PAYLOAD) \<and>
     st = (int (length ps), 0) \<and> int (length ps) \<le> int_max)"

lemma client_stopped_extends:
  assumes "client_sent file ps v" "extends (io_event SYS_read file) (trace v) tr"
    and "datagrams (trace u) = datagrams tr" "got file (trace u) = got file tr"
  shows "client_stopped file u"
proof -
  obtain evs where "tr = trace v @ evs" using assms(2) by (auto simp: extends_def)
  then have "got file (trace u) = concat ps @ got file evs"
    using assms(1,4) by (simp add: client_sent_def)
  moreover have "remdups_adj (datagrams (trace u)) = numbered_chunks ps"
    using extends_datagrams [OF assms(2)] assms(1,3) by (simp add: client_sent_def)
  ultimately show ?thesis by (auto simp: client_stopped_def)
qed

lemma wp_send_chunk:
  fixes v :: "int world"
  assumes fd: "fd \<noteq> file" and ps: "client_sent file ps v" "\<forall>p \<in> set ps. length p = PAYLOAD"
      "int (length ps) < int_max"
    and w: "datagrams (trace w) = datagrams (trace v)" "got file (trace w) = got file (trace v) @ p"
      "length p \<le> PAYLOAD" "length (script w) \<le> length (script v)"
    and buf: "buf = make_chunk chunk lst p" "lst = (if nat sz < PAYLOAD then 1 else 0)"
      "chunk = int (length ps) + 1" "length p = nat sz"
  shows "wp (loop_m (confirm_body fd addr buf chunk) (0, b))
      (\<lambda>x v1. wp (case x of (counter, buf2) \<Rightarrow>
          if word32 (take 4 buf2) \<noteq> htonl (word_of_int chunk) \<and> counter > 5 then ret (Inr ())
          else if nat sz = PAYLOAD then ret (Inl (chunk, lst))
          else ret (Inr ()))
        (\<lambda>x v1. case x of
            Inl s1 \<Rightarrow> client_inv file s1 v1 \<and> length (script v1) < length (script v)
          | Inr r \<Rightarrow> \<exists>ps. client_sent file ps v1) (\<lambda>_. client_stopped file) v1)
      (\<lambda>_. client_stopped file) w"
proof (rule wp_mono [OF wp_confirm [OF fd]])
  fix x :: "nat \<times> byte list" and v1 :: "int world"
  assume "delivered_on file buf w v1"
  then obtain n where n: "1 \<le> n" "resent file buf n w v1" "length (script v1) < length (script w)"
    by (auto simp: delivered_on_def)
  have "client_sent file (ps @ [p]) v1"
    by (rule client_sent_snoc [OF ps w(3) n(1)]) (use n(2) w(1,2) buf in \<open>auto simp: resent_def\<close>)
  then show "wp (case x of (counter, buf2) \<Rightarrow>
          if word32 (take 4 buf2) \<noteq> htonl (word_of_int chunk) \<and> counter > 5 then ret (Inr ())
          else if nat sz = PAYLOAD then ret (Inl (chunk, lst))
          else ret (Inr ()))
        (\<lambda>x v1. case x of
            Inl s1 \<Rightarrow> client_inv file s1 v1 \<and> length (script v1) < length (script v)
          | Inr r \<Rightarrow> \<exists>ps. client_sent file ps v1) (\<lambda>_. client_stopped file) v1"
    using ps n w buf
    by (auto simp: wp_ret client_inv_def intro!: exI [of _ "ps @ [p]"] split: prod.split)
next
  fix h :: halt and v1 :: "int world"
  assume "stopped_on file buf w v1"
  then obtain n where n: "datagrams (trace v1) = datagrams (trace v) @ replicate n buf"
    "got file (trace v1) = concat ps @ p"
    using w ps(1) by (auto simp: stopped_on_def client_sent_def)
  show "client_stopped file v1"
  proof (cases n)
    case 0
    then show ?thesis using n ps(1) by (auto simp: client_stopped_def client_sent_def)
  next
    case (Suc m)
    then have "client_sent file (ps @ [p]) v1"
      by (intro client_sent_snoc [OF ps w(3), of n])
        (use n ps(1) buf in \<open>auto simp: client_sent_def\<close>)
    then show ?thesis by (fastforce simp: client_stopped_def client_sent_def)
  qed
qed

lemma wp_doClient_body:
  assumes fd: "fd \<noteq> file" and I: "client_inv file st v"
  shows "wp (doClient_body fd addr file st) (\<lambda>x v1. case x of
      Inl s1 \<Rightarrow> client_inv file s1 v1 \<and> length (script v1) < length (script v)
    | Inr r \<Rightarrow> \<exists>ps. client_sent file ps v1) (\<lambda>_. client_stopped file) v"
proof -
  obtain ps where ps: "client_sent file ps v" "\<forall>p \<in> set ps. length p = PAYLOAD"
    "st = (int (length ps), 0)" "int (length ps) \<le> int_max"
    using I by (auto simp: client_inv_def)
  show ?thesis
    unfolding doClient_body_def ps(3) split wp_bind [of "bulk_read _ _"]
  proof (rule wp_shrinks [OF shrinks_bulk(1)], rule wp_bulk_read)
    show "PAYLOAD < 2 ^ 31" by (simp add: PAYLOAD_def MAXBUF_def)
  next
    fix h :: halt and v1 :: "int world"
    assume "extends (io_event SYS_read file) (trace v) (trace v1)"
    then show "client_stopped file v1" by (rule client_stopped_extends [OF ps(1)]) simp_all
  next
    fix res and v1 :: "int world"
    assume res: "read_result file PAYLOAD v res v1"
    obtain size payload where [simp]: "res = (size, payload)" by fastforce
    have ext: "extends (io_event SYS_read file) (trace v) (trace v1)"
      and g: "got file (trace v1) = got file (trace v) @ payload"
      and len: "0 \<le> size \<Longrightarrow> length payload = nat size \<and> nat size \<le> PAYLOAD"
      using res by (auto simp: read_result_def)
    have stop: "client_stopped file v1" by (rule client_stopped_extends [OF ps(1) ext]) simp_all
    have stop2: "client_stopped file (v1\<lparr>trace := trace v1 @ [Perror s e]\<rparr>)" for s e
      by (rule client_stopped_extends [OF ps(1) ext]) simp_all
    have d: "datagrams (trace v1) = datagrams (trace v)" by (rule extends_datagrams [OF ext]) simp
    have send: "wp (loop_m (confirm_body fd addr (make_chunk (int (length ps) + 1) lst payload)
          (int (length ps) + 1)) (0, replicate MAXBUF 0))
        (\<lambda>x v1. wp (case x of (counter, buf2) \<Rightarrow>
            if word32 (take 4 buf2) \<noteq> htonl (word_of_int (int (length ps) + 1)) \<and> counter > 5 then ret (Inr ())
            else if nat size = PAYLOAD then ret (Inl (int (length ps) + 1, lst))
            else ret (Inr ()))
          (\<lambda>x v1. case x of
              Inl s1 \<Rightarrow> client_inv file s1 v1 \<and> length (script v1) < length (script v)
            | Inr r \<Rightarrow> \<exists>ps. client_sent file ps v1) (\<lambda>_. client_stopped file) v1)
        (\<lambda>_. client_stopped file) v1"
      if "0 \<le> size" "int (length ps) \<noteq> int_max" "length (script v1) \<le> length (script v)"
        "lst = (if nat size < PAYLOAD then 1 else 0)" for lst
      by (rule wp_send_chunk [OF fd ps(1,2) _ d g _ that(3) refl that(4) refl]) (use len that(1,2) ps(4) in auto)
    show "length (script v1) \<le> length (script v) \<longrightarrow>
      wp (case res of (size, payload) \<Rightarrow>
         if size < 0 then err_exit ''read from file:''
         else if int (length ps) = int_max then halt_m Undef
         else let chunk = int (length ps) + 1; lst = if nat size < PAYLOAD then 1 else 0;
               buf = make_chunk chunk lst payload
           in bind_m (loop_m (confirm_body fd addr buf chunk) (0, replicate MAXBUF 0)) (\<lambda>(counter, buf2).
              if word32 (take 4 buf2) \<noteq> htonl (word_of_int chunk) \<and> counter > 5 then ret (Inr ())
              else if nat size = PAYLOAD then ret (Inl (chunk, lst))
              else ret (Inr ())))
       (\<lambda>x v1. case x of
            Inl s1 \<Rightarrow> client_inv file s1 v1 \<and> length (script v1) < length (script v)
          | Inr r \<Rightarrow> \<exists>ps. client_sent file ps v1) (\<lambda>_. client_stopped file) v1"
      using stop stop2 send by (simp add: wp_err_exit wp_halt Let_def wp_bind [of "loop_m _ _"])
  qed
qed

lemma wp_doClient:
  assumes "fd \<noteq> file" "client_sent file [] w"
  shows "wp (doClient fd addr file) (\<lambda>_ v1. \<exists>ps. client_sent file ps v1) (\<lambda>_. client_stopped file) w"
  unfolding doClient_def
  by (rule wp_loop [where I = "client_inv file"])
    (use assms wp_doClient_body [OF assms(1)] in \<open>auto simp: client_inv_def in_int_def int_max_def\<close>)

text \<open>
  Property C25. The client's side of the protocol, for the program itself and any behaviour of
  the kernel: the datagrams it sends, leaving out repetitions, are the consecutive pieces of
  what it has read from the file, numbered from 1, each but the last full and only a short
  one flagged as the last; when it returns, all it has read has been sent.
\<close>

theorem doClient_sends_file:
  assumes "fd \<noteq> file" "trace w = []"
  shows "case doClient fd addr file w of
      (Ret _, w1) \<Rightarrow> (\<exists>ps. remdups_adj (datagrams (trace w1)) = numbered_chunks ps \<and>
        concat ps = got file (trace w1) \<and> (\<forall>p \<in> set (butlast ps). length p = PAYLOAD) \<and>
        (ps \<noteq> [] \<longrightarrow> length (last ps) \<le> PAYLOAD))
    | (Halt h, w1) \<Rightarrow> (\<exists>ps rest. remdups_adj (datagrams (trace w1)) = numbered_chunks ps \<and>
        got file (trace w1) = concat ps @ rest)"
proof -
  have "client_sent file [] w" using assms(2) by (simp add: client_sent_def numbered_chunks_def)
  from wp_doClient [OF assms(1) this, of addr] show ?thesis
    by (auto simp: wp_def client_sent_def client_stopped_def split: prod.splits outcome.splits)
qed

text \<open>The instance: three bytes, an attempt that times out, and one that is confirmed.\<close>

definition client3 :: "int world" where
  "client3 = (idle [data_reply [7, 8, 9], ok_reply 0, ok_reply 576, ok_reply 0,
      Reply [SIGALRM] (-1) EINTR [] [], ok_reply 576, ok_reply 0, data_reply [0, 0, 0, 1]] 0)
    \<lparr>sigact := (\<lambda>_. Handler sigalrm_handler)\<rparr>"

lemma client3_returns: "fst (doClient 3 [2] 4 client3) = Ret ()"
  by code_simp

lemma client3_sends: "length (datagrams (trace (snd (doClient 3 [2] 4 client3)))) = 2"
  "got 4 (trace (snd (doClient 3 [2] 4 client3))) = [7, 8, 9]"
  by code_simp+

theorem doClient_sends_file_witness:
  "\<exists>ps. remdups_adj (datagrams (trace (snd (doClient 3 [2] 4 client3)))) = numbered_chunks ps \<and>
     concat ps = [7, 8, 9] \<and> length (datagrams (trace (snd (doClient 3 [2] 4 client3)))) = 2"
proof -
  have "trace client3 = []" by (simp add: client3_def idle_def)
  from doClient_sends_file [OF _ this, of 3 4 "[2]"] client3_returns client3_sends
  show ?thesis by (cases "doClient 3 [2] 4 client3") auto
qed

section \<open>Completion, and what happens after it\<close>


text \<open>The instance: one other client has a slot, and a chunk of three bytes is transferred.\<close>

definition other_client :: connections where
  "other_client = \<lparr>free_flag = 0, chunkNo = 4, con_addr = [9]\<rparr>"

definition free_slot :: connections where
  "free_slot = \<lparr>free_flag = 1, chunkNo = 0, con_addr = []\<rparr>"

definition table3 :: "connections list" where
  "table3 = [free_slot, other_client, free_slot, free_slot, free_slot]"

definition transfer3 :: transfer where
  "transfer3 = \<lparr>confirmed = 0, packets = {}, echoes = {}, table = table3, parts = [], complete = False\<rparr>"

lemma table3_ok: "con_ok table3"
  by (simp add: con_ok_def table3_def MAXADDR_def numeral_eq_Suc All_less_Suc other_client_def free_slot_def)

lemma table3_unknown: "progress_of [2] table3 = None" and table3_served: "served [2] table3"
  by (simp_all add: progress_of_def served_def con_holder_def table3_def MAXADDR_def numeral_eq_Suc
      other_client_def free_slot_def upt_rec exI [of _ 0])

lemma transfer3_init: "transfer_init [2] transfer3"
  using table3_ok table3_unknown by (simp add: transfer_init_def transfer3_def)

lemma chunks3: "file_chunks [7, 8, 9] = [[7, 8, 9]]"
  by (subst file_chunks.simps) (simp add: PAYLOAD_def MAXBUF_def)


theorem file_transfer_in_order_witness:
  "\<exists>s. (transfer_step [2] (messages [7, 8, 9]))\<^sup>*\<^sup>* transfer3 s \<and> packets s \<noteq> {} \<and>
    map (drop 8) (parts s) = [] \<and> \<not> complete s"
proof -
  let ?s = "transfer3\<lparr>packets := insert (messages [7, 8, 9] ! confirmed transfer3) (packets transfer3)\<rparr>"
  have "transfer_step [2] (messages [7, 8, 9]) transfer3 ?s"
    by (rule transfer_step.Send) (simp add: transfer3_def chunks3)
  then have steps: "(transfer_step [2] (messages [7, 8, 9]))\<^sup>*\<^sup>* transfer3 ?s" by blast
  have "length (parts ?s) = 0" by (simp add: transfer3_def)
  then show ?thesis
    using file_transfer_in_order [OF _ transfer3_init steps] steps
    by (intro exI [of _ ?s]) (simp add: chunks3)
qed



text \<open>
  The server prints an accepted payload with \<open>%s\<close> out of a buffer it does not
  terminate: for the datagrams of a file this reads past the end of the buffer exactly for
  the chunks that are full and hold no NUL byte, that is for every chunk but the last of a
  text file; for the others it prints the chunk up to its first NUL.
\<close>

theorem printing_a_chunk:
  assumes "length (file_chunks bs) < 2 ^ 31" "i < length (file_chunks bs)"
  shows "part_line (messages bs ! i) =
    (let c = file_chunks bs ! i in
     if length c = PAYLOAD \<and> 0 \<notin> set c then None
     else Some ((if Suc i = length (file_chunks bs) then str ''Last Part '' else str ''Part '') @
       fmt_d (int (Suc i)) @ [10] @ cstr c @ [10]))"
proof -
  let ?c = "file_chunks bs ! i"
  have len: "length ?c \<le> PAYLOAD" using file_chunks_lengths [OF assms(2)] by simp
  have pay: "drop 8 (messages bs ! i) = ?c @ replicate (PAYLOAD - length ?c) 0"
    using assms(2) by (simp add: messages_def Let_def chunk_payload_make)
  show ?thesis
    using len by (auto simp: part_line_def messages_nth [OF assms(2,1)] pay Let_def cstr_padding)
qed

theorem printing_a_chunk_witness:
  "part_line (messages [7, 8, 9] ! 0) = Some (str ''Last Part '' @ [49, 10, 7, 8, 9, 10])"
proof -
  have "fmt_d 1 = [49]" by code_simp
  then show ?thesis
    using printing_a_chunk [of "[7, 8, 9]" 0] by (simp add: chunks3 PAYLOAD_def MAXBUF_def cstr_def)
qed

end
