(* ===== verification/Codec.thy ===== *)
theory Codec
  imports Posix
begin

text \<open>
  The interface of a message format on a byte stream: an encoder for the messages a sender
  may send and a decoder that takes one message off a stream. The pipe and FIFO programs of
  \<open>Lab2_1\<close> and \<open>Lab2_1_Graded\<close> have four such formats; what a receiver needs (a whole
  conversation comes out as it went in, and no message is a prefix of another) is proved here
  once.
\<close>

locale codec =
  fixes valid :: "'m \<Rightarrow> bool"
    and encode :: "'m \<Rightarrow> byte list"
    and decode :: "byte list \<Rightarrow> ('m \<times> byte list) option"
  assumes decode_encode: "valid m \<Longrightarrow> decode (encode m @ rest) = Some (m, rest)"
begin

fun decode_all :: "nat \<Rightarrow> byte list \<Rightarrow> 'm list" where
  "decode_all 0 bs = []"
| "decode_all (Suc n) bs = (case decode bs of None \<Rightarrow> [] | Some (m, rest) \<Rightarrow> m # decode_all n rest)"

lemma conversation: "list_all valid ms \<Longrightarrow> decode_all (length ms) (concat (map encode ms) @ rest) = ms"
  by (induction ms) (simp_all add: decode_encode)

lemma encode_inj: "valid a \<Longrightarrow> valid b \<Longrightarrow> encode a @ r = encode b @ s \<Longrightarrow> a = b \<and> r = s"
  by (metis decode_encode option.inject prod.inject)

lemma prefix_free:
  assumes "valid a" "valid b" "prefix (encode a) (encode b)"
  shows "a = b"
proof -
  obtain zs where "encode b @ [] = encode a @ zs" using assms(3) by (auto simp: prefix_def)
  then show ?thesis using encode_inj [OF assms(2,1)] by blast
qed

end

end
