(* ===== verification/Fifo.thy ===== *)
theory Fifo
  imports Codec BulkIO
begin

text \<open>
  The FIFO programs \<open>prog21_c.c\<close>, \<open>prog21a_s.c\<close> and \<open>prog21b_s.c\<close> of \<open>Lab2_1\<close>: clients copy
  a file into a FIFO in records of PIPE_BUF bytes that carry the sender's process id, and a
  server prints the letters and digits of each record.
\<close>

definition PIPE_BUF :: nat where "PIPE_BUF = 4096"
definition MSG_SIZE :: nat where "MSG_SIZE = PIPE_BUF - 4"

section \<open>The client\<close>

text \<open>A record: the process id, the data, and zeros up to PIPE_BUF bytes.\<close>

definition fifo_record :: "32 word \<Rightarrow> byte list \<Rightarrow> byte list" where
  "fifo_record pid d = bytes32 pid @ d @ replicate (MSG_SIZE - length d) 0"

text \<open>
  \<open>cap\<close> is the size of the array \<open>buffer\<close>: reading or clearing up to the end of the record
  leaves the array when it is smaller than PIPE_BUF, which is undefined behaviour.
\<close>

definition write_to_fifo_body :: "nat \<Rightarrow> 32 word \<Rightarrow> int \<Rightarrow> int \<Rightarrow> unit \<Rightarrow> ('g, unit + unit) prog" where
  "write_to_fifo_body cap pid fifo file = (\<lambda>_.
     bind_m (sys_read file MSG_SIZE) (\<lambda>r.
     if r_val r < 0 then err_exit ''read''
     else if cap < PIPE_BUF then halt_m Undef
     else
       bind_m (if r_val r > 0 then
           bind_m (sys_write fifo (fifo_record pid (r_data r))) (\<lambda>s.
           if r_val s < 0 then err_exit ''write'' else ret ())
         else ret ()) (\<lambda>_.
       if r_val r = int MSG_SIZE then ret (Inl ()) else ret (Inr ()))))"

definition write_to_fifo :: "nat \<Rightarrow> int \<Rightarrow> int \<Rightarrow> ('g, unit) prog" where
  "write_to_fifo cap fifo file =
     bind_m (sys SYS_getpid [] [] any_ok) (\<lambda>p.
     loop_m (write_to_fifo_body cap (word_of_int (r_val p)) fifo file) ())"

definition usage_exit :: "byte list \<Rightarrow> byte list \<Rightarrow> ('g, 'a) prog" where
  "usage_exit name text = bind_m (eprintf (str ''USAGE: '' @ name @ text)) (\<lambda>_. halt_m (Exit 1))"

text \<open>Creating the FIFO; an existing one is used.\<close>

definition make_fifo :: "string \<Rightarrow> byte list \<Rightarrow> ('g, unit) prog" where
  "make_fifo msg path = bind_m (sys SYS_mkfifo [432] (cstr path) status_ok) (\<lambda>m.
     bind_m get_errno (\<lambda>e. if r_val m < 0 \<and> e \<noteq> EEXIST then err_exit msg else ret ()))"

definition O_RDONLY :: int where "O_RDONLY = 0"
definition O_WRONLY :: int where "O_WRONLY = 1"
definition O_RDWR :: int where "O_RDWR = 2"

definition open_or_exit :: "string \<Rightarrow> byte list \<Rightarrow> int \<Rightarrow> ('g, int) prog" where
  "open_or_exit msg path flags = bind_m (sys SYS_open [flags] (cstr path) fd_ok) (\<lambda>r.
     if r_val r < 0 then err_exit msg else ret (r_val r))"

definition close_or_exit :: "string \<Rightarrow> int \<Rightarrow> ('g, unit) prog" where
  "close_or_exit msg fd = bind_m (sys_close fd) (\<lambda>r. if r_val r < 0 then err_exit msg else ret ())"

definition prog21_c_main :: "byte list list \<Rightarrow> (unit, int) prog" where
  "prog21_c_main argv =
     bind_m (if length argv \<noteq> 3 then usage_exit (argv ! 0) (str '' fifo_file file'' @ [10]) else ret ()) (\<lambda>_.
     bind_m (make_fifo ''mkfifo'' (argv ! 1)) (\<lambda>_.
     bind_m (open_or_exit ''open - fifo'' (argv ! 1) O_WRONLY) (\<lambda>fifo.
     bind_m (open_or_exit ''open - file'' (argv ! 2) O_RDONLY) (\<lambda>file.
     bind_m (write_to_fifo (MSG_SIZE + 1) fifo file) (\<lambda>_.
     bind_m (close_or_exit ''close - fifo'' fifo) (\<lambda>_.
     bind_m (close_or_exit ''close - file'' file) (\<lambda>_.
     ret 0)))))))"

section \<open>The servers\<close>

text \<open>
  \<open>prog21a_s\<close> reads one byte at a time; \<open>isalnum\<close> of a negative \<open>char\<close> is undefined by the
  standard and false in glibc's C locale, which is what \<open>isalnum\<close> on bytes says.
\<close>

definition read_bytes_body :: "int \<Rightarrow> unit \<Rightarrow> ('g, unit + unit) prog" where
  "read_bytes_body fifo = (\<lambda>_.
     bind_m (sys_read fifo 1) (\<lambda>r.
     if r_val r < 0 then err_exit ''read''
     else bind_m (if r_val r > 0 \<and> isalnum (hd (r_data r)) then printf [hd (r_data r)] else ret ()) (\<lambda>_.
     if r_val r > 0 then ret (Inl ()) else ret (Inr ()))))"

definition read_bytes_from_fifo :: "int \<Rightarrow> ('g, unit) prog" where
  "read_bytes_from_fifo fifo = loop_m (read_bytes_body fifo) ()"

definition prog21a_s_main :: "byte list list \<Rightarrow> (unit, int) prog" where
  "prog21a_s_main argv =
     bind_m (if length argv \<noteq> 2 then usage_exit (argv ! 0) (str '' fifo_file'') else ret ()) (\<lambda>_.
     bind_m (make_fifo ''mkfifo'' (argv ! 1)) (\<lambda>_.
     bind_m (open_or_exit ''open'' (argv ! 1) O_RDONLY) (\<lambda>fifo.
     bind_m (read_bytes_from_fifo fifo) (\<lambda>_.
     bind_m (close_or_exit ''close'' fifo) (\<lambda>_. ret 0)))))"

text \<open>
  \<open>prog21b_s\<close> reads a record into a buffer (which keeps what an earlier, longer record left
  behind) and prints its process id and its letters and digits.
\<close>

definition record_text :: "byte list \<Rightarrow> byte list" where
  "record_text buffer =
     [10] @ str ''PID:'' @ fmt_d (sint (word32 buffer)) @ str ''-------------------------------------'' @ [10] @
     filter isalnum (drop 4 buffer)"

definition read_from_fifo_body :: "int \<Rightarrow> byte list \<Rightarrow> ('g, byte list + unit) prog" where
  "read_from_fifo_body fifo = (\<lambda>buffer.
     bind_m (sys_read fifo PIPE_BUF) (\<lambda>r.
     if r_val r < 0 then err_exit ''read''
     else if r_val r > 0 then
       let buffer = put_at 0 (r_data r) buffer in
       bind_m (printf (record_text buffer)) (\<lambda>_. ret (Inl buffer))
     else ret (Inr ())))"

definition read_from_fifo :: "byte list \<Rightarrow> int \<Rightarrow> ('g, unit) prog" where
  "read_from_fifo junk fifo = loop_m (read_from_fifo_body fifo) junk"

definition prog21b_s_main :: "byte list \<Rightarrow> byte list list \<Rightarrow> (unit, int) prog" where
  "prog21b_s_main junk argv =
     bind_m (if length argv \<noteq> 2 then usage_exit (argv ! 0) (str '' fifo_file'' @ [10]) else ret ()) (\<lambda>_.
     bind_m (make_fifo ''create fifo'' (argv ! 1)) (\<lambda>_.
     bind_m (open_or_exit ''open'' (argv ! 1) O_RDONLY) (\<lambda>fifo.
     bind_m (read_from_fifo junk fifo) (\<lambda>_.
     bind_m (close_or_exit ''close fifo:'' fifo) (\<lambda>_.
     bind_m (sys SYS_unlink [] (cstr (argv ! 1)) status_ok) (\<lambda>u.
     if r_val u < 0 then err_exit ''remove fifo:'' else ret 0))))))"

section \<open>Records\<close>

fun payload1 :: "int \<Rightarrow> event \<Rightarrow> byte list list" where
  "payload1 fd (Sys n args p r) = (if n = SYS_write \<and> args = [fd] then [p] else [])"
| "payload1 fd _ = []"

text \<open>The buffers handed to \<open>write\<close> on a descriptor.\<close>

definition payloads :: "int \<Rightarrow> event list \<Rightarrow> byte list list" where
  "payloads fd tr = concat (map (payload1 fd) tr)"

lemma payloads_simps [simp]:
  "payloads fd [] = []" "payloads fd (xs @ ys) = payloads fd xs @ payloads fd ys"
  "payloads fd (e # xs) = payload1 fd e @ payloads fd xs"
  by (simp_all add: payloads_def)

lemma payloads_outs [simp]: "payloads fd (map Out outs) = []"
  by (induction outs) simp_all

lemma sys_post_payloads:
  "sys_post n args p r w w1 \<Longrightarrow>
   payloads fd (trace w1) = payloads fd (trace w) @ (if n = SYS_write \<and> args = [fd] then [p] else [])"
  by (auto simp: sys_post_def outs_after_def)

lemma sys_halt_payloads: "sys_halt w h w1 \<Longrightarrow> payloads fd (trace w1) = payloads fd (trace w)"
  by (auto simp: sys_halt_def outs_after_def)

text \<open>The rule for programs that read one descriptor (\<open>rd\<close>) and write another (\<open>wr\<close>).\<close>

lemma wp_sys_copy:
  assumes "\<And>r w1. good r \<Longrightarrow>
      payloads wr (trace w1) = payloads wr (trace w) @ (if n = SYS_write \<and> args = [wr] then [p] else []) \<Longrightarrow>
      got rd (trace w1) = got rd (trace w) @ got1 rd (Sys n args p r) \<Longrightarrow>
      length (script w1) < length (script w) \<Longrightarrow> Q r w1"
    and "\<And>h w1. payloads wr (trace w1) = payloads wr (trace w) \<Longrightarrow>
      got rd (trace w1) = got rd (trace w) \<Longrightarrow> h = Blocked \<or> (\<exists>s. h = Killed s) \<Longrightarrow> E h w1"
  shows "wp (sys n args p good) Q E w"
proof (rule wp_sys)
  fix r w1 assume g: "good r" and post: "sys_post n args p r w w1"
  show "Q r w1"
    by (rule assms(1) [OF g sys_post_payloads [OF post] sys_post_traces(2) [OF post] sys_post_shorter [OF post]])
next
  fix h w1 assume h: "sys_halt w h w1"
  then show "E h w1"
    by (intro assms(2) sys_halt_payloads [OF h] sys_halt_traces(2) [OF h]) (auto simp: sys_halt_def)
qed

text \<open>What the client has written for what it has read: one record for each non-empty read.\<close>

definition copied :: "32 word \<Rightarrow> int \<Rightarrow> int \<Rightarrow> byte list list \<Rightarrow> byte list list \<Rightarrow> 'g world \<Rightarrow> 'g world \<Rightarrow> bool" where
  "copied pid fifo file ds es w v \<longleftrightarrow>
     payloads fifo (trace v) = payloads fifo (trace w) @ map (fifo_record pid) ds \<and>
     got file (trace v) = got file (trace w) @ concat es \<and>
     (\<forall>d \<in> set es. d \<noteq> [] \<and> length d \<le> MSG_SIZE)"

lemma copied_refl: "copied pid fifo file [] [] w w"
  by (simp add: copied_def)

lemma copied_perror [simp]:
  "copied pid fifo file ds es w (v\<lparr>trace := trace v @ [Perror s e]\<rparr>) = copied pid fifo file ds es w v"
  by (simp add: copied_def)

definition copy_stopped :: "32 word \<Rightarrow> int \<Rightarrow> int \<Rightarrow> 'g world \<Rightarrow> 'g world \<Rightarrow> bool" where
  "copy_stopped pid fifo file w v \<longleftrightarrow>
     (\<exists>ds es. copied pid fifo file ds es w v \<and> prefix ds es \<and> length es \<le> Suc (length ds))"

lemma copy_stopped_perror [simp]:
  "copy_stopped pid fifo file w (v\<lparr>trace := trace v @ [Perror s e]\<rparr>) = copy_stopped pid fifo file w v"
  by (simp add: copy_stopped_def)





text \<open>
  The array the client really declares has MSG_SIZE + 1 bytes, three too few for
  a record: the client never returns and never writes a record, since it leaves the array as
  soon as a read has succeeded.
\<close>

theorem prog21_c_overflows:
  "case write_to_fifo (MSG_SIZE + 1) fifo file w of
      (Ret _, w1) \<Rightarrow> False
    | (Halt h, w1) \<Rightarrow> payloads fifo (trace w1) = payloads fifo (trace w) \<and>
        (h = Undef \<or> h = Exit 1 \<or> h = Blocked \<or> (\<exists>s. h = Killed s))"
proof -
  let ?E = "\<lambda>h w1. payloads fifo (trace w1) = payloads fifo (trace w) \<and>
        (h = Undef \<or> h = Exit 1 \<or> h = Blocked \<or> (\<exists>s. h = Killed s))"
  have body: "wp (write_to_fifo_body (MSG_SIZE + 1) pid fifo file s) (\<lambda>_ _. False) ?E v"
    if "payloads fifo (trace v) = payloads fifo (trace w)" for pid s v
    unfolding write_to_fifo_body_def sys_read_def wp_bind [of "sys _ _ _ _"]
    by (rule wp_sys_copy [where wr = fifo])
      (use that in \<open>auto simp: wp_rules MSG_SIZE_def PIPE_BUF_def\<close>)
  have "wp (loop_m (write_to_fifo_body (MSG_SIZE + 1) pid fifo file) ()) (\<lambda>_ _. False) ?E v"
    if "payloads fifo (trace v) = payloads fifo (trace w)" for pid v
    by (rule wp_loop [where I = "\<lambda>_ v. payloads fifo (trace v) = payloads fifo (trace w)"])
      (use that body in \<open>auto intro: wp_mono\<close>)
  then have "wp (write_to_fifo (MSG_SIZE + 1) fifo file) (\<lambda>_ _. False) ?E w"
    unfolding write_to_fifo_def wp_bind by (intro wp_sys_copy [where wr = fifo]) auto
  then show ?thesis by (auto simp: wp_def split: prod.splits outcome.splits)
qed




section \<open>What the server prints\<close>

definition record_header :: "32 word \<Rightarrow> byte list" where
  "record_header pid =
     [10] @ str ''PID:'' @ fmt_d (sint pid) @ str ''-------------------------------------'' @ [10]"

lemma record_text_record: "record_text (fifo_record pid d) = record_header pid @ filter isalnum d"
  by (simp add: record_text_def fifo_record_def record_header_def)

lemma length_fifo_record: "length d \<le> MSG_SIZE \<Longrightarrow> length (fifo_record pid d) = PIPE_BUF"
  by (simp add: fifo_record_def MSG_SIZE_def PIPE_BUF_def)

lemma read_from_fifo_records:
  assumes "script w = map data_reply recs @ ok_reply 0 # rest" "\<forall>r \<in> set recs. length r = PIPE_BUF"
    and "length buffer \<le> PIPE_BUF"
  shows "\<exists>w1. loop_m (read_from_fifo_body fifo) buffer w = (Ret (), w1) \<and> script w1 = rest \<and>
    printed (trace w1) = printed (trace w) @ concat (map record_text recs)"
  using assms
proof (induction recs arbitrary: w buffer)
  case Nil
  then have s: "script w = ok_reply 0 # rest" by simp
  have "read_from_fifo_body fifo buffer w = (Ret (Inr ()), adv SYS_read [fifo] [] (ok_reply 0) w)"
    by (simp add: read_from_fifo_body_def sys_read_def bind_m_def sys_quiet [OF s] in_ok_def
        ok_reply_def ret_def)
  then show ?case using s by (simp add: loop_m.simps [of _ _ w])
next
  case (Cons r recs)
  have s: "script w = data_reply r # map data_reply recs @ ok_reply 0 # rest" using Cons.prems by simp
  have r: "length r = PIPE_BUF" "r \<noteq> []" "0 < PIPE_BUF" using Cons.prems by (auto simp: PIPE_BUF_def)
  then have buf: "put_at 0 r buffer = r" using Cons.prems(3) by (simp add: put_at_def)
  let ?w = "adv SYS_read [fifo] [] (data_reply r) w"
  have "read_from_fifo_body fifo buffer w = (Ret (Inl r), ?w\<lparr>trace := trace ?w @ [Out (record_text r)]\<rparr>)"
    using r buf by (simp add: read_from_fifo_body_def sys_read_def bind_m_def sys_quiet [OF s] in_ok_def
        data_reply_def ret_def printf_def)
  then show ?case
    using Cons.IH [of "?w\<lparr>trace := trace ?w @ [Out (record_text r)]\<rparr>" r] Cons.prems r s
    by (auto simp: loop_m.simps [of _ _ w])
qed

text \<open>
  Property C32. The FIFO server, given the records of any number of clients in any order,
  prints for each record a header with the sender's process id and then exactly the letters
  and digits of the data, in order; the padding prints nothing.
\<close>

theorem read_from_fifo_prints:
  assumes "script w = map (\<lambda>(pid, d). data_reply (fifo_record pid d)) rs @ ok_reply 0 # rest"
    and "\<forall>(pid, d) \<in> set rs. length d \<le> MSG_SIZE" "length junk = PIPE_BUF"
  shows "\<exists>w1. read_from_fifo junk fifo w = (Ret (), w1) \<and>
    printed (trace w1) = printed (trace w) @
      concat (map (\<lambda>(pid, d). record_header pid @ filter isalnum d) rs)"
proof -
  let ?recs = "map (\<lambda>(pid, d). fifo_record pid d) rs"
  have "script w = map data_reply ?recs @ ok_reply 0 # rest" using assms(1) by (simp add: comp_def case_prod_beta)
  moreover have "\<forall>r \<in> set ?recs. length r = PIPE_BUF" using assms(2) length_fifo_record by fastforce
  moreover have "concat (map record_text ?recs) = concat (map (\<lambda>(pid, d). record_header pid @ filter isalnum d) rs)"
    by (rule arg_cong [where f = concat]) (auto simp: record_text_record)
  ultimately show ?thesis
    using read_from_fifo_records [of w ?recs rest junk fifo] assms(3)
    unfolding read_from_fifo_def by (metis order_refl)
qed

theorem read_from_fifo_prints_witness:
  "\<exists>w1. read_from_fifo (replicate PIPE_BUF 1) 3
      (idle [data_reply (fifo_record 5 [104, 32, 49]), ok_reply 0] ()) = (Ret (), w1) \<and>
    printed (trace w1) = record_header 5 @ [104, 49]"
proof -
  have s: "script (idle [data_reply (fifo_record 5 [104, 32, 49]), ok_reply 0] () :: unit world) =
      map (\<lambda>(pid, d). data_reply (fifo_record pid d)) [(5, [104, 32, 49])] @ ok_reply 0 # []"
    and t: "trace (idle [data_reply (fifo_record 5 [104, 32, 49]), ok_reply 0] () :: unit world) = []"
    by (simp_all add: idle_def)
  have "filter isalnum [104, 32, 49] = [104, 49]" by code_simp
  then show ?thesis
    using read_from_fifo_prints [OF s, of "replicate PIPE_BUF 1" 3] t
    by (simp add: MSG_SIZE_def PIPE_BUF_def)
qed

text \<open>Full records are an instance of the message format interface.\<close>

definition record_valid :: "32 word \<times> byte list \<Rightarrow> bool" where
  "record_valid m \<longleftrightarrow> length (snd m) = MSG_SIZE"

definition record_decode :: "byte list \<Rightarrow> ((32 word \<times> byte list) \<times> byte list) option" where
  "record_decode bs = (if length bs < PIPE_BUF then None
     else Some ((word32 bs, take MSG_SIZE (drop 4 bs)), drop PIPE_BUF bs))"

interpretation fifo_codec: codec record_valid "\<lambda>(pid, d). fifo_record pid d" record_decode
  by unfold_locales
    (auto simp: record_valid_def record_decode_def fifo_record_def MSG_SIZE_def PIPE_BUF_def)

end
