(* ===== verification/PipeGame.thy ===== *)
theory PipeGame
  imports Fifo Sockets
begin

text \<open>
  \<open>Lab2_1/test.c\<close>: two processes joined by two pipes pass a string back and forth, each
  removing one random character before it sends the string on, until it is empty. A message
  is a length byte and the characters.
\<close>

definition BUF_SIZE :: nat where "BUF_SIZE = 200"

section \<open>Messages\<close>

text \<open>
  \<open>write_to_pipe\<close>: \<open>strcat\<close> appends at the end of the string that is in \<open>buf\<close>, which is
  after the length byte, or at the start when that byte is 0. Text and terminator must fit
  the BUF_SIZE + 1 bytes of the array.
\<close>

definition frame :: "byte list \<Rightarrow> byte list" where
  "frame s = (let c = of_nat (length s) :: byte in
     take (unat c + 1) ((if c = 0 then s else c # s) @ replicate (BUF_SIZE + 1) 0))"

definition frame_overflows :: "byte list \<Rightarrow> bool" where
  "frame_overflows s \<longleftrightarrow>
     (if (of_nat (length s) :: byte) = 0 then 0 else 1) + length s + 1 > BUF_SIZE + 1"

definition write_to_pipe :: "int \<Rightarrow> byte list \<Rightarrow> ('g, int) prog" where
  "write_to_pipe fd message =
     (if frame_overflows (cstr message) then halt_m Undef
      else bind_m (retry (sys_write fd (frame (cstr message)))) (\<lambda>r.
        if r_val r < 0 then bind_m get_errno (\<lambda>e.
          if e = EPIPE then ret 1 else err_exit ''write'')
        else ret 0))"

text \<open>
  \<open>read_from_pipe\<close> clears the BUF_SIZE bytes of \<open>outbuf\<close>, reads the length byte (a read
  that is not retried) and then that many characters in one read. A text that fills the array
  is printed past its end.
\<close>

definition read_from_pipe :: "int \<Rightarrow> ('g, int \<times> byte list) prog" where
  "read_from_pipe fd =
     bind_m (sys_read fd 1) (\<lambda>r.
     if r_val r < 0 then err_exit ''read''
     else if r_val r = 0 then ret (1, replicate BUF_SIZE 0)
     else
       let c = unat (hd (r_data r)) in
       bind_m (retry (sys_read fd c)) (\<lambda>s.
       if r_val s < int c then err_exit ''read''
       else
         let outbuf = put_at 0 (stored s) (replicate BUF_SIZE 0) in
         if length (stored s) > BUF_SIZE \<or> 0 \<notin> set outbuf then halt_m Undef
         else bind_m (printf (cstr outbuf @ [10])) (\<lambda>_. ret (0, outbuf))))"

section \<open>The game\<close>

text \<open>The loop of \<open>rm_rand_char\<close> moves the characters after position \<open>r\<close> one place down.\<close>

definition shift_down :: "nat \<Rightarrow> nat \<Rightarrow> byte list \<Rightarrow> byte list" where
  "shift_down r l buf = (fold (\<lambda>c b. b[c - 1 := b ! c]) [Suc r..<l] (buf[r := 0]))[l - 1 := 0]"

definition rm_rand_char :: "byte list \<Rightarrow> ('g, byte list) prog" where
  "rm_rand_char buf = bind_m rand_m (\<lambda>x.
     ret (shift_down (nat x mod strlen buf) (strlen buf) buf))"

definition work :: "int \<Rightarrow> int \<Rightarrow> ('g, int) prog" where
  "work rd wr =
     bind_m (read_from_pipe rd) (\<lambda>(status, buffer).
     if status = 1 then ret 0
     else if strlen buffer = 0 then ret 0
     else bind_m (rm_rand_char buffer) (\<lambda>buffer.
     bind_m (write_to_pipe wr buffer) (\<lambda>status.
     if status = 1 then ret 0 else ret 1)))"

definition work_loop :: "int \<Rightarrow> int \<Rightarrow> ('g, unit) prog" where
  "work_loop rd wr = loop_m (\<lambda>_. bind_m (work rd wr) (\<lambda>go. if go \<noteq> 0 then ret (Inl ()) else ret (Inr ()))) ()"

definition usage_game :: "byte list \<Rightarrow> ('g, 'a) prog" where
  "usage_game name = usage_exit name (str '' <string up to '' @ fmt_d (int BUF_SIZE) @ str '' chars>'' @ [10])"

text \<open>\<open>pipe\<close> stores the two descriptors; \<open>srand(time(NULL)*getpid())\<close> seeds the generator.\<close>

definition pipe_ok :: "reply \<Rightarrow> bool" where
  "pipe_ok r \<longleftrightarrow> r_val r = -1 \<or> (r_val r = 0 \<and> length (r_vals r) = 2)"

definition sys_pipe :: "('g, reply) prog" where
  "sys_pipe = sys SYS_pipe [] [] pipe_ok"

definition seed :: "('g, unit) prog" where
  "seed = bind_m (sys SYS_time [] [] any_ok) (\<lambda>_. bind_m (sys SYS_getpid [] [] any_ok) (\<lambda>_.
     bind_m (sys SYS_srand [] [] any_ok) (\<lambda>_. ret ())))"

text \<open>\<open>while (wait(NULL) > 0);\<close>\<close>

definition wait_all :: "('g, unit) prog" where
  "wait_all = loop_m (\<lambda>_. bind_m (sys SYS_wait [] [] fd_ok) (\<lambda>r.
     if r_val r > 0 then ret (Inl ()) else ret (Inr ()))) ()"

definition game_main :: "byte list list \<Rightarrow> (unit, int) prog" where
  "game_main argv =
     bind_m (sethandler SIG_IGN SIGPIPE) (\<lambda>a. if a \<noteq> 0 then err_exit ''sethandler'' else
     bind_m (if length argv \<noteq> 2 then usage_game (argv ! 0) else ret ()) (\<lambda>_.
     bind_m (if strlen (argv ! 1) > BUF_SIZE then usage_game (argv ! 0) else ret ()) (\<lambda>_.
     bind_m sys_pipe (\<lambda>p1. if r_val p1 \<noteq> 0 then err_exit ''pipe'' else
     bind_m sys_pipe (\<lambda>p2. if r_val p2 \<noteq> 0 then err_exit ''pipe'' else
     bind_m (sys SYS_fork [] [] fd_ok) (\<lambda>f.
     if r_val f = 0 then
       bind_m (sys_close (r_vals p1 ! 1)) (\<lambda>_. bind_m (sys_close (r_vals p2 ! 0)) (\<lambda>_.
       bind_m seed (\<lambda>_.
       bind_m (work_loop (r_vals p1 ! 0) (r_vals p2 ! 1)) (\<lambda>_.
       bind_m (sys_close (r_vals p1 ! 0)) (\<lambda>_. bind_m (sys_close (r_vals p2 ! 1)) (\<lambda>_.
       halt_m (Exit 0)))))))
     else if r_val f = -1 then err_exit ''fork''
     else
       bind_m (sys_close (r_vals p1 ! 0)) (\<lambda>_. bind_m (sys_close (r_vals p2 ! 1)) (\<lambda>_.
       bind_m seed (\<lambda>_.
       bind_m (write_to_pipe (r_vals p1 ! 1) (argv ! 1)) (\<lambda>_.
       bind_m (work_loop (r_vals p2 ! 0) (r_vals p1 ! 1)) (\<lambda>_.
       bind_m (sys_close (r_vals p2 ! 0)) (\<lambda>_. bind_m (sys_close (r_vals p1 ! 1)) (\<lambda>_.
       bind_m wait_all (\<lambda>_. ret 0))))))))))))))"

section \<open>Removing a character\<close>

lemma shift_fold:
  "Suc r \<le> k \<Longrightarrow> k \<le> length b \<Longrightarrow>
   fold (\<lambda>c b. b[c - 1 := b ! c]) [Suc r..<k] b = take r b @ take (k - Suc r) (drop (Suc r) b) @ drop (k - 1) b"
proof (induction k)
  case 0
  then show ?case by simp
next
  case (Suc k)
  show ?case
  proof (cases "k = r")
    case True
    then show ?thesis using Suc.prems by simp
  next
    case False
    then have k: "Suc r \<le> k" "k < length b" using Suc.prems by auto
    let ?b = "take r b @ take (k - Suc r) (drop (Suc r) b) @ drop (k - 1) b"
    have len: "length (take r b @ take (k - Suc r) (drop (Suc r) b)) = k - 1" using k by simp
    have "drop (k - 1) b = b ! (k - 1) # drop k b"
      using k by (metis Cons_nth_drop_Suc Suc_diff_1 Suc_le_lessD less_imp_diff_less zero_less_Suc less_le_trans)
    then have "?b[k - 1 := b ! k] = (take r b @ take (k - Suc r) (drop (Suc r) b)) @ b ! k # drop k b"
      using len by (metis append_assoc list_update_length)
    moreover have "?b ! k = b ! k"
      using k len by (auto simp: nth_append)
    moreover have "take (Suc k - Suc r) (drop (Suc r) b) = take (k - Suc r) (drop (Suc r) b) @ [b ! k]"
    proof -
      obtain m where m: "k = Suc r + m" using k(1) by (metis le_iff_add)
      then show ?thesis using k(2) by (simp add: take_Suc_conv_app_nth)
    qed
    ultimately show ?thesis using Suc.IH k by simp
  qed
qed

text \<open>On a terminated string it removes exactly the character at position \<open>r\<close>.\<close>

lemma shift_down_removes:
  assumes "0 \<notin> set s" "r < length s" "buf = s @ 0 # rest"
  shows "cstr (shift_down r (length s) buf) = take r s @ drop (Suc r) s"
    and "0 \<in> set (shift_down r (length s) buf)"
proof -
  let ?b = "buf[r := 0]" and ?l = "length s"
  have l: "Suc r \<le> ?l" "?l \<le> length ?b" using assms by auto
  have mid: "take (?l - Suc r) (drop (Suc r) ?b) = drop (Suc r) s" using assms by simp
  have pre: "take r ?b = take r s" using assms by simp
  have len: "length (take r s @ drop (Suc r) s) = ?l - 1" using assms(2) by auto
  obtain x xs where tl: "drop (?l - 1) ?b = x # xs"
    using l by (cases "drop (?l - 1) ?b") auto
  have sd: "shift_down r ?l buf = (take r s @ drop (Suc r) s) @ 0 # xs"
    unfolding shift_down_def shift_fold [OF l] mid pre tl
    using len by (metis append_assoc list_update_length)
  have "0 \<notin> set (take r s @ drop (Suc r) s)"
    using assms(1) by (auto dest: in_set_takeD in_set_dropD)
  then show "cstr (shift_down r ?l buf) = take r s @ drop (Suc r) s"
    unfolding sd by (rule cstr_append_nul)
  show "0 \<in> set (shift_down r ?l buf)" unfolding sd by simp
qed

section \<open>What one turn does\<close>

text \<open>The messages that fit: at most BUF_SIZE - 1 characters, none of them NUL.\<close>

definition game_valid :: "byte list \<Rightarrow> bool" where
  "game_valid s \<longleftrightarrow> 0 \<notin> set s \<and> length s < BUF_SIZE"

lemma unat_length: "game_valid s \<Longrightarrow> unat (of_nat (length s) :: byte) = length s"
  by (simp add: game_valid_def BUF_SIZE_def unat_of_nat)

lemma length_byte_zero: "game_valid s \<Longrightarrow> (of_nat (length s) :: byte) = 0 \<longleftrightarrow> s = []"
proof
  assume v: "game_valid s" and z: "(of_nat (length s) :: byte) = 0"
  have "length s = unat (0 :: byte)" using unat_length [OF v] z by simp
  then show "s = []" by simp
qed simp

lemma frame_valid: "game_valid s \<Longrightarrow> frame s = of_nat (length s) # s"
proof (cases "s = []")
  case True
  then show ?thesis by (simp add: frame_def)
next
  case False
  assume v: "game_valid s"
  then have "(of_nat (length s) :: byte) \<noteq> 0" using False length_byte_zero by blast
  then show ?thesis by (simp add: frame_def Let_def unat_length [OF v])
qed

lemma frame_fits: "game_valid s \<Longrightarrow> \<not> frame_overflows s"
  by (auto simp: frame_overflows_def length_byte_zero) (simp add: game_valid_def)

fun game_decode :: "byte list \<Rightarrow> (byte list \<times> byte list) option" where
  "game_decode [] = None"
| "game_decode (c # bs) = (if length bs < unat c then None else Some (take (unat c) bs, drop (unat c) bs))"

interpretation game_codec: codec game_valid frame game_decode
  by unfold_locales (simp add: frame_valid unat_length)

text \<open>The replies a process gets when the frame of \<open>s\<close> is in the pipe.\<close>

definition delivers :: "byte list \<Rightarrow> reply list" where
  "delivers s = [data_reply [of_nat (length s)], data_reply s]"

lemma read_from_pipe_gets:
  assumes "game_valid s" "script w = delivers s @ rest"
  shows "\<exists>w1. read_from_pipe rd w = (Ret (0, s @ replicate (BUF_SIZE - length s) 0), w1) \<and>
    script w1 = rest \<and> printed (trace w1) = printed (trace w) @ s @ [10] \<and>
    sent wr (trace w1) = sent wr (trace w)"
proof -
  have s: "script w = data_reply [of_nat (length s)] # data_reply s # rest"
    using assms(2) by (simp add: delivers_def)
  let ?w = "adv SYS_read [rd] [] (data_reply [of_nat (length s)]) w"
  let ?v = "adv SYS_read [rd] [] (data_reply s) ?w"
  have s1: "script ?w = data_reply s # rest" using s by simp
  have len: "length s < BUF_SIZE" "0 \<notin> set s" using assms(1) by (auto simp: game_valid_def)
  have one: "sys SYS_read [rd] [] (in_ok 1) w = (Ret (data_reply [of_nat (length s)]), ?w)"
    by (rule sys_quiet [OF s]) (simp_all add: in_ok_def data_reply_def)
  have two: "retry (sys SYS_read [rd] [] (in_ok (length s))) ?w = (Ret (data_reply s), ?v)"
    by (rule retry_returns [OF s1]) (simp_all add: in_ok_def data_reply_def)
  have buf: "put_at 0 (stored (data_reply s)) (replicate BUF_SIZE 0) = s @ replicate (BUF_SIZE - length s) 0"
    by (cases s) (simp_all add: put_at_def stored_def data_reply_def)
  have "length (stored (data_reply s)) \<le> BUF_SIZE" using len by (simp add: stored_def data_reply_def)
  moreover have "0 \<in> set (s @ replicate (BUF_SIZE - length s) 0)" using len by simp
  ultimately show ?thesis
    using one two buf len s1 unat_length [OF assms(1)]
    by (simp add: read_from_pipe_def sys_read_def bind_m_def ret_def printf_def cstr_padding
        data_reply_def [of "[_]"] Let_def) (simp add: data_reply_def)
qed

lemma write_to_pipe_sends:
  assumes "game_valid s" "cstr buf = s" "script w = ok_reply (int (length s) + 1) # rest"
  shows "\<exists>w1. write_to_pipe wr buf w = (Ret 0, w1) \<and> script w1 = rest \<and>
    printed (trace w1) = printed (trace w) \<and> sent wr (trace w1) = sent wr (trace w) @ frame s"
proof -
  have "retry (sys SYS_write [wr] (frame s) (out_ok (length (frame s)))) w =
      (Ret (ok_reply (int (length s) + 1)), adv SYS_write [wr] (frame s) (ok_reply (int (length s) + 1)) w)"
    by (rule retry_returns [OF assms(3)]) (simp_all add: out_ok_def ok_reply_def frame_valid [OF assms(1)])
  then show ?thesis
    using assms by (simp add: write_to_pipe_def frame_fits sys_write_def bind_m_def ret_def ok_reply_def
        frame_valid nat_add_distrib)
qed

text \<open>
  Property C30. One turn of the game: a process that is sent a non-empty text prints it,
  removes exactly one character (the one the generator chose), and sends the rest on in the
  format it reads; a process that is sent the empty text prints an empty line and ends.
\<close>

theorem work_turn:
  assumes "game_valid s" "0 \<le> x" "x \<le> 2147483647"
    and "script w = delivers s @ (if s = [] then [] else [ok_reply x, ok_reply (int (length s))]) @ rest"
  shows "\<exists>w1. work rd wr w = (Ret (if s = [] then 0 else 1), w1) \<and> script w1 = rest \<and>
    printed (trace w1) = printed (trace w) @ s @ [10] \<and>
    (let r = nat x mod length s in
     sent wr (trace w1) = sent wr (trace w) @
       (if s = [] then [] else frame (take r s @ drop (Suc r) s)))"
proof -
  let ?buf = "s @ replicate (BUF_SIZE - length s) 0"
  obtain w1 where w1: "read_from_pipe rd w = (Ret (0, ?buf), w1)"
    "script w1 = (if s = [] then [] else [ok_reply x, ok_reply (int (length s))]) @ rest"
    "printed (trace w1) = printed (trace w) @ s @ [10]" "sent wr (trace w1) = sent wr (trace w)"
    using read_from_pipe_gets [OF assms(1,4)] by blast
  have v: "0 \<notin> set s" "length s < BUF_SIZE" using assms(1) by (auto simp: game_valid_def)
  then have l: "strlen ?buf = length s" by (simp add: strlen_def cstr_padding)
  show ?thesis
  proof (cases "s = []")
    case True
    then show ?thesis using w1 l by (simp add: work_def bind_m_def ret_def)
  next
    case False
    let ?r = "nat x mod length s"
    let ?t = "take ?r s @ drop (Suc ?r) s"
    have r: "?r < length s" using False by simp
    obtain m where m: "BUF_SIZE - length s = Suc m" using v(2) by (cases "BUF_SIZE - length s") auto
    have t: "cstr (shift_down ?r (length s) ?buf) = ?t"
      using shift_down_removes(1) [OF v(1) r, of ?buf] m by simp
    have valid: "game_valid ?t" using v r by (auto simp: game_valid_def dest: in_set_takeD in_set_dropD)
    have len: "int (length ?t) + 1 = int (length s)" using r by auto
    let ?w2 = "adv SYS_rand [] [] (ok_reply x) w1"
    have "rand_m w1 = (Ret x, ?w2)"
      using w1(2) False assms(2,3)
      by (simp add: rand_m_def bind_m_def sys_quiet rand_ok_def ok_reply_def ret_def)
    then have rm: "rm_rand_char ?buf w1 = (Ret (shift_down ?r (length s) ?buf), ?w2)"
      by (simp add: rm_rand_char_def bind_m_def ret_def l)
    have "script ?w2 = ok_reply (int (length ?t) + 1) # rest" using w1(2) False len by simp
    from write_to_pipe_sends [OF valid t this, of wr] obtain w3 where
      "write_to_pipe wr (shift_down ?r (length s) ?buf) ?w2 = (Ret 0, w3)" "script w3 = rest"
      "printed (trace w3) = printed (trace w1)" "sent wr (trace w3) = sent wr (trace w1) @ frame ?t"
      by auto
    then show ?thesis using w1 l rm False by (simp add: work_def bind_m_def ret_def Let_def)
  qed
qed

theorem work_turn_witness:
  "\<exists>w1. work 3 4 (idle ([data_reply [2], data_reply [65, 66]] @ [ok_reply 7, ok_reply 2]) ()) = (Ret 1, w1) \<and>
     sent 4 (trace w1) = frame [65]"
proof -
  have v: "game_valid [65, 66]" by (simp add: game_valid_def BUF_SIZE_def)
  have "script (idle ([data_reply [2], data_reply [65, 66]] @ [ok_reply 7, ok_reply 2]) () :: unit world) =
      delivers [65, 66] @ (if [65, 66 :: byte] = [] then [] else
        [ok_reply 7, ok_reply (int (length [65, 66 :: byte]))]) @ []"
    by (simp add: idle_def delivers_def)
  moreover have "nat 7 mod length [65, 66 :: byte] = 1" by (simp add: mod_Suc eval_nat_numeral)
  ultimately show ?thesis
    using work_turn [OF v, of 7 _ "[]" 3 4] by (fastforce simp: idle_def Let_def simp del: list.size)
qed

text \<open>
  A text of BUF_SIZE characters, which the program accepts on its command line,
  does not fit: writing it with its length byte leaves the array, and so does printing it.
\<close>

theorem longest_text_overflows:
  assumes "length s = BUF_SIZE" "0 \<notin> set s"
  shows "write_to_pipe fd (s @ 0 # rest) w = (Halt Undef, w) \<and>
    \<not> strlen (s @ 0 # rest) > BUF_SIZE"
proof -
  have "(of_nat BUF_SIZE :: byte) \<noteq> 0" by (simp add: BUF_SIZE_def)
  then show ?thesis
    using assms by (simp add: write_to_pipe_def frame_overflows_def halt_m_def strlen_def)
qed

theorem longest_text_overflows_witness:
  "write_to_pipe 4 (replicate 200 97 @ [0]) (idle [] ()) = (Halt Undef, idle [] ())"
  using longest_text_overflows [of "replicate 200 97" 4 "[]" "idle [] ()"] by (simp add: BUF_SIZE_def)

end
