(* ===== verification/RingGame.thy ===== *)
theory RingGame
  imports PipeGame
begin

text \<open>
  \<open>Lab2_1/test2.c\<close>: CORNERS processes joined by pipes to a ring pass a number around, each
  changing it at random; \<open>Lab2_1_Graded/prog.c\<close>: children send numbers to their parent
  through a FIFO. A message is a length byte and the decimal digits; in the second program
  the index of the sender stands between the two.
\<close>

definition CORNERS :: nat where "CORNERS = 3"
definition SAFETY_BOUND :: int where "SAFETY_BOUND = 1000000"

section \<open>Messages of the ring\<close>

definition int_frame :: "int \<Rightarrow> byte list" where
  "int_frame v = (let ds = fmt_d v in of_nat (length ds) # ds)"

definition ring_write_to_pipe :: "int \<Rightarrow> int \<Rightarrow> ('g, int) prog" where
  "ring_write_to_pipe fd message =
     bind_m (retry (sys_write fd (int_frame message))) (\<lambda>r.
     if r_val r < 0 then bind_m get_errno (\<lambda>e. if e = EPIPE then ret 1 else err_kill ''write'')
     else ret 0)"

text \<open>
  The text is read into BUF_SIZE + 1 cleared bytes; the result is the status and the new value
  of the variable.
\<close>

definition ring_read_from_pipe :: "int \<Rightarrow> int \<Rightarrow> ('g, int \<times> int) prog" where
  "ring_read_from_pipe fd val =
     bind_m (sys_read fd 1) (\<lambda>r.
     if r_val r < 0 then err_kill ''read''
     else if r_val r = 0 then ret (1, val)
     else
       bind_m (retry (sys_read fd (unat (hd (r_data r))))) (\<lambda>s.
       if r_val s < 0 then err_kill ''read''
       else
         let buffer = put_at 0 (stored s) (replicate (BUF_SIZE + 1) 0) in
         if 0 \<notin> set buffer \<or> length buffer > BUF_SIZE + 1 then halt_m Undef
         else ret (0, atoi buffer)))"

definition getpid :: "('g, int) prog" where
  "getpid = bind_m (sys SYS_getpid [] [] any_ok) (\<lambda>r. ret (r_val r))"

definition vary_int :: "int \<Rightarrow> int \<Rightarrow> int \<Rightarrow> ('g, int) prog" where
  "vary_int val lower_bound upper_bound =
     bind_m rand_m (\<lambda>x.
     case c_mod x (upper_bound - lower_bound + 1) of
       None \<Rightarrow> halt_m Undef
     | Some d \<Rightarrow>
         let v = val + (lower_bound + d) in
         if \<not> in_int v then halt_m Undef
         else if v > SAFETY_BOUND \<or> v < - SAFETY_BOUND then
           bind_m getpid (\<lambda>p.
           bind_m (printf (str ''process <'' @ fmt_d p @ str ''> hit safety bound, message value reset to 1'' @ [10])) (\<lambda>_.
           ret 1))
         else ret v)"

section \<open>The ring\<close>

text \<open>
  Pipe \<open>p\<close> has its read end at index \<open>2 * p\<close> of the array \<open>pipes\<close> and its write end at
  \<open>2 * p + 1\<close>. Child \<open>i\<close> keeps the indices of \<open>child_ends\<close>, the primary process those
  of \<open>primary_ends\<close>: first the one it reads, then the one it writes.
\<close>

definition child_ends :: "nat \<Rightarrow> nat \<times> nat" where
  "child_ends i = (2 * i, 3 + 2 * i)"

definition primary_ends :: "nat \<times> nat" where
  "primary_ends = (2 * CORNERS - 2, 1)"

definition close_other_pipes :: "int list \<Rightarrow> nat \<Rightarrow> nat \<Rightarrow> ('g, unit) prog" where
  "close_other_pipes pipes rd wr =
     for_m [0..<2 * CORNERS] (\<lambda>i _.
       if i \<noteq> rd \<and> i \<noteq> wr then
         bind_m (sys_close (pipes ! i)) (\<lambda>_.
         bind_m getpid (\<lambda>p.
         printf (str ''<'' @ fmt_d p @ str ''> closed fd '' @ fmt_d (int i) @ [10])))
       else ret ()) ()"

text \<open>The pipes, in the order they are made.\<close>

definition make_pipes :: "nat \<Rightarrow> ('g, int list) prog" where
  "make_pipes n = for_m [0..<n] (\<lambda>_ pipes.
     bind_m sys_pipe (\<lambda>r. if r_val r \<noteq> 0 then err_kill ''pipe'' else ret (pipes @ r_vals r))) []"

text \<open>The loop that forks: \<open>Some i\<close> in child \<open>i\<close>, \<open>None\<close> in the primary process.\<close>

fun fork_corners :: "nat list \<Rightarrow> ('g, nat option) prog" where
  "fork_corners [] = ret None"
| "fork_corners (i # is) = bind_m (sys SYS_fork [] [] fd_ok) (\<lambda>r.
     if r_val r = 0 then ret (Some i)
     else if r_val r = -1 then err_kill ''fork''
     else fork_corners is)"

definition ring_body :: "int \<Rightarrow> int \<Rightarrow> int \<Rightarrow> ('g, int + unit) prog" where
  "ring_body rd wr message =
     bind_m (ring_read_from_pipe rd message) (\<lambda>(status, message).
     if status \<noteq> 0 then bind_m getpid (\<lambda>p.
       bind_m (printf (str ''process <'' @ fmt_d p @ str ''> detected a broken pipe on read'' @ [10])) (\<lambda>_. ret (Inr ())))
     else if message = 0 then bind_m getpid (\<lambda>p.
       bind_m (printf (str ''process <'' @ fmt_d p @ str ''> recieved a 0 message'' @ [10, 10])) (\<lambda>_. ret (Inr ())))
     else
       bind_m getpid (\<lambda>p.
       bind_m (printf (str ''<'' @ fmt_d p @ str ''>: '' @ fmt_d message @ [10])) (\<lambda>_.
       bind_m (vary_int message (-10) 10) (\<lambda>message.
       bind_m (ring_write_to_pipe wr message) (\<lambda>status.
       if status \<noteq> 0 then bind_m getpid (\<lambda>p.
         bind_m (printf (str ''process <'' @ fmt_d p @ str ''> detected a broken pipe on write'' @ [10])) (\<lambda>_. ret (Inr ())))
       else ret (Inl message))))))"

definition ring_main :: "(unit, int) prog" where
  "ring_main =
     bind_m (sethandler SIG_IGN SIGPIPE) (\<lambda>_.
     bind_m (make_pipes CORNERS) (\<lambda>pipes.
     bind_m (fork_corners [0..<CORNERS - 1]) (\<lambda>child.
     bind_m (case child of
         Some i \<Rightarrow> bind_m (close_other_pipes pipes (fst (child_ends i)) (snd (child_ends i))) (\<lambda>_. ret (child_ends i))
       | None \<Rightarrow> ret primary_ends) (\<lambda>(rd, wr).
     bind_m (sys SYS_malloc [] [] fd_ok) (\<lambda>m. if r_val m = 0 then err_kill ''malloc'' else
     bind_m seed (\<lambda>_.
     bind_m (if child = None then
         bind_m (close_other_pipes pipes rd wr) (\<lambda>_. bind_m (ring_write_to_pipe (pipes ! wr) 1) (\<lambda>_. ret ()))
       else ret ()) (\<lambda>_.
     bind_m (loop_m (ring_body (pipes ! rd) (pipes ! wr)) 1) (\<lambda>_.
     bind_m (sys_close (pipes ! rd)) (\<lambda>_. bind_m (sys_close (pipes ! wr)) (\<lambda>_.
     if child \<noteq> None then bind_m getpid (\<lambda>p.
       bind_m (printf (str ''child process <'' @ fmt_d p @ str ''> has finished execution normally'' @ [10])) (\<lambda>_.
       halt_m (Exit 0)))
     else bind_m wait_all (\<lambda>_. bind_m getpid (\<lambda>p.
       bind_m (printf (str ''parent <'' @ fmt_d p @
         str ''> has waited for all its children and finished execution'' @ [10])) (\<lambda>_.
       ret 0)))))))))))))"

section \<open>The FIFO program\<close>

text \<open>
  The buffer of \<open>Lab2_1_Graded/prog.c\<close> holds the number of digits, the index and the digits,
  and one byte more than the number of digits is written.
\<close>

definition graded_frame :: "int \<Rightarrow> int \<Rightarrow> byte list" where
  "graded_frame message ind = (let ds = fmt_d message in
     take (length ds + 1) (of_nat (length ds) # word_of_int ind # ds))"

definition graded_write_to_pipe :: "int \<Rightarrow> int \<Rightarrow> int \<Rightarrow> ('g, int) prog" where
  "graded_write_to_pipe fd message ind =
     bind_m (retry (sys_write fd (graded_frame message ind))) (\<lambda>r.
     if r_val r < 0 then bind_m get_errno (\<lambda>e. if e = EPIPE then ret 1 else err_kill ''write'')
     else ret 0)"

text \<open>The read loop of the ring program, copied but never called here.\<close>

definition graded_read_from_pipe :: "int \<Rightarrow> int \<Rightarrow> ('g, int \<times> int) prog" where
  "graded_read_from_pipe fd val = ring_read_from_pipe fd val"

definition parent_send_start :: "nat \<Rightarrow> int \<Rightarrow> int \<Rightarrow> ('g, int) prog" where
  "parent_send_start no_children fd ind =
     loop_m (\<lambda>i. if i < no_children then
         bind_m (retry (sys_write fd [of_char CHR ''I'', word_of_int ind])) (\<lambda>r.
         if r_val r < 0 then bind_m get_errno (\<lambda>e. if e = EPIPE then ret (Inr 1) else err_kill ''write'')
         else ret (Inl (Suc i)))
       else ret (Inr 0)) 0"

text \<open>
  The parent stores the number under the index it has read, in an array of one element for
  each child: any other index is out of bounds. The buffer has BUF_SIZE + 1 bytes, of which
  BUF_SIZE are cleared (\<open>junk\<close> is the last one).
\<close>

definition parent_read_from_child :: "byte \<Rightarrow> int \<Rightarrow> int list \<Rightarrow> ('g, int \<times> int list) prog" where
  "parent_read_from_child junk fd arr =
     bind_m (printf (str ''Test4'' @ [10])) (\<lambda>_.
     bind_m (sys_read fd 1) (\<lambda>r.
     if r_val r < 0 then err_kill ''read''
     else if r_val r = 0 then ret (1, arr)
     else
       bind_m (retry (sys_read fd (unat (hd (r_data r))))) (\<lambda>s.
       if r_val s < 0 then err_kill ''read''
       else
         let buffer = put_at 0 (stored s) (replicate BUF_SIZE 0 @ [junk]);
             ind = sint (hd buffer) in
         if 0 \<notin> set (tl buffer) \<or> length buffer > BUF_SIZE + 1 then halt_m Undef
         else let v = atoi (tl buffer) in
           bind_m (printf (str ''parent recieved '' @ fmt_d v @ str '' from child '' @ fmt_d ind @ [10])) (\<lambda>_.
           if ind < 0 \<or> int (length arr) \<le> ind then halt_m Undef
           else ret (0, arr[nat ind := v])))))"

text \<open>\<open>junk\<close> is the array \<open>mess\<close> before the read.\<close>

definition child_read_fifo :: "byte list \<Rightarrow> int \<Rightarrow> ('g, int) prog" where
  "child_read_fifo junk fd =
     bind_m (printf (str ''Test3'' @ [10])) (\<lambda>_.
     bind_m (sys_read fd 2) (\<lambda>r.
     if r_val r < 0 then err_kill ''read''
     else let mess = put_at 0 (stored r) junk in
       bind_m getpid (\<lambda>p.
       bind_m (printf (str ''<'' @ fmt_d p @ str ''>:'' @ fmt_d (uint (mess ! 1)))) (\<lambda>_.
       ret (uint (mess ! 1))))))"

definition open_or_kill :: "byte list \<Rightarrow> int \<Rightarrow> ('g, int) prog" where
  "open_or_kill path flags = bind_m (sys SYS_open [flags] (cstr path) fd_ok) (\<lambda>r.
     if r_val r < 0 then err_kill ''open'' else ret (r_val r))"

definition malloc_or_kill :: "('g, unit) prog" where
  "malloc_or_kill = bind_m (sys SYS_malloc [] [] fd_ok) (\<lambda>m. if r_val m = 0 then err_kill ''malloc'' else ret ())"

definition graded_child_work :: "byte list \<Rightarrow> byte list \<Rightarrow> int \<Rightarrow> int \<Rightarrow> ('g, int) prog" where
  "graded_child_work junk path ind elem =
     bind_m (open_or_kill path O_RDONLY) (\<lambda>fifo_rd.
     bind_m (open_or_kill path O_WRONLY) (\<lambda>fifo_wr.
     bind_m malloc_or_kill (\<lambda>_.
     bind_m (child_read_fifo junk fifo_rd) (\<lambda>index.
     bind_m getpid (\<lambda>p.
     bind_m (printf (str ''child <'' @ fmt_d p @ str ''> recieved the index '' @ fmt_d index @ [10])) (\<lambda>_.
     bind_m (graded_write_to_pipe fifo_wr elem ind) (\<lambda>_.
     bind_m (sys_close fifo_rd) (\<lambda>_. bind_m (sys_close fifo_wr) (\<lambda>_. ret 0)))))))))"

fun fork_senders :: "byte list \<Rightarrow> byte list list \<Rightarrow> nat list \<Rightarrow> ('g, unit) prog" where
  "fork_senders junk argv [] = ret ()"
| "fork_senders junk argv (ind # inds) = bind_m (sys SYS_fork [] [] fd_ok) (\<lambda>r.
     if r_val r < 0 then err_kill ''fork''
     else if r_val r = 0 then
       bind_m (graded_child_work junk (argv ! 1) (int ind) (atoi (argv ! (2 + ind)))) (\<lambda>_. halt_m (Exit 0))
     else fork_senders junk argv inds)"

definition usage_graded :: "byte list \<Rightarrow> ('g, 'a) prog" where
  "usage_graded name = usage_exit name (str '' <path to fifo> <1 to 10 elements>'' @ [10])"

definition null_handler :: "nat \<Rightarrow> unit \<Rightarrow> unit \<times> byte list list" where
  "null_handler sig g = (g, [])"

definition graded_main :: "byte list \<Rightarrow> int list \<Rightarrow> byte list list \<Rightarrow> (unit, int) prog" where
  "graded_main junk junkarr argv =
     bind_m (if length argv \<le> 2 \<or> length argv > 12 then usage_graded (argv ! 0) else ret ()) (\<lambda>_.
     bind_m (sethandler SIG_IGN SIGPIPE) (\<lambda>_.
     bind_m (sethandler (Handler null_handler) SIGUSR1) (\<lambda>_.
     bind_m (sys SYS_mkfifo [432] (cstr (argv ! 1)) status_ok) (\<lambda>m.
     bind_m get_errno (\<lambda>e. if r_val m < 0 \<and> e \<noteq> EEXIST then err_kill ''create fifo'' else
     let no_children = length argv - 2 in
     bind_m (fork_senders junk argv [0..<no_children]) (\<lambda>_.
     bind_m malloc_or_kill (\<lambda>_.
     bind_m (sys SYS_malloc [] [] fd_ok) (\<lambda>_.
     bind_m (open_or_kill (argv ! 1) O_WRONLY) (\<lambda>fifo_wr.
     bind_m (open_or_kill (argv ! 1) O_RDWR) (\<lambda>fifo_rd.
     bind_m (parent_send_start no_children fifo_wr 11) (\<lambda>_.
     bind_m (sys SYS_kill [0, int SIGUSR1] [] status_ok) (\<lambda>_.
     bind_m (for_m [0..<no_children] (\<lambda>_ arr.
       bind_m (parent_read_from_child (hd junk) fifo_rd arr) (\<lambda>(_, arr). ret arr)) (take no_children junkarr)) (\<lambda>_.
     bind_m wait_all (\<lambda>_.
     bind_m (sys_close fifo_rd) (\<lambda>_. bind_m (sys_close fifo_wr) (\<lambda>_. ret 0))))))))))))))))"

section \<open>The ring is a ring\<close>




section \<open>What travels around\<close>

lemma fmt_d_fits: "in_int v \<Longrightarrow> unat (of_nat (length (fmt_d v)) :: byte) = length (fmt_d v)"
  using fmt_d_length [of v] by (simp add: unat_of_nat)

fun int_decode :: "byte list \<Rightarrow> (int \<times> byte list) option" where
  "int_decode [] = None"
| "int_decode (c # bs) = (if length bs < unat c then None else Some (atoi (take (unat c) bs), drop (unat c) bs))"

interpretation int_codec: codec in_int int_frame int_decode
  by unfold_locales (simp add: int_frame_def Let_def fmt_d_fits atoi_fmt_d)

lemma retry_read_data:
  assumes "script w = data_reply d # rest" "length d \<le> n"
  shows "retry (sys_read fd n) w = (Ret (data_reply d), adv SYS_read [fd] [] (data_reply d) w)"
  unfolding sys_read_def
  by (rule retry_returns [OF assms(1)]) (use assms(2) in \<open>simp_all add: in_ok_def data_reply_def\<close>)

lemma sys_read_data:
  assumes "script w = data_reply d # rest" "length d \<le> n"
  shows "sys_read fd n w = (Ret (data_reply d), adv SYS_read [fd] [] (data_reply d) w)"
  unfolding sys_read_def
  by (rule sys_quiet [OF assms(1)]) (use assms(2) in \<open>simp_all add: in_ok_def data_reply_def\<close>)

lemma stored_data [simp]: "stored (data_reply d) = d"
  by (cases d) (simp_all add: stored_def data_reply_def)

lemma r_val_data [simp]: "r_val (data_reply d) = int (length d)" "r_data (data_reply d) = d"
  by (simp_all add: data_reply_def)

text \<open>
  Property C38. A number arrives at the next process as it was sent: for every \<open>int\<close>, if the
  pipe delivers what \<open>ring_write_to_pipe\<close> writes, then \<open>ring_read_from_pipe\<close> returns it.
\<close>

theorem ring_message_arrives:
  assumes "in_int v" "script w = [data_reply (take 1 (int_frame v)), data_reply (drop 1 (int_frame v))] @ rest"
  shows "\<exists>w1. ring_read_from_pipe fd old w = (Ret (0, v), w1) \<and> script w1 = rest"
proof -
  let ?ds = "fmt_d v"
  have s: "script w = data_reply [of_nat (length ?ds)] # data_reply ?ds # rest"
    using assms(2) by (simp add: int_frame_def Let_def)
  let ?w = "adv SYS_read [fd] [] (data_reply [of_nat (length ?ds)]) w"
  have s1: "script ?w = data_reply ?ds # rest" using s by simp
  have len: "length ?ds \<le> 11" by (rule fmt_d_length [OF assms(1)])
  then have buf: "put_at 0 ?ds (replicate (BUF_SIZE + 1) 0) = ?ds @ replicate (BUF_SIZE + 1 - length ?ds) 0"
    by (simp only: put_at_def take_0 append_Nil add_0 drop_replicate)
  obtain m where m: "BUF_SIZE + 1 - length ?ds = Suc m"
    using len by (cases "BUF_SIZE + 1 - length ?ds") (auto simp: BUF_SIZE_def)
  then have tot: "length ?ds + m = 200" using len by (simp add: BUF_SIZE_def)
  have "atoi (?ds @ replicate (BUF_SIZE + 1 - length ?ds) 0) = v"
    using atoi_fmt_d(1) [OF assms(1)] m by simp
  then show ?thesis
    using sys_read_data [OF s, of 1 fd] retry_read_data [OF s1, of _ fd] s1 buf m tot len fmt_d_fits [OF assms(1)]
    by (simp add: ring_read_from_pipe_def bind_m_def ret_def Let_def BUF_SIZE_def)
qed

theorem ring_message_arrives_witness:
  "\<exists>w1. ring_read_from_pipe 3 1 (idle [data_reply [3], data_reply [45, 49, 55]] ()) = (Ret (0, -17), w1)"
proof -
  have "take 1 (int_frame (-17)) = [3]" "drop 1 (int_frame (-17)) = [45, 49, 55]" by code_simp+
  then have "script (idle [data_reply [3], data_reply [45, 49, 55]] () :: unit world) =
      [data_reply (take 1 (int_frame (-17))), data_reply (drop 1 (int_frame (-17)))] @ []"
    by (simp add: idle_def)
  from ring_message_arrives [OF _ this, of 3 1] show ?thesis by (auto simp: in_int_iff)
qed

text \<open>
  The random change keeps the number within the safety bound and moves it by at
  most ten, or resets it to 1; no overflow can occur on the way.
\<close>

theorem vary_int_bounds:
  assumes "\<bar>v\<bar> \<le> SAFETY_BOUND"
  shows "case vary_int v (-10) 10 w of
      (Ret v', w1) \<Rightarrow> \<bar>v'\<bar> \<le> SAFETY_BOUND \<and> (v' = 1 \<or> \<bar>v' - v\<bar> \<le> 10)
    | (Halt h, w1) \<Rightarrow> h = Blocked \<or> (\<exists>s. h = Killed s)"
proof -
  have m: "c_mod x 21 = Some (x mod 21)" if "rand_ok r" "r_val r = x" for r x
    using that by (intro c_mod_nonneg) (auto simp: rand_ok_def in_int_iff)
  have b: "0 \<le> x mod 21 \<and> x mod 21 \<le> 20" for x :: int
    using pos_mod_bound [of 21 x] by simp
  have r: "in_int (v + (x mod 21 - 10))" for x
    using assms b [of x] unfolding in_int_iff SAFETY_BOUND_def by linarith
  have "wp (vary_int v (-10) 10) (\<lambda>v' _. \<bar>v'\<bar> \<le> SAFETY_BOUND \<and> (v' = 1 \<or> \<bar>v' - v\<bar> \<le> 10))
      (\<lambda>h _. h = Blocked \<or> (\<exists>s. h = Killed s)) w"
    unfolding vary_int_def rand_m_def getpid_def wp_bind
    by (intro wp_sys_calls)
      (use b r in \<open>auto simp: wp_rules m Let_def SAFETY_BOUND_def abs_le_iff intro!: wp_sys_calls\<close>)
  then show ?thesis by (auto simp: wp_def split: prod.splits outcome.splits)
qed

theorem vary_int_bounds_witness:
  "fst (vary_int 999999 (-10) 10 (idle [ok_reply 20, ok_reply 7] ())) = Ret 1"
proof -
  have "fst (vary_int 999999 (-10) 10 (idle [ok_reply 20, ok_reply 7] ())) = Ret 1" by code_simp
  then show ?thesis
    using vary_int_bounds [of 999999 "idle [ok_reply 20, ok_reply 7] ()"]
    by (simp add: SAFETY_BOUND_def split: prod.splits)
qed

section \<open>The lost digit\<close>

lemma butlast_digits: "butlast (digits n) = (if n < 10 then [] else digits (n div 10))"
  by (subst digits.simps) simp

lemma strtol10_butlast:
  assumes "in_int v"
  shows "strtol10 (butlast (fmt_d v)) = v sdiv 10"
proof -
  have d: "strtol10 (digits n) = max (- (2 ^ 63)) (min (2 ^ 63 - 1) (int n))"
    "strtol10 (45 # digits n) = max (- (2 ^ 63)) (min (2 ^ 63 - 1) (- int n))" for n
    using strtol10_digits [OF digits_nonempty digits_are_digits, of n] by (simp_all add: dec_value_digits)
  have e: "strtol10 [] = 0" "strtol10 [45] = 0" by code_simp+
  show ?thesis
  proof (cases "v < 0")
    case True
    have "v sdiv 10 = - ((- v) div 10)"
      using True by (simp add: signed_divide_int_def sgn_if)
    moreover have "int (nat (- v) div 10) = (- v) div 10" using True by (simp add: zdiv_int)
    moreover have "nat (- v) < 10 \<Longrightarrow> (- v) div 10 = 0" using True by simp
    ultimately show ?thesis
      using True assms d(2) [of "nat (- v) div 10"] e
      by (auto simp: fmt_d_def butlast_digits in_int_iff)
  next
    case False
    have "v sdiv 10 = v div 10"
      using False by (simp add: signed_divide_int_def sgn_if)
    moreover have "int (nat v div 10) = v div 10" using False by (simp add: zdiv_int)
    moreover have "nat v < 10 \<Longrightarrow> v div 10 = 0" using False by simp
    ultimately show ?thesis
      using False assms d(1) [of "nat v div 10"] e
      by (auto simp: fmt_d_def butlast_digits in_int_iff)
  qed
qed

lemma graded_frame_eq: "graded_frame v ind = of_nat (length (fmt_d v)) # word_of_int ind # butlast (fmt_d v)"
proof -
  obtain x xs where "fmt_d v = x # xs" by (cases "fmt_d v") (simp_all add: fmt_d_nonempty)
  then show ?thesis by (simp add: graded_frame_def Let_def butlast_conv_take)
qed

lemma r_val_adv_data: "script w = data_reply d # rest \<Longrightarrow> script (adv n a p (data_reply d) w) = rest"
  by simp

text \<open>
  The FIFO program loses the last digit of every number: when the parent reads
  the bytes that child \<open>i\<close> writes for \<open>v\<close>, the number it stores for the child is \<open>v\<close>
  divided by ten (towards zero).
\<close>

theorem graded_loses_digit:
  assumes "in_int v" "i < length arr" "length arr \<le> 10"
    and "script w = [data_reply (take 1 (graded_frame v (int i))), data_reply (drop 1 (graded_frame v (int i)))] @ rest"
  shows "\<exists>w1. parent_read_from_child 0 fd arr w = (Ret (0, arr[i := v sdiv 10]), w1) \<and> script w1 = rest"
proof -
  let ?ds = "butlast (fmt_d v)" and ?c = "of_nat (length (fmt_d v)) :: byte"
  let ?b = "of_nat i :: byte"
  let ?u = "w\<lparr>trace := trace w @ [Out (str ''Test4'' @ [10])]\<rparr>"
  have s: "script ?u = data_reply [?c] # data_reply (?b # ?ds) # rest"
    using assms(4) by (simp add: graded_frame_eq)
  let ?w = "adv SYS_read [fd] [] (data_reply [?c]) ?u"
  have s1: "script ?w = data_reply (?b # ?ds) # rest" using s by simp
  have len: "length (fmt_d v) \<le> 11" "0 < length (fmt_d v)"
    using fmt_d_length [OF assms(1)] by auto
  have dl: "Suc (length ?ds) = length (fmt_d v)" using len by simp
  define m where "m = BUF_SIZE - length (fmt_d v)"
  have buf: "put_at 0 (?b # ?ds) (replicate BUF_SIZE 0 @ [0]) = ?b # ?ds @ 0 # replicate m 0"
  proof -
    have "replicate BUF_SIZE 0 @ [0] = replicate (length (fmt_d v)) (0 :: byte) @ 0 # replicate m 0"
      using len by (simp add: m_def BUF_SIZE_def replicate_add [symmetric] replicate_append_same
          flip: replicate_Suc)
    then show ?thesis using dl by (simp add: put_at_def)
  qed
  have no0: "0 \<notin> set ?ds" using fmt_d_no_nul [of v] by (auto dest: in_set_butlastD)
  have at: "atoi (?ds @ 0 # replicate m 0) = v sdiv 10"
  proof -
    have "in_int (v sdiv 10)"
      using assms(1) by (auto simp: in_int_iff signed_divide_int_def sgn_if abs_if)
    then show ?thesis using strtol10_butlast [OF assms(1)] no0 by (simp add: atoi_def)
  qed
  have "sint (word_of_int (int i) :: byte) = int i"
    by (subst sint_sbintrunc', rule signed_take_bit_int_eq_self) (use assms(2,3) in auto)
  then have ind: "sint ?b = int i" by simp
  have tot: "length (put_at 0 (?b # ?ds) (replicate BUF_SIZE 0 @ [0])) \<le> BUF_SIZE + 1"
    unfolding buf using len(1) dl by (simp add: m_def BUF_SIZE_def del: length_butlast)
  have one: "sys_read fd 1 ?u = (Ret (data_reply [?c]), ?w)"
    by (rule sys_read_data [OF s]) simp
  have two: "retry (sys_read fd (length (fmt_d v))) ?w =
      (Ret (data_reply (?b # ?ds)), adv SYS_read [fd] [] (data_reply (?b # ?ds)) ?w)"
    by (rule retry_read_data [OF s1]) (use dl in simp)
  show ?thesis
    using one two s1 assms(2) fmt_d_fits [OF assms(1)] tot at ind
    by (simp add: parent_read_from_child_def bind_m_def ret_def printf_def Let_def buf)
qed

theorem graded_loses_digit_witness:
  "\<exists>w1. parent_read_from_child 0 3 [0, 0] (idle [data_reply [3], data_reply [1, 49, 50]] ()) =
     (Ret (0, [0, 12]), w1)"
proof -
  have "take 1 (graded_frame 123 (int 1)) = [3]" "drop 1 (graded_frame 123 (int 1)) = [1, 49, 50]"
    by code_simp+
  then have "script (idle [data_reply [3], data_reply [1, 49, 50]] () :: unit world) =
      [data_reply (take 1 (graded_frame 123 (int 1))), data_reply (drop 1 (graded_frame 123 (int 1)))] @ []"
    by (simp add: idle_def)
  moreover have "(123 :: int) sdiv 10 = 12" by code_simp
  ultimately show ?thesis
    using graded_loses_digit [of 123 1 "[0, 0]" "idle [data_reply [3], data_reply [1, 49, 50]] ()" "[]" 3]
    by (auto simp: in_int_iff)
qed

end
