(* ===== verification/PipeSignals.thy ===== *)
theory PipeSignals
  imports RingGame
begin

text \<open>
  \<open>prog22a.c\<close> and \<open>prog22b.c\<close> of \<open>Lab2_1\<close>: a parent with up to ten children, a pipe to
  each of them and one common pipe \<open>R\<close> back. In the first program every child writes one
  letter; in the second, SIGINT makes the parent send a letter to a random living child, and
  the child answers with a length byte and that many copies of the letter.
\<close>

definition MAX_BUFF :: nat where "MAX_BUFF = 200"

definition srand_pid :: "('g, unit) prog" where
  "srand_pid = bind_m getpid (\<lambda>_. bind_m (sys SYS_srand [] [] any_ok) (\<lambda>_. ret ()))"

text \<open>\<open>'a' + rand() % ('z' - 'a')\<close>\<close>

definition letter :: "int \<Rightarrow> byte" where
  "letter x = word_of_int (97 + x mod 25)"

text \<open>
  The handler of SIGCHLD reaps children until none is left; it touches no variable of the
  program.
\<close>

definition sigchld_handler :: "('g, unit) prog" where
  "sigchld_handler = loop_m (\<lambda>_. bind_m (sys SYS_waitpid [0, 1] [] fd_ok) (\<lambda>r.
     if r_val r = 0 then ret (Inr ())
     else if 0 \<ge> r_val r then
       bind_m get_errno (\<lambda>e. if e = ECHILD then ret (Inr ()) else err_kill ''waitpid:'')
     else ret (Inl ()))) ()"

definition reaps :: "nat \<Rightarrow> 'g \<Rightarrow> 'g \<times> byte list list" where
  "reaps sig g = (g, [])"

section \<open>Children and pipes\<close>

text \<open>
  The loop in a child that closes the write ends it has inherited: a descriptor 0 in the
  array would never be passed, since the index is only advanced when one is closed. \<open>cl\<close> is
  the plain or the retried close.
\<close>

fun close_fds :: "(int \<Rightarrow> ('g, reply) prog) \<Rightarrow> int list \<Rightarrow> ('g, unit) prog" where
  "close_fds cl [] = ret ()"
| "close_fds cl (fd # fds) =
     (if fd = 0 then halt_m Spin
      else bind_m (cl fd) (\<lambda>r. if r_val r \<noteq> 0 then err_kill ''close'' else close_fds cl fds))"

text \<open>A close that must succeed.\<close>

definition must :: "('g, reply) prog \<Rightarrow> ('g, unit) prog" where
  "must p = bind_m p (\<lambda>r. if r_val r \<noteq> 0 then err_kill ''close'' else ret ())"

fun create_children_and_pipes ::
  "(int \<Rightarrow> ('g, reply) prog) \<Rightarrow> (int \<Rightarrow> int \<Rightarrow> ('g, unit) prog) \<Rightarrow> nat \<Rightarrow> int list \<Rightarrow> int \<Rightarrow> ('g, int list) prog" where
  "create_children_and_pipes cl child_work 0 fds R = ret fds"
| "create_children_and_pipes cl child_work (Suc n) fds R =
     bind_m sys_pipe (\<lambda>t. if r_val t \<noteq> 0 then err_kill ''pipe'' else
     bind_m (sys SYS_fork [] [] fd_ok) (\<lambda>f.
     if r_val f = 0 then
       bind_m (close_fds cl (drop (Suc n) fds)) (\<lambda>_.
       bind_m (must (cl (r_vals t ! 1))) (\<lambda>_.
       bind_m (child_work (r_vals t ! 0) R) (\<lambda>_.
       bind_m (must (cl (r_vals t ! 0))) (\<lambda>_.
       bind_m (must (cl R)) (\<lambda>_. halt_m (Exit 0))))))
     else if r_val f = -1 then err_kill ''Fork:''
     else
       bind_m (must (cl (r_vals t ! 0))) (\<lambda>_.
       create_children_and_pipes cl child_work n (fds[n := r_vals t ! 1]) R)))"

definition usage_children :: "byte list \<Rightarrow> ('g, 'a) prog" where
  "usage_children name =
     bind_m (eprintf (str ''USAGE: '' @ name @ str '' n'' @ [10])) (\<lambda>_.
     bind_m (eprintf (str ''0<n<=10 - number of children'' @ [10])) (\<lambda>_.
     halt_m (Exit 1)))"

text \<open>The final \<open>while (n--) if (fds[n] && close(fds[n])) ERR("close")\<close>.\<close>

definition close_live :: "(int \<Rightarrow> ('g, reply) prog) \<Rightarrow> int list \<Rightarrow> ('g, unit) prog" where
  "close_live cl fds = for_m (rev fds) (\<lambda>fd _. if fd \<noteq> 0 then must (cl fd) else ret ()) ()"

section \<open>prog22a\<close>

definition child_work_a :: "int \<Rightarrow> int \<Rightarrow> ('g, unit) prog" where
  "child_work_a fd R =
     bind_m srand_pid (\<lambda>_.
     bind_m rand_m (\<lambda>x.
     bind_m (sys_write R [letter x]) (\<lambda>r. if r_val r < 0 then err_kill ''write to R'' else ret ())))"

definition parent_work_a :: "int \<Rightarrow> ('g, unit) prog" where
  "parent_work_a R =
     bind_m srand_pid (\<lambda>_.
     bind_m (loop_m (\<lambda>_. bind_m (sys_read R 1) (\<lambda>r.
       if r_val r = 1 then bind_m (printf (r_data r)) (\<lambda>_. ret (Inl ())) else ret (Inr (r_val r)))) ()) (\<lambda>status.
     if status < 0 then err_kill ''read from R'' else printf [10]))"

definition prog22a_main :: "int list \<Rightarrow> byte list list \<Rightarrow> (unit, int) prog" where
  "prog22a_main junk argv =
     bind_m (if length argv \<noteq> 2 then usage_children (argv ! 0) else ret ()) (\<lambda>_.
     let n = atoi (argv ! 1) in
     bind_m (if n \<le> 0 \<or> n > 10 then usage_children (argv ! 0) else ret ()) (\<lambda>_.
     bind_m sys_pipe (\<lambda>R. if r_val R \<noteq> 0 then err_kill ''pipe'' else
     bind_m malloc_or_kill (\<lambda>_.
     bind_m (sethandler (Handler reaps) SIGCHLD) (\<lambda>h.
     if h \<noteq> 0 then err_kill ''Seting parent SIGCHLD:'' else
     bind_m (create_children_and_pipes sys_close child_work_a (nat n) (take (nat n) junk) (r_vals R ! 1)) (\<lambda>fds.
     bind_m (must (sys_close (r_vals R ! 1))) (\<lambda>_.
     bind_m (parent_work_a (r_vals R ! 0)) (\<lambda>_.
     bind_m (close_live sys_close fds) (\<lambda>_.
     bind_m (must (sys_close (r_vals R ! 0))) (\<lambda>_. ret 0))))))))))"

section \<open>prog22b\<close>

definition close_retry :: "int \<Rightarrow> ('g, reply) prog" where
  "close_retry fd = retry (sys_close fd)"

text \<open>The global is \<open>last_signal\<close>.\<close>

definition sig_handler :: "nat \<Rightarrow> int \<Rightarrow> int \<times> byte list list" where
  "sig_handler sig last_signal = (int sig, [])"

text \<open>What the child writes for a letter: the length and the copies.\<close>

definition answer :: "byte \<Rightarrow> nat \<Rightarrow> byte list" where
  "answer c s = of_nat s # replicate s c"

text \<open>
  The handler \<open>sig_killme\<close> ends the child when \<open>rand() % 5\<close> is 0 and otherwise does nothing:
  a SIGINT listed in the world is one that ends the child, and one that does not is only
  visible as a call that fails with EINTR, which a world may answer at any time.
\<close>

definition child_work_b :: "int \<Rightarrow> int \<Rightarrow> (int, unit) prog" where
  "child_work_b fd R =
     bind_m srand_pid (\<lambda>_.
     bind_m (sethandler SIG_DFL SIGINT) (\<lambda>h. if h \<noteq> 0 then err_kill ''Setting SIGINT handler in child'' else
     loop_m (\<lambda>_.
       bind_m (retry (sys_read fd 1)) (\<lambda>r. if r_val r < 1 then err_kill ''read'' else
       bind_m rand_m (\<lambda>x.
       bind_m (retry (sys_write R (answer (hd (r_data r)) (1 + nat x mod MAX_BUFF)))) (\<lambda>s.
       if r_val s < 0 then err_kill ''write to R'' else ret (Inl ()))))) ()))"

text \<open>
  The choice of a child: starting at a random index, the first one alive, going round at most
  once; the index may end on a dead one.
\<close>

function scan_fds :: "int list \<Rightarrow> nat \<Rightarrow> nat" where
  "scan_fds fds i =
     (if fds ! (i mod length fds) = 0 \<and> i < 2 * length fds then scan_fds fds (Suc i) else i)"
  by pat_completeness auto
termination
  by (relation "measure (\<lambda>(fds, i). 2 * length fds - i)") auto

declare scan_fds.simps [simp del]

definition pick_child :: "int list \<Rightarrow> nat \<Rightarrow> nat" where
  "pick_child fds i = scan_fds fds i mod length fds"

definition poke_child :: "int list \<Rightarrow> (int, int list) prog" where
  "poke_child fds =
     bind_m rand_m (\<lambda>x.
     let i = pick_child fds (nat x mod length fds) in
     bind_m (if fds ! i \<noteq> 0 then
         bind_m rand_m (\<lambda>y.
         bind_m (retry (sys_write (fds ! i) [letter y])) (\<lambda>s.
         if r_val s \<noteq> 1 then bind_m (must (close_retry (fds ! i))) (\<lambda>_. ret (fds[i := 0]))
         else ret fds))
       else ret fds) (\<lambda>fds.
     bind_m (set_glob 0) (\<lambda>_. ret fds)))"

text \<open>
  The body of the parent's loop: the array \<open>buf\<close> has MAX_BUFF bytes, and \<open>buf[c] = 0\<close> is
  outside it for \<open>c = MAX_BUFF\<close>.
\<close>

definition answer_line :: "nat \<Rightarrow> byte list \<Rightarrow> byte list option" where
  "answer_line c d = (if c \<ge> MAX_BUFF then None else Some ([10] @ cstr (d @ [0]) @ [10]))"

definition parent_b_body :: "int \<Rightarrow> int list \<Rightarrow> (int, int list + int list) prog" where
  "parent_b_body R fds =
     bind_m get_glob (\<lambda>last_signal.
     bind_m (if last_signal = int SIGINT then poke_child fds else ret fds) (\<lambda>fds.
     bind_m (sys_read R 1) (\<lambda>r.
     bind_m get_errno (\<lambda>e.
     if r_val r < 0 \<and> e = EINTR then ret (Inl fds)
     else if r_val r < 0 then err_kill ''read header from R''
     else if r_val r = 0 then ret (Inr fds)
     else let c = unat (hd (r_data r)) in
       bind_m (retry (sys_read R c)) (\<lambda>s.
       if r_val s < int c then err_kill ''read data from R''
       else case answer_line c (stored s) of
         None \<Rightarrow> halt_m Undef
       | Some line \<Rightarrow> bind_m (printf line) (\<lambda>_. ret (Inl fds)))))))"

definition parent_work_b :: "int list \<Rightarrow> int \<Rightarrow> (int, int list) prog" where
  "parent_work_b fds R =
     bind_m srand_pid (\<lambda>_.
     bind_m (sethandler (Handler sig_handler) SIGINT) (\<lambda>h.
     if h \<noteq> 0 then err_kill ''Setting SIGINT handler in parent'' else
     loop_m (parent_b_body R) fds))"

definition prog22b_main :: "int list \<Rightarrow> byte list list \<Rightarrow> (int, int) prog" where
  "prog22b_main junk argv =
     bind_m (if length argv \<noteq> 2 then usage_children (argv ! 0) else ret ()) (\<lambda>_.
     let n = atoi (argv ! 1) in
     bind_m (if n \<le> 0 \<or> n > 10 then usage_children (argv ! 0) else ret ()) (\<lambda>_.
     bind_m (sethandler SIG_IGN SIGINT) (\<lambda>h. if h \<noteq> 0 then err_kill ''Setting SIGINT handler'' else
     bind_m (sethandler SIG_IGN SIGPIPE) (\<lambda>h. if h \<noteq> 0 then err_kill ''Setting SIGINT handler'' else
     bind_m (sethandler (Handler reaps) SIGCHLD) (\<lambda>h. if h \<noteq> 0 then err_kill ''Setting parent SIGCHLD:'' else
     bind_m sys_pipe (\<lambda>R. if r_val R \<noteq> 0 then err_kill ''pipe'' else
     bind_m malloc_or_kill (\<lambda>_.
     bind_m (create_children_and_pipes close_retry child_work_b (nat n) (take (nat n) junk) (r_vals R ! 1)) (\<lambda>fds.
     bind_m (must (close_retry (r_vals R ! 1))) (\<lambda>_.
     bind_m (parent_work_b fds (r_vals R ! 0)) (\<lambda>fds.
     bind_m (close_live close_retry fds) (\<lambda>_.
     bind_m (must (close_retry (r_vals R ! 0))) (\<lambda>_. ret 0))))))))))))"

section \<open>Choosing a child\<close>

lemma scan_fds_spec:
  "0 < length fds \<Longrightarrow> i \<le> 2 * length fds \<Longrightarrow>
   (let k = scan_fds fds i in i \<le> k \<and> k \<le> 2 * length fds \<and>
     (\<forall>j. i \<le> j \<longrightarrow> j < k \<longrightarrow> fds ! (j mod length fds) = 0) \<and>
     (k < 2 * length fds \<longrightarrow> fds ! (k mod length fds) \<noteq> 0))"
proof (induction fds i rule: scan_fds.induct)
  case (1 fds i)
  show ?case
  proof (cases "fds ! (i mod length fds) = 0 \<and> i < 2 * length fds")
    case True
    then have eq: "scan_fds fds i = scan_fds fds (Suc i)" by (simp add: scan_fds.simps [of fds i])
    from "1.IH" [OF True] True "1.prems" show ?thesis
      by (auto simp: Let_def eq) (metis le_antisym not_less_eq_eq)+
  next
    case False
    then have eq: "scan_fds fds i = i" by (auto simp: scan_fds.simps [of fds i])
    with False "1.prems" show ?thesis by (auto simp: eq Let_def)
  qed
qed

text \<open>
  The parent finds a living child whenever there is one: from any random start,
  the index chosen is in range, and the descriptor there is dead only if all are.
\<close>

theorem pick_child_alive:
  assumes "fds \<noteq> []"
  shows "(let i = pick_child fds (x mod length fds) in
    i < length fds \<and> (fds ! i = 0 \<longleftrightarrow> list_all (\<lambda>fd. fd = 0) fds))"
proof -
  let ?n = "length fds" and ?s = "x mod length fds"
  have n: "0 < ?n" using assms by simp
  then have s: "?s < ?n" "?s \<le> 2 * ?n" by (simp_all add: less_imp_le trans_less_add1 mult_2)
  define k where "k = scan_fds fds ?s"
  have k: "?s \<le> k" "\<And>j. ?s \<le> j \<Longrightarrow> j < k \<Longrightarrow> fds ! (j mod ?n) = 0"
    "k < 2 * ?n \<Longrightarrow> fds ! (k mod ?n) \<noteq> 0" "k \<le> 2 * ?n"
    using scan_fds_spec [OF n s(2)] by (auto simp: k_def Let_def)
  have range: "k mod ?n < ?n" using n by simp
  have "list_all (\<lambda>fd. fd = 0) fds" if dead: "fds ! (k mod ?n) = 0"
  proof -
    have "k = 2 * ?n" using k(3,4) dead by fastforce
    moreover have "fds ! m = 0" if m: "m < ?n" for m
      using k(2) [of m] k(2) [of "m + ?n"] m s \<open>k = 2 * ?n\<close> by (cases "?s \<le> m") auto
    ultimately show ?thesis by (simp add: list_all_length)
  qed
  moreover have "fds ! (k mod ?n) = 0" if "list_all (\<lambda>fd. fd = 0) fds"
    using that range by (simp add: list_all_length)
  ultimately show ?thesis using range by (auto simp: pick_child_def k_def Let_def)
qed

theorem pick_child_alive_witness: "pick_child [0, 7, 0, 0] (11 mod 4) = 1"
proof -
  have "pick_child [0, 7, 0, 0] (11 mod 4) = 1" by code_simp
  then show ?thesis using pick_child_alive [of "[0, 7, 0, 0]" 11] by (simp add: Let_def)
qed

section \<open>Answers\<close>

text \<open>
  The answer of a child comes out as it was made, that many copies of the
  letter, unless it has MAX_BUFF copies, which the child can choose: then the parent stores
  the terminator outside its array.
\<close>

theorem answer_printed:
  assumes "c \<noteq> 0" "s = 1 + x mod MAX_BUFF"
  shows "(let f = answer c s in unat (hd f) = s \<and>
    answer_line (unat (hd f)) (tl f) = (if s = MAX_BUFF then None else Some ([10] @ replicate s c @ [10])))"
proof -
  have s: "1 \<le> s" "s \<le> MAX_BUFF" using assms(2) by (simp_all add: MAX_BUFF_def Suc_leI)
  then have "unat (of_nat s :: byte) = s" by (simp add: unat_of_nat MAX_BUFF_def)
  moreover have "0 \<notin> set (replicate s c)" using assms(1) by simp
  ultimately show ?thesis using s
    by (simp add: answer_def answer_line_def Let_def cstr_append_nul [of _ "[]"])
qed

theorem answer_printed_witness:
  "answer_line (unat (hd (answer 97 200))) (tl (answer 97 200)) = None"
  using answer_printed [of 97 200 199] by (auto simp: MAX_BUFF_def Let_def)

text \<open>
  The letters sent are lower case and never \<open>z\<close>, for every random number.
\<close>

theorem letter_range:
  assumes "0 \<le> x"
  shows "is_lower (letter x) \<and> letter x \<noteq> of_char CHR ''z''"
proof -
  have b: "0 \<le> x mod 25" "x mod 25 \<le> 24" using pos_mod_bound [of 25 x] by simp_all
  then have u: "uint (letter x) = 97 + x mod 25"
    unfolding letter_def uint_word_of_int_eq by (intro take_bit_int_eq_self) auto
  have z: "uint (of_char CHR ''z'' :: byte) = 122" by code_simp
  show ?thesis using b u z by (auto simp: is_lower_def)
qed

theorem letter_range_witness: "is_lower (letter 49) \<and> letter 49 \<noteq> 122"
proof -
  have "(of_char CHR ''z'' :: byte) = 122" by code_simp
  then show ?thesis using letter_range [of 49] by simp
qed

end
