(* ===== verification/Threads.thy ===== *)
theory Threads
  imports Posix "HOL-Library.Multiset"
begin

text \<open>
  The threads of the POSIX programs: a thread is a program counter and its local variables,
  kept in a list indexed by the order of creation; the shared variables, the mutexes and the
  list form the state. One step executes one library call or one access to a shared
  variable, so an unprotected read-modify-write is two steps. This theory has the mutexes and
  the facts on the list of threads that every program of the kind shares.
\<close>

section \<open>Calls made while the threads are set up\<close>

abbreviation (input) SYS_mutex_init :: sysno where "SYS_mutex_init \<equiv> 1063"
abbreviation (input) SYS_attr_init :: sysno where "SYS_attr_init \<equiv> 1064"
abbreviation (input) SYS_attr_setdetach :: sysno where "SYS_attr_setdetach \<equiv> 1065"
abbreviation (input) SYS_sem_init :: sysno where "SYS_sem_init \<equiv> 1066"
abbreviation (input) SYS_barrier_init :: sysno where "SYS_barrier_init \<equiv> 1067"

text \<open>A call of the pthread library returns 0 or an error number.\<close>

definition pthread_ok :: "reply \<Rightarrow> bool" where
  "pthread_ok r \<longleftrightarrow> 0 \<le> r_val r \<and> in_int (r_val r)"

text \<open>
  The ways a set-up may stop: with a message, in a call that never returns, by a signal; it
  has no undefined behaviour and does not spin.
\<close>

definition orderly :: "halt \<Rightarrow> bool" where
  "orderly h \<longleftrightarrow> h = Exit 1 \<or> h = Blocked \<or> (\<exists>s. h = Killed s)"

lemma orderly_simps [simp]: "orderly (Exit 1)" "orderly Blocked" "orderly (Killed s)"
  by (simp_all add: orderly_def)

text \<open>A call about which only the success matters.\<close>

lemma wp_sys_any:
  "(\<And>r w1. good r \<Longrightarrow> Q r w1) \<Longrightarrow> (\<And>h w1. orderly h \<Longrightarrow> E h w1) \<Longrightarrow> wp (sys n args p good) Q E w"
  by (rule wp_sys_calls) (auto simp: orderly_def)

text \<open>\<open>rand_r\<close>: a number between 0 and RAND_MAX, and the next seed.\<close>

definition RAND_MAX :: int where "RAND_MAX = 2147483647"

type_synonym rng = "32 word \<Rightarrow> int \<times> 32 word"

section \<open>Mutexes\<close>

text \<open>
  A mutex has the number of its owner. Locking a taken mutex blocks (no step is possible);
  unlocking one that is not one's own is undefined for the default type and has no step.
\<close>

type_synonym mutex = "nat option"

definition mx_lock :: "nat \<Rightarrow> mutex \<Rightarrow> mutex option" where
  "mx_lock me m = (if m = None then Some (Some me) else None)"

definition mx_unlock :: "nat \<Rightarrow> mutex \<Rightarrow> mutex option" where
  "mx_unlock me m = (if m = Some me then Some None else None)"

lemma mx_lock_Some [simp]: "mx_lock me m = Some m1 \<longleftrightarrow> m = None \<and> m1 = Some me"
  by (auto simp: mx_lock_def)

lemma mx_unlock_Some [simp]: "mx_unlock me m = Some m1 \<longleftrightarrow> m = Some me \<and> m1 = None"
  by (auto simp: mx_unlock_def)

lemma mx_lock_None [simp]: "mx_lock me m = None \<longleftrightarrow> m \<noteq> None"
  by (simp add: mx_lock_def)

lemma mx_unlock_None [simp]: "mx_unlock me m = None \<longleftrightarrow> m \<noteq> Some me"
  by (simp add: mx_unlock_def)

text \<open>
  A mutex protects a region of the threads' code: its owner is exactly the thread in the
  region. Two threads are then never in it together.
\<close>

definition protects :: "mutex \<Rightarrow> ('t \<Rightarrow> bool) \<Rightarrow> 't list \<Rightarrow> bool" where
  "protects m inside ts \<longleftrightarrow> (\<forall>i < length ts. m = Some i \<longleftrightarrow> inside (ts ! i))"

lemma protectsD: "protects m inside ts \<Longrightarrow> i < length ts \<Longrightarrow> m = Some i \<longleftrightarrow> inside (ts ! i)"
  by (auto simp: protects_def)

lemma protects_exclusive:
  "protects m inside ts \<Longrightarrow> i < length ts \<Longrightarrow> j < length ts \<Longrightarrow> inside (ts ! i) \<Longrightarrow> inside (ts ! j) \<Longrightarrow> i = j"
  by (metis protects_def option.inject)

lemma protects_keep:
  "protects m inside ts \<Longrightarrow> inside y = inside (ts ! i) \<Longrightarrow> protects m inside (ts[i := y])"
  unfolding protects_def length_list_update by (metis nth_list_update_eq nth_list_update_neq option.inject option.distinct(1))

lemma protects_lock:
  "protects None inside ts \<Longrightarrow> inside y \<Longrightarrow> protects (Some i) inside (ts[i := y])"
  unfolding protects_def length_list_update by (metis nth_list_update_eq nth_list_update_neq option.inject option.distinct(1))

lemma protects_unlock:
  "protects (Some i) inside ts \<Longrightarrow> \<not> inside y \<Longrightarrow> protects None inside (ts[i := y])"
  unfolding protects_def length_list_update by (metis nth_list_update_eq nth_list_update_neq option.inject option.distinct(1))

text \<open>Used as conditional rewrite rules by the invariant proofs.\<close>

lemmas protects_rules = protects_keep protects_lock protects_unlock

lemma protects_outsider:
  "protects m inside ts \<Longrightarrow> (m = None \<or> (\<exists>k. m = Some k \<and> length ts \<le> k)) \<Longrightarrow>
   (m1 = None \<or> (\<exists>k. m1 = Some k \<and> length ts \<le> k)) \<Longrightarrow> protects m1 inside ts"
  by (auto simp: protects_def)

lemma protects_none: "(\<And>t. t \<in> set ts \<Longrightarrow> \<not> inside t) \<Longrightarrow> protects None inside ts"
  by (simp add: protects_def)

lemma protects_owner:
  "protects m inside ts \<Longrightarrow> m = Some i \<Longrightarrow> i < length ts \<Longrightarrow> inside (ts ! i)"
  by (auto simp: protects_def)

text \<open>
  The same for two threads, number 0 and number 1: at most one of them is in its region,
  and the mutex is owned by it.
\<close>

definition guards :: "mutex \<Rightarrow> bool \<Rightarrow> bool \<Rightarrow> bool" where
  "guards m in0 in1 \<longleftrightarrow> \<not> (in0 \<and> in1) \<and> m = (if in0 then Some 0 else if in1 then Some 1 else None)"

lemma guards_free [simp]: "guards None a b \<longleftrightarrow> \<not> a \<and> \<not> b"
  by (auto simp: guards_def)

lemma guards_owned [simp]: "guards (Some 0) a b \<longleftrightarrow> a \<and> \<not> b" "guards (Some (Suc 0)) a b \<longleftrightarrow> b \<and> \<not> a"
  by (auto simp: guards_def)

lemma guards_both [simp]: "\<not> guards m True True"
  by (simp add: guards_def)

lemma guards_entered: "guards m True b \<Longrightarrow> m = Some 0 \<and> \<not> b" "guards m a True \<Longrightarrow> m = Some 1 \<and> \<not> a"
  by (auto simp: guards_def)

text \<open>An array of mutexes, each protecting its own region.\<close>

definition locks_protect :: "mutex list \<Rightarrow> (nat \<Rightarrow> 't \<Rightarrow> bool) \<Rightarrow> 't list \<Rightarrow> bool" where
  "locks_protect ms inside ts \<longleftrightarrow> (\<forall>b < length ms. protects (ms ! b) (inside b) ts)"

lemma locks_protectD: "locks_protect ms inside ts \<Longrightarrow> b < length ms \<Longrightarrow> protects (ms ! b) (inside b) ts"
  by (simp add: locks_protect_def)

lemma locks_keep:
  "locks_protect ms inside ts \<Longrightarrow> (\<And>b. inside b y = inside b (ts ! i)) \<Longrightarrow> locks_protect ms inside (ts[i := y])"
  by (simp add: locks_protect_def protects_keep)

lemma locks_lock:
  "locks_protect ms inside ts \<Longrightarrow> ms ! b = None \<Longrightarrow> inside b y \<Longrightarrow>
   (\<And>c. c \<noteq> b \<Longrightarrow> inside c y = inside c (ts ! i)) \<Longrightarrow>
   locks_protect (ms[b := Some i]) inside (ts[i := y])"
  unfolding locks_protect_def
  by (metis length_list_update nth_list_update_eq nth_list_update_neq protects_keep protects_lock)

lemma locks_unlock:
  "locks_protect ms inside ts \<Longrightarrow> ms ! b = Some i \<Longrightarrow> \<not> inside b y \<Longrightarrow>
   (\<And>c. c \<noteq> b \<Longrightarrow> inside c y = inside c (ts ! i)) \<Longrightarrow>
   locks_protect (ms[b := None]) inside (ts[i := y])"
  unfolding locks_protect_def
  by (metis length_list_update nth_list_update_eq nth_list_update_neq protects_keep protects_unlock)

lemmas locks_rules = locks_keep locks_lock locks_unlock

text \<open>
  A property of each thread that depends on a shared variable which only the thread in the
  region changes: the others, being outside, do not mind.
\<close>

lemma all_threads_update:
  "list_all P ts \<Longrightarrow> (\<And>j. j < length ts \<Longrightarrow> j \<noteq> i \<Longrightarrow> P (ts ! j) \<Longrightarrow> P1 (ts ! j)) \<Longrightarrow> P1 y \<Longrightarrow>
   list_all P1 (ts[i := y])"
  unfolding list_all_length length_list_update by (metis nth_list_update_eq nth_list_update_neq)

lemma owner_updates:
  assumes "protects m inside ts" "i < length ts" "inside (ts ! i)" "list_all P ts"
    and "\<And>t. P t \<Longrightarrow> \<not> inside t \<Longrightarrow> P1 t" "P1 y"
  shows "list_all P1 (ts[i := y])"
  using assms(4)
proof (rule all_threads_update)
  fix j assume "j < length ts" "j \<noteq> i" "P (ts ! j)"
  moreover from this have "\<not> inside (ts ! j)"
    using assms(1-3) protects_exclusive by blast
  ultimately show "P1 (ts ! j)" using assms(5) by blast
qed fact

lemma owner_updates_cell:
  assumes "locks_protect ms inside ts" "b < length ms" "i < length ts" "inside b (ts ! i)" "list_all P ts"
    and "\<And>t. P t \<Longrightarrow> \<not> inside b t \<Longrightarrow> P1 t" "P1 y"
  shows "list_all P1 (ts[i := y])"
  by (rule owner_updates [where inside = "inside b" and P = P, OF locks_protectD [OF assms(1,2)] assms(3,4,5)])
    (use assms(6,7) in auto)

text \<open>Counting the threads in a region.\<close>

definition threads_in :: "('t \<Rightarrow> bool) \<Rightarrow> 't list \<Rightarrow> int" where
  "threads_in P ts = int (length (filter P ts))"

lemma threads_in_alt: "threads_in P ts = sum_list (map (\<lambda>t. if P t then 1 else 0) ts)"
  by (induction ts) (simp_all add: threads_in_def)

lemma threads_in_update:
  "i < length ts \<Longrightarrow>
   threads_in P (ts[i := y]) =
     threads_in P ts - (if P (ts ! i) then 1 else 0) + (if P y then 1 else 0)"
  by (simp add: threads_in_alt sum_list_map_update_int)

lemma threads_in_nonneg [simp]: "0 \<le> threads_in P ts"
  by (simp add: threads_in_def)

lemma threads_in_le: "threads_in P ts \<le> int (length ts)"
  by (simp add: threads_in_def)

lemma threads_in_zero: "(\<And>t. t \<in> set ts \<Longrightarrow> \<not> P t) \<Longrightarrow> threads_in P ts = 0"
  by (simp add: threads_in_def filter_empty_conv)

lemma threads_in_zeroD: "threads_in P ts = 0 \<Longrightarrow> i < length ts \<Longrightarrow> \<not> P (ts ! i)"
  by (simp add: threads_in_def filter_empty_conv)

lemma threads_in_none [simp]: "threads_in (\<lambda>t. False) ts = 0"
  by (simp add: threads_in_def)

lemma threads_in_pos: "i < length ts \<Longrightarrow> P (ts ! i) \<Longrightarrow> 0 < threads_in P ts"
  by (metis threads_in_nonneg threads_in_zeroD less_le)

lemma threads_in_mono:
  "length xs = length ys \<Longrightarrow> (\<And>j. j < length xs \<Longrightarrow> P (xs ! j) \<Longrightarrow> Q (ys ! j)) \<Longrightarrow>
   threads_in P xs \<le> threads_in Q ys"
proof (induction xs ys rule: list_induct2)
  case (Cons x xs y ys)
  have "P (xs ! j) \<Longrightarrow> Q (ys ! j)" if "j < length xs" for j using Cons.prems [of "Suc j"] that by simp
  then have "threads_in P xs \<le> threads_in Q ys" by (rule Cons.IH)
  then show ?case using Cons.prems [of 0] by (simp add: threads_in_def)
qed (simp add: threads_in_def)

lemma threads_in_cong:
  "(\<And>j. j < length ts \<Longrightarrow> P (ts ! j) = Q (ts ! j)) \<Longrightarrow> threads_in P ts = threads_in Q ts"
  using threads_in_mono [of ts ts P Q] threads_in_mono [of ts ts Q P] by force

lemma threads_in_append [simp]: "threads_in P (xs @ ys) = threads_in P xs + threads_in P ys"
  by (simp add: threads_in_def)

lemma threads_in_simps [simp]: "threads_in P [] = 0"
  "threads_in P (t # ts) = (if P t then 1 else 0) + threads_in P ts"
  by (simp_all add: threads_in_def)

text \<open>Adding one to a cell of an array.\<close>

lemma sum_list_cell:
  "b < length xs \<Longrightarrow> sum_list (xs[b := xs ! b + 1]) = sum_list xs + (1 :: int)"
  using sum_list_map_update_int [of b xs id "xs ! b + 1"] by simp

lemma protects_at_most_one:
  assumes "protects m inside ts"
  shows "threads_in inside ts \<le> 1" "m = Some k \<Longrightarrow> length ts \<le> k \<Longrightarrow> threads_in inside ts = 0"
proof -
  let ?B = "case m of None \<Rightarrow> {} | Some j \<Rightarrow> {j}"
  have "finite ?B" "card ?B \<le> 1" by (simp_all split: option.split)
  moreover have "{i. i < length ts \<and> inside (ts ! i)} \<subseteq> ?B"
    using assms by (auto simp: protects_def)
  ultimately have "card {i. i < length ts \<and> inside (ts ! i)} \<le> 1"
    using card_mono order_trans by blast
  then show "threads_in inside ts \<le> 1"
    by (simp add: threads_in_def length_filter_conv_card)
qed (use assms in \<open>auto intro!: threads_in_zero simp: protects_def in_set_conv_nth\<close>)

text \<open>What a selection of the threads contributes, as a multiset, when one thread changes.\<close>

lemma mset_filter_update:
  "i < length xs \<Longrightarrow>
   mset (map f (filter P (xs[i := y]))) + (if P (xs ! i) then {#f (xs ! i)#} else {#}) =
   mset (map f (filter P xs)) + (if P y then {#f y#} else {#})"
proof (induction xs arbitrary: i)
  case (Cons x xs)
  show ?case
  proof (cases i)
    case (Suc j)
    then show ?thesis using Cons.IH [of j] Cons.prems by (auto split: if_splits)
  qed (simp add: ac_simps)
qed simp

lemma mset_filter_keep:
  "i < length xs \<Longrightarrow> P y = P (xs ! i) \<Longrightarrow> f y = f (xs ! i) \<Longrightarrow>
   mset (map f (filter P (xs[i := y]))) = mset (map f (filter P xs))"
  using mset_filter_update [of i xs f P y] by (auto split: if_splits)

lemma mset_filter_new:
  "i < length xs \<Longrightarrow> P y \<Longrightarrow> \<not> P (xs ! i) \<Longrightarrow>
   mset (map f (filter P (xs[i := y]))) = add_mset (f y) (mset (map f (filter P xs)))"
  using mset_filter_update [of i xs f P y] by simp

section \<open>Schedules\<close>

text \<open>Running a system along a list of actions, for the concrete runs of the theorems.\<close>

fun run_schedule :: "('a \<Rightarrow> 's \<Rightarrow> 's option) \<Rightarrow> 'a list \<Rightarrow> 's \<Rightarrow> 's option" where
  "run_schedule act [] s = Some s"
| "run_schedule act (a # as) s = (case act a s of None \<Rightarrow> None | Some t \<Rightarrow> run_schedule act as t)"

lemma run_schedule_relpow:
  assumes "\<And>a s t. act a s = Some t \<Longrightarrow> step s t"
  shows "run_schedule act as s = Some t \<Longrightarrow> (step ^^ length as) s t"
proof (induction as arbitrary: s)
  case (Cons a as)
  then obtain u where "act a s = Some u" "run_schedule act as u = Some t" by (auto split: option.splits)
  then have "step s u" "(step ^^ length as) u t" using assms Cons.IH by blast+
  then show ?case by (metis length_Cons relpowp_Suc_I2)
qed simp

lemma run_schedule_steps:
  "run_schedule act as s = Some t \<Longrightarrow> (\<And>a s t. act a s = Some t \<Longrightarrow> step s t) \<Longrightarrow> step\<^sup>*\<^sup>* s t"
  using run_schedule_relpow [of act step] by (blast intro: relpowp_imp_rtranclp)

text \<open>The process of a main thread (\<open>None\<close>) and numbered threads.\<close>

type_synonym thread_id = "nat option"

end
