(* ===== verification/BallsBins.thy ===== *)
theory BallsBins
  imports Threads
begin

text \<open>
  \<open>Lab3/prog18.c\<close>: detached threads throw balls into eleven bins. The number of balls still
  to throw, each bin, and the number of balls thrown have a mutex each; the main thread polls
  the last number and reads the bins, without their mutexes, when all balls are thrown.
\<close>

section \<open>Arguments and set-up\<close>

definition DEFAULT_N :: int where "DEFAULT_N = 1000"
definition DEFAULT_K :: int where "DEFAULT_K = 10"
definition BIN_COUNT :: nat where "BIN_COUNT = 11"

definition read_args_balls :: "byte list list \<Rightarrow> ('g, int \<times> int) prog" where
  "read_args_balls argv =
     (let ballsCount = (if length argv \<ge> 2 then atoi (argv ! 1) else DEFAULT_N) in
      if length argv \<ge> 2 \<and> ballsCount \<le> 0 then
        bind_m (printf (str ''Invalid value for 'balls count'' @ [39]))  (\<lambda>_. halt_m (Exit 1))
      else
        let throwersCount = (if length argv \<ge> 3 then atoi (argv ! 2) else DEFAULT_K) in
        if length argv \<ge> 3 \<and> throwersCount \<le> 0 then
          bind_m (printf (str ''Invalid value for 'throwers count'' @ [39])) (\<lambda>_. halt_m (Exit 1))
        else ret (ballsCount, throwersCount))"

text \<open>
  What \<open>main\<close> does before it creates the threads: the mutexes of the bins, the argument
  blocks, the seeds.
\<close>

definition init_bins :: "('g, int list) prog" where
  "init_bins = for_m [0..<BIN_COUNT] (\<lambda>i bins.
     bind_m (sys SYS_mutex_init [int i] [] pthread_ok) (\<lambda>r.
     if r_val r \<noteq> 0 then err_exit ''Couldn't initialize mutex!'' else ret (bins @ [0]))) []"

definition balls_setup :: "byte list list \<Rightarrow> ('g, int \<times> int list \<times> 32 word list) prog" where
  "balls_setup argv =
     bind_m (read_args_balls argv) (\<lambda>(ballsCount, throwersCount).
     bind_m init_bins (\<lambda>bins.
     bind_m (sys SYS_malloc [64 * throwersCount] [] any_ok) (\<lambda>m.
     if r_val m = 0 then err_exit ''Malloc error for throwers arguments!''
     else
       bind_m (sys SYS_time [] [] any_ok) (\<lambda>t.
       bind_m (sys SYS_srand [r_val t] [] any_ok) (\<lambda>_.
       bind_m (for_m [0..<nat throwersCount] (\<lambda>i seeds.
         bind_m rand_m (\<lambda>v. ret (seeds @ [word_of_int v]))) []) (\<lambda>seeds.
       ret (ballsCount, bins, seeds)))))))"

section \<open>A throw\<close>

text \<open>
  \<open>rand_r\<close> gives a number and changes the seed. The comparison of the quotient by RAND_MAX
  with 0.5 is made in double precision, where it holds exactly when twice the number exceeds
  RAND_MAX: the quotients next to one half differ from it by 2 to the -32.
\<close>

fun throw_loop :: "rng \<Rightarrow> nat \<Rightarrow> 32 word \<Rightarrow> nat \<Rightarrow> nat \<times> 32 word" where
  "throw_loop rand_r 0 seed result = (result, seed)"
| "throw_loop rand_r (Suc n) seed result =
     (case rand_r seed of (v, seed1) \<Rightarrow>
        throw_loop rand_r n seed1 (if 2 * v > RAND_MAX then result + 1 else result))"

definition throwBall :: "rng \<Rightarrow> 32 word \<Rightarrow> nat \<times> 32 word" where
  "throwBall rand_r seed = throw_loop rand_r (BIN_COUNT - 1) seed 0"

lemma throw_loop_le: "fst (throw_loop rand_r n seed result) \<le> result + n"
proof (induction n arbitrary: seed result)
  case 0
  then show ?case by simp
next
  case (Suc n)
  show ?case
    using Suc.IH [of "snd (rand_r seed)" "if 2 * fst (rand_r seed) > RAND_MAX then result + 1 else result"]
    by (auto split: prod.splits if_splits)
qed

lemma throwBall_bin: "fst (throwBall rand_r seed) < BIN_COUNT"
  using throw_loop_le [of rand_r "BIN_COUNT - 1" seed 0] by (simp add: throwBall_def BIN_COUNT_def)

section \<open>The threads\<close>

text \<open>
  The program counter of \<open>throwing_func\<close>: the next library call or access to a shared
  variable; \<open>StoreX v\<close> is the second half of an increment or decrement that has read \<open>v\<close>.
\<close>

datatype thrower_pc =
    NotCreated | LockWaiting | TestWaiting | LoadWaiting | StoreWaiting int | UnlockTook | UnlockNone
  | Throw | LockBin nat | LoadBin nat | StoreBin nat int | UnlockBin nat
  | LockThrown | LoadThrown | StoreThrown int | UnlockThrown | Returned

record thrower =
  tpc :: thrower_pc
  seed :: "32 word"

text \<open>The main thread from \<open>make_throwers\<close> on.\<close>

datatype main_pc =
    Init_attr | Set_detached | Make_thrower nat | Test_bt int | Sleep_main | Lock_main | Read_main | Unlock_main int
  | Sum_bins nat int int | Show_bins nat int int "int list" | Exited int

record throwers =
  ballsCount :: int
  ballsWaiting :: int
  ballsThrown :: int
  bins :: "int list"
  mxBallsWaiting :: mutex
  mxBallsThrown :: mutex
  mxBins :: "mutex list"
  throwers :: "thrower list"
  mainpc :: main_pc

definition goto :: "nat \<Rightarrow> thrower_pc \<Rightarrow> throwers \<Rightarrow> throwers" where
  "goto i p s = s\<lparr>throwers := (throwers s)[i := (throwers s ! i)\<lparr>tpc := p\<rparr>]\<rparr>"

definition throwing_func :: "rng \<Rightarrow> nat \<Rightarrow> throwers \<Rightarrow> throwers option" where
  "throwing_func rand_r i s =
     (case tpc (throwers s ! i) of
        NotCreated \<Rightarrow> None
      | LockWaiting \<Rightarrow> map_option (\<lambda>m. goto i TestWaiting (s\<lparr>mxBallsWaiting := m\<rparr>)) (mx_lock i (mxBallsWaiting s))
      | TestWaiting \<Rightarrow> Some (goto i (if ballsWaiting s > 0 then LoadWaiting else UnlockNone) s)
      | LoadWaiting \<Rightarrow> Some (goto i (StoreWaiting (ballsWaiting s)) s)
      | StoreWaiting v \<Rightarrow> Some (goto i UnlockTook (s\<lparr>ballsWaiting := v - 1\<rparr>))
      | UnlockTook \<Rightarrow> map_option (\<lambda>m. goto i Throw (s\<lparr>mxBallsWaiting := m\<rparr>)) (mx_unlock i (mxBallsWaiting s))
      | UnlockNone \<Rightarrow> map_option (\<lambda>m. goto i Returned (s\<lparr>mxBallsWaiting := m\<rparr>)) (mx_unlock i (mxBallsWaiting s))
      | Throw \<Rightarrow> (case throwBall rand_r (seed (throwers s ! i)) of (binno, seed1) \<Rightarrow>
          Some (s\<lparr>throwers := (throwers s)[i := \<lparr>tpc = LockBin binno, seed = seed1\<rparr>]\<rparr>))
      | LockBin b \<Rightarrow> map_option (\<lambda>m. goto i (LoadBin b) (s\<lparr>mxBins := (mxBins s)[b := m]\<rparr>)) (mx_lock i (mxBins s ! b))
      | LoadBin b \<Rightarrow> Some (goto i (StoreBin b (bins s ! b)) s)
      | StoreBin b v \<Rightarrow> Some (goto i (UnlockBin b) (s\<lparr>bins := (bins s)[b := v + 1]\<rparr>))
      | UnlockBin b \<Rightarrow> map_option (\<lambda>m. goto i LockThrown (s\<lparr>mxBins := (mxBins s)[b := m]\<rparr>)) (mx_unlock i (mxBins s ! b))
      | LockThrown \<Rightarrow> map_option (\<lambda>m. goto i LoadThrown (s\<lparr>mxBallsThrown := m\<rparr>)) (mx_lock i (mxBallsThrown s))
      | LoadThrown \<Rightarrow> Some (goto i (StoreThrown (ballsThrown s)) s)
      | StoreThrown v \<Rightarrow> Some (goto i UnlockThrown (s\<lparr>ballsThrown := v + 1\<rparr>))
      | UnlockThrown \<Rightarrow> map_option (\<lambda>m. goto i LockWaiting (s\<lparr>mxBallsThrown := m\<rparr>)) (mx_unlock i (mxBallsThrown s))
      | Returned \<Rightarrow> None)"

text \<open>
  The main thread; \<open>ok\<close> is whether the pthread call of the step succeeds. Its number as the owner of a
  mutex is one past those of the threads.
\<close>

definition make_throwers :: "bool \<Rightarrow> throwers \<Rightarrow> throwers option" where
  "make_throwers ok s =
     (case mainpc s of
        Init_attr \<Rightarrow> Some (s\<lparr>mainpc := if ok then Set_detached else Exited 1\<rparr>)
      | Set_detached \<Rightarrow> Some (s\<lparr>mainpc := if ok then Make_thrower 0 else Exited 1\<rparr>)
      | Make_thrower i \<Rightarrow> Some (
          if i < length (throwers s) then
            (if ok then (goto i LockWaiting s)\<lparr>mainpc := Make_thrower (i + 1)\<rparr>
             else s\<lparr>mainpc := Exited 1\<rparr>)
          else s\<lparr>mainpc := Test_bt 0\<rparr>)
      | _ \<Rightarrow> None)"

definition balls_main :: "bool \<Rightarrow> throwers \<Rightarrow> throwers option" where
  "balls_main ok s =
     (case mainpc s of
        Init_attr \<Rightarrow> make_throwers ok s
      | Set_detached \<Rightarrow> make_throwers ok s
      | Make_thrower i \<Rightarrow> make_throwers ok s
      | Test_bt bt \<Rightarrow> Some (s\<lparr>mainpc := if bt < ballsCount s then Sleep_main else Sum_bins 0 0 0\<rparr>)
      | Sleep_main \<Rightarrow> Some (s\<lparr>mainpc := Lock_main\<rparr>)
      | Lock_main \<Rightarrow> map_option (\<lambda>m. s\<lparr>mainpc := Read_main, mxBallsThrown := m\<rparr>)
          (mx_lock (length (throwers s)) (mxBallsThrown s))
      | Read_main \<Rightarrow> Some (s\<lparr>mainpc := Unlock_main (ballsThrown s)\<rparr>)
      | Unlock_main bt \<Rightarrow> map_option (\<lambda>m. s\<lparr>mainpc := Test_bt bt, mxBallsThrown := m\<rparr>)
          (mx_unlock (length (throwers s)) (mxBallsThrown s))
      | Sum_bins i real mean \<Rightarrow> Some (s\<lparr>mainpc :=
          if i < BIN_COUNT then Sum_bins (i + 1) (real + bins s ! i) (mean + bins s ! i * int i)
          else Show_bins 0 real mean []\<rparr>)
      | Show_bins i real mean out \<Rightarrow> Some (s\<lparr>mainpc :=
          if i < BIN_COUNT then Show_bins (i + 1) real mean (out @ [bins s ! i]) else Exited 0\<rparr>)
      | Exited c \<Rightarrow> None)"

lemmas balls_main_defs = balls_main_def make_throwers_def

text \<open>The process: its threads interleave until the main thread exits.\<close>

definition running :: "throwers \<Rightarrow> bool" where
  "running s \<longleftrightarrow> (case mainpc s of Exited c \<Rightarrow> False | _ \<Rightarrow> True)"

inductive balls_step :: "rng \<Rightarrow> throwers \<Rightarrow> throwers \<Rightarrow> bool" for rand_r :: rng where
  Main: "balls_main ok s = Some t \<Longrightarrow> balls_step rand_r s t"
| Thread: "running s \<Longrightarrow> i < length (throwers s) \<Longrightarrow> throwing_func rand_r i s = Some t \<Longrightarrow>
    balls_step rand_r s t"

inductive_cases balls_stepE: "balls_step rand_r s t"

text \<open>The state in which the threads start, from the results of the set-up.\<close>

definition balls_start :: "int \<Rightarrow> int list \<Rightarrow> 32 word list \<Rightarrow> throwers" where
  "balls_start balls bs seeds =
     \<lparr>ballsCount = balls, ballsWaiting = balls, ballsThrown = 0, bins = bs,
      mxBallsWaiting = None, mxBallsThrown = None, mxBins = replicate BIN_COUNT None,
      throwers = map (\<lambda>x. \<lparr>tpc = NotCreated, seed = x\<rparr>) seeds, mainpc = Init_attr\<rparr>"

section \<open>Mutual exclusion\<close>

fun in_waiting :: "thrower_pc \<Rightarrow> bool" where
  "in_waiting TestWaiting = True" | "in_waiting LoadWaiting = True"
| "in_waiting (StoreWaiting v) = True" | "in_waiting UnlockTook = True"
| "in_waiting UnlockNone = True" | "in_waiting _ = False"

fun in_bin :: "nat \<Rightarrow> thrower_pc \<Rightarrow> bool" where
  "in_bin b (LoadBin c) = (c = b)" | "in_bin b (StoreBin c v) = (c = b)"
| "in_bin b (UnlockBin c) = (c = b)" | "in_bin b _ = False"

fun in_thrown :: "thrower_pc \<Rightarrow> bool" where
  "in_thrown LoadThrown = True" | "in_thrown (StoreThrown v) = True"
| "in_thrown UnlockThrown = True" | "in_thrown _ = False"

fun main_in_thrown :: "main_pc \<Rightarrow> bool" where
  "main_in_thrown Read_main = True" | "main_in_thrown (Unlock_main v) = True"
| "main_in_thrown _ = False"

fun bin_ok :: "thrower_pc \<Rightarrow> bool" where
  "bin_ok (LockBin b) = (b < BIN_COUNT)" | "bin_ok (LoadBin b) = (b < BIN_COUNT)"
| "bin_ok (StoreBin b v) = (b < BIN_COUNT)" | "bin_ok (UnlockBin b) = (b < BIN_COUNT)"
| "bin_ok _ = True"

text \<open>
  Each mutex is owned by exactly the thread in its region; the main thread takes only the
  mutex of the balls thrown; bin numbers are in range.
\<close>

definition owner_below :: "nat \<Rightarrow> mutex \<Rightarrow> bool" where
  "owner_below n m \<longleftrightarrow> (\<forall>k. m = Some k \<longrightarrow> k < n)"

definition bin_locks :: "throwers \<Rightarrow> bool" where
  "bin_locks s \<longleftrightarrow> length (bins s) = BIN_COUNT \<and> length (mxBins s) = BIN_COUNT \<and>
     list_all (\<lambda>t. bin_ok (tpc t)) (throwers s) \<and>
     list_all (owner_below (length (throwers s))) (mxBins s) \<and>
     locks_protect (mxBins s) (\<lambda>b t. in_bin b (tpc t)) (throwers s)"

definition waiting_lock :: "throwers \<Rightarrow> bool" where
  "waiting_lock s \<longleftrightarrow> owner_below (length (throwers s)) (mxBallsWaiting s) \<and>
     protects (mxBallsWaiting s) (\<lambda>t. in_waiting (tpc t)) (throwers s)"

definition thrown_lock :: "throwers \<Rightarrow> bool" where
  "thrown_lock s \<longleftrightarrow> owner_below (Suc (length (throwers s))) (mxBallsThrown s) \<and>
     protects (mxBallsThrown s) (\<lambda>t. in_thrown (tpc t)) (throwers s) \<and>
     (mxBallsThrown s = Some (length (throwers s)) \<longleftrightarrow> main_in_thrown (mainpc s))"

definition created :: "throwers \<Rightarrow> bool" where
  "created s \<longleftrightarrow> (case mainpc s of
       Make_thrower i \<Rightarrow> \<forall>j < length (throwers s). tpc (throwers s ! j) = NotCreated \<longleftrightarrow> i \<le> j
     | Init_attr \<Rightarrow> \<forall>j < length (throwers s). tpc (throwers s ! j) = NotCreated
     | Set_detached \<Rightarrow> \<forall>j < length (throwers s). tpc (throwers s ! j) = NotCreated
     | Exited c \<Rightarrow> True
     | _ \<Rightarrow> \<forall>j < length (throwers s). tpc (throwers s ! j) \<noteq> NotCreated)"

lemma owner_below_simps [simp]: "owner_below n None" "owner_below n (Some k) = (k < n)"
  by (simp_all add: owner_below_def)

lemmas thread_frames = goto_def throwing_func_def

lemma throwing_func_frame:
  assumes "throwing_func rand_r i s = Some t"
  shows "length (throwers t) = length (throwers s)" "mainpc t = mainpc s" "ballsCount t = ballsCount s"
    "length (mxBins t) = length (mxBins s)" "length (bins t) = length (bins s)"
    "\<And>j. j \<noteq> i \<Longrightarrow> throwers t ! j = throwers s ! j"
  using assms by (auto simp: thread_frames split: thrower_pc.splits prod.splits)

lemma waiting_lock_thread:
  assumes "waiting_lock s" "i < length (throwers s)" "throwing_func rand_r i s = Some t"
  shows "waiting_lock t"
  using assms
  by (cases "tpc (throwers s ! i)")
    (auto simp: thread_frames waiting_lock_def protects_rules split: prod.splits)

lemma thrown_lock_thread:
  assumes "thrown_lock s" "i < length (throwers s)" "throwing_func rand_r i s = Some t"
  shows "thrown_lock t"
  using assms
  by (cases "tpc (throwers s ! i)")
    (auto simp: thread_frames thrown_lock_def protects_rules split: prod.splits)

lemma bin_locks_thread:
  assumes "bin_locks s" "i < length (throwers s)" "throwing_func rand_r i s = Some t"
  shows "bin_locks t"
proof -
  have "bin_ok (tpc (throwers s ! i))"
    using assms(1,2) by (simp add: bin_locks_def list_all_length)
  then show ?thesis
    using assms throwBall_bin [of rand_r "seed (throwers s ! i)"]
    by (cases "tpc (throwers s ! i)")
      (auto simp: thread_frames bin_locks_def locks_rules list_all_update split: prod.splits)
qed

section \<open>Where the balls are\<close>

fun in_hand :: "thrower_pc \<Rightarrow> bool" where
  "in_hand UnlockTook = True" | "in_hand Throw = True" | "in_hand (LockBin b) = True"
| "in_hand (LoadBin b) = True" | "in_hand (StoreBin b v) = True" | "in_hand _ = False"

fun uncounted :: "thrower_pc \<Rightarrow> bool" where
  "uncounted (UnlockBin b) = True" | "uncounted LockThrown = True" | "uncounted LoadThrown = True"
| "uncounted (StoreThrown v) = True" | "uncounted _ = False"

text \<open>A value read under a mutex is still the value of the variable.\<close>

fun fresh_waiting :: "int \<Rightarrow> thrower_pc \<Rightarrow> bool" where
  "fresh_waiting x LoadWaiting = (0 < x)" | "fresh_waiting x (StoreWaiting v) = (v = x \<and> 0 < x)"
| "fresh_waiting x _ = True"

fun fresh_bin :: "int list \<Rightarrow> thrower_pc \<Rightarrow> bool" where
  "fresh_bin xs (StoreBin b v) = (v = xs ! b)" | "fresh_bin xs _ = True"

fun fresh_thrown :: "int \<Rightarrow> thrower_pc \<Rightarrow> bool" where
  "fresh_thrown x (StoreThrown v) = (v = x)" | "fresh_thrown x _ = True"

definition balls_fresh :: "throwers \<Rightarrow> bool" where
  "balls_fresh s \<longleftrightarrow> list_all (\<lambda>t. fresh_waiting (ballsWaiting s) (tpc t)) (throwers s) \<and>
     list_all (\<lambda>t. fresh_bin (bins s) (tpc t)) (throwers s) \<and>
     list_all (\<lambda>t. fresh_thrown (ballsThrown s) (tpc t)) (throwers s)"

definition balls_conserved :: "throwers \<Rightarrow> bool" where
  "balls_conserved s \<longleftrightarrow> 0 \<le> ballsWaiting s \<and> 0 \<le> ballsThrown s \<and>
     ballsCount s = ballsWaiting s + threads_in (\<lambda>t. in_hand (tpc t)) (throwers s) + sum_list (bins s) \<and>
     sum_list (bins s) = ballsThrown s + threads_in (\<lambda>t. uncounted (tpc t)) (throwers s)"

text \<open>A thread stops only when no ball is left to throw.\<close>

fun stops :: "thrower_pc \<Rightarrow> bool" where
  "stops UnlockNone = True" | "stops Returned = True" | "stops _ = False"

definition drained :: "throwers \<Rightarrow> bool" where
  "drained s \<longleftrightarrow> list_all (\<lambda>t. stops (tpc t) \<longrightarrow> ballsWaiting s = 0) (throwers s)"

lemma fresh_outside:
  "\<not> in_waiting p \<Longrightarrow> fresh_waiting x p" "\<not> in_thrown p \<Longrightarrow> fresh_thrown x p"
  "\<not> in_bin b p \<Longrightarrow> fresh_bin xs p \<Longrightarrow> fresh_bin (xs[b := v]) p"
  by (cases p; simp)+

lemma balls_fresh_thread:
  assumes "balls_fresh s" "waiting_lock s" "thrown_lock s" "bin_locks s"
    and i: "i < length (throwers s)" and t: "throwing_func rand_r i s = Some t"
  shows "balls_fresh t"
proof (cases "tpc (throwers s ! i)")
  case (StoreWaiting v)
  moreover have "list_all (\<lambda>t. fresh_waiting (v - 1) (tpc t))
      ((throwers s)[i := (throwers s ! i)\<lparr>tpc := UnlockTook\<rparr>])"
    by (rule owner_updates [where inside = "\<lambda>t. in_waiting (tpc t)"])
      (use assms i StoreWaiting in \<open>auto simp: waiting_lock_def balls_fresh_def fresh_outside\<close>)
  ultimately show ?thesis
    using assms by (auto simp: balls_fresh_def thread_frames list_all_update)
next
  case (StoreBin b v)
  have "b < BIN_COUNT" using assms i StoreBin by (auto simp: bin_locks_def list_all_length)
  then have "list_all (\<lambda>t. fresh_bin ((bins s)[b := v + 1]) (tpc t))
      ((throwers s)[i := (throwers s ! i)\<lparr>tpc := UnlockBin b\<rparr>])"
    by (intro owner_updates_cell [where inside = "\<lambda>b t. in_bin b (tpc t)"
          and P = "\<lambda>t. fresh_bin (bins s) (tpc t)"])
      (use assms i StoreBin in \<open>auto simp: bin_locks_def balls_fresh_def fresh_outside\<close>)
  then show ?thesis
    using assms StoreBin by (auto simp: balls_fresh_def thread_frames list_all_update)
next
  case (StoreThrown v)
  moreover have "list_all (\<lambda>t. fresh_thrown (v + 1) (tpc t))
      ((throwers s)[i := (throwers s ! i)\<lparr>tpc := UnlockThrown\<rparr>])"
    by (rule owner_updates [where inside = "\<lambda>t. in_thrown (tpc t)"])
      (use assms i StoreThrown in \<open>auto simp: thrown_lock_def balls_fresh_def fresh_outside\<close>)
  ultimately show ?thesis
    using assms by (auto simp: balls_fresh_def thread_frames list_all_update)
next
  case LoadWaiting
  have "fresh_waiting (ballsWaiting s) LoadWaiting"
    using assms(1) i LoadWaiting list_all_nthD by (fastforce simp: balls_fresh_def)
  then show ?thesis using assms LoadWaiting by (auto simp: balls_fresh_def thread_frames list_all_update)
qed (use assms in \<open>auto simp: balls_fresh_def thread_frames list_all_update split: prod.splits\<close>)

lemma balls_conserved_thread:
  assumes "balls_conserved s" "balls_fresh s" "bin_locks s"
    and i: "i < length (throwers s)" and t: "throwing_func rand_r i s = Some t"
  shows "balls_conserved t"
proof -
  let ?p = "tpc (throwers s ! i)"
  have fresh: "fresh_waiting (ballsWaiting s) ?p" "fresh_bin (bins s) ?p" "fresh_thrown (ballsThrown s) ?p"
    "bin_ok ?p" "length (bins s) = BIN_COUNT"
    using assms i by (simp_all add: balls_fresh_def bin_locks_def list_all_length)
  show ?thesis
    using assms fresh
    by (cases ?p) (auto simp: balls_conserved_def thread_frames threads_in_update sum_list_cell
        split: prod.splits)
qed

lemma drained_thread:
  assumes "drained s" "balls_fresh s" "balls_conserved s"
    and i: "i < length (throwers s)" and t: "throwing_func rand_r i s = Some t"
  shows "drained t"
proof (cases "\<exists>v. tpc (throwers s ! i) = StoreWaiting v")
  case True
  then have "0 < ballsWaiting s"
    using assms(2) i by (auto simp: balls_fresh_def list_all_length)
  then have "list_all (\<lambda>t. \<not> stops (tpc t)) (throwers s)"
    using assms(1) by (auto simp: drained_def list_all_length)
  then have "list_all (\<lambda>t. \<not> stops (tpc t)) ((throwers s)[i := (throwers s ! i)\<lparr>tpc := UnlockTook\<rparr>])"
    by (rule list_all_update) simp
  then show ?thesis using True t by (auto simp: drained_def thread_frames list_all_iff)
next
  case False
  have "stops (tpc (throwers s ! i)) \<longrightarrow> ballsWaiting s = 0" "0 \<le> ballsWaiting s"
    using assms(1,3) i by (simp_all add: drained_def balls_conserved_def list_all_length)
  then show ?thesis
    using False assms(1) t
    by (cases "tpc (throwers s ! i)")
      (auto simp: drained_def thread_frames list_all_update split: prod.splits)
qed

section \<open>The main thread\<close>

text \<open>
  What the main thread knows: the count it tests is a lower bound, and when it reads the
  bins every ball has been counted, so that they do not change any more.
\<close>

definition all_counted :: "throwers \<Rightarrow> bool" where
  "all_counted s \<longleftrightarrow> ballsThrown s = ballsCount s"

fun main_knows :: "main_pc \<Rightarrow> int \<Rightarrow> int \<Rightarrow> int list \<Rightarrow> bool" where
  "main_knows (Test_bt bt) n th bs = (bt \<le> th)"
| "main_knows (Unlock_main bt) n th bs = (bt \<le> th)"
| "main_knows (Sum_bins i real mean) n th bs =
     (th = n \<and> i \<le> BIN_COUNT \<and> real = sum_list (take i bs) \<and> mean = (\<Sum>j<i. bs ! j * int j))"
| "main_knows (Show_bins i real mean out) n th bs =
     (th = n \<and> i \<le> BIN_COUNT \<and> real = sum_list bs \<and> mean = (\<Sum>j<BIN_COUNT. bs ! j * int j) \<and>
      out = take i bs)"
| "main_knows _ n th bs = True"

fun main_reads :: "main_pc \<Rightarrow> bool" where
  "main_reads (Sum_bins i real mean) = True" | "main_reads (Show_bins i real mean out) = True"
| "main_reads _ = False"

definition main_view :: "throwers \<Rightarrow> bool" where
  "main_view s \<longleftrightarrow> main_knows (mainpc s) (ballsCount s) (ballsThrown s) (bins s)"

lemma all_counted_calm:
  assumes "balls_conserved s" "balls_fresh s" "i < length (throwers s)" "ballsThrown s = ballsCount s"
  shows "\<not> in_hand (tpc (throwers s ! i))" "\<not> uncounted (tpc (throwers s ! i))" "ballsWaiting s = 0"
    and "tpc (throwers s ! i) \<noteq> LoadWaiting" "tpc (throwers s ! i) \<noteq> StoreWaiting v"
proof -
  have w: "ballsWaiting s = 0" "threads_in (\<lambda>t. in_hand (tpc t)) (throwers s) = 0"
      "threads_in (\<lambda>t. uncounted (tpc t)) (throwers s) = 0"
    using assms(1,4) threads_in_nonneg [of "\<lambda>t. in_hand (tpc t)" "throwers s"]
      threads_in_nonneg [of "\<lambda>t. uncounted (tpc t)" "throwers s"]
    unfolding balls_conserved_def by linarith+
  then show "\<not> in_hand (tpc (throwers s ! i))" "\<not> uncounted (tpc (throwers s ! i))" "ballsWaiting s = 0"
    using assms(3) threads_in_zeroD by blast+
  have "fresh_waiting 0 (tpc (throwers s ! i))"
    using assms(2,3) w by (simp add: balls_fresh_def list_all_length)
  then show "tpc (throwers s ! i) \<noteq> LoadWaiting" "tpc (throwers s ! i) \<noteq> StoreWaiting v"
    by (cases "tpc (throwers s ! i)"; simp)+
qed

lemma throwing_func_calm:
  assumes "throwing_func rand_r i s = Some t"
    and "\<not> in_hand (tpc (throwers s ! i))" "\<not> uncounted (tpc (throwers s ! i))"
  shows "bins t = bins s \<and> ballsThrown t = ballsThrown s"
  using assms by (cases "tpc (throwers s ! i)") (auto simp: thread_frames split: prod.splits)

lemma throwing_func_counts:
  assumes "throwing_func rand_r i s = Some t" "balls_fresh s" "i < length (throwers s)"
  shows "ballsThrown s \<le> ballsThrown t"
proof -
  have "fresh_thrown (ballsThrown s) (tpc (throwers s ! i))"
    using assms by (simp add: balls_fresh_def list_all_length)
  then show ?thesis
    using assms(1) by (cases "tpc (throwers s ! i)") (auto simp: thread_frames split: prod.splits)
qed

lemma main_view_thread:
  assumes "main_view s" "balls_conserved s" "balls_fresh s"
    and i: "i < length (throwers s)" and t: "throwing_func rand_r i s = Some t"
  shows "main_view t"
proof (cases "main_reads (mainpc s)")
  case True
  then have "ballsThrown s = ballsCount s"
    using assms(1) by (cases "mainpc s") (auto simp: main_view_def)
  then have "bins t = bins s \<and> ballsThrown t = ballsThrown s"
    using throwing_func_calm [OF t] all_counted_calm [OF assms(2,3) i] by blast
  then show ?thesis using assms(1) throwing_func_frame [OF t] by (simp add: main_view_def)
next
  case False
  then show ?thesis
    using assms(1) throwing_func_frame [OF t] throwing_func_counts [OF t assms(3) i]
    by (cases "mainpc s") (auto simp: main_view_def)
qed

lemma created_thread:
  assumes "created s" and i: "i < length (throwers s)" and t: "throwing_func rand_r i s = Some t"
  shows "created t"
proof -
  have "tpc (throwers s ! i) \<noteq> NotCreated" "tpc (throwers t ! i) \<noteq> NotCreated"
    using t i by (auto simp: thread_frames split: thrower_pc.splits prod.splits if_splits)
  then have "tpc (throwers t ! j) = NotCreated \<longleftrightarrow> tpc (throwers s ! j) = NotCreated" for j
    using throwing_func_frame(6) [OF t, of j] by (cases "j = i") auto
  then show ?thesis using assms(1) throwing_func_frame(1,2) [OF t] by (simp add: created_def split: main_pc.splits)
qed

section \<open>The invariant\<close>

definition balls_inv :: "throwers \<Rightarrow> bool" where
  "balls_inv s \<longleftrightarrow> bin_locks s \<and> waiting_lock s \<and> thrown_lock s \<and> balls_fresh s \<and>
     balls_conserved s \<and> drained s \<and> main_view s \<and> created s"

lemma take_Suc_sum: "i < length xs \<Longrightarrow> sum_list (take (Suc i) xs) = sum_list (take i xs) + (xs ! i :: int)"
  by (simp add: take_Suc_conv_app_nth)

lemma balls_main_frame:
  assumes "balls_main ok s = Some t" "\<And>i. mainpc s \<noteq> Make_thrower i"
  shows "t = s\<lparr>mainpc := mainpc t, mxBallsThrown := mxBallsThrown t\<rparr>"
  using assms by (cases "mainpc s") (auto simp: balls_main_defs)

lemma balls_main_thrown_lock:
  assumes "thrown_lock s" "balls_main ok s = Some t" "\<And>i. mainpc s \<noteq> Make_thrower i"
  shows "thrown_lock t"
  using assms by (cases "mainpc s") (auto simp: balls_main_defs thrown_lock_def protects_def split: if_splits)

lemma thrown_le: "balls_conserved s \<Longrightarrow> ballsThrown s \<le> ballsCount s"
  using threads_in_nonneg [of "\<lambda>t. in_hand (tpc t)" "throwers s"]
    threads_in_nonneg [of "\<lambda>t. uncounted (tpc t)" "throwers s"]
  unfolding balls_conserved_def by linarith

lemma balls_main_view:
  assumes "main_view s" "balls_conserved s" "length (bins s) = BIN_COUNT"
    and "balls_main ok s = Some t" "\<And>i. mainpc s \<noteq> Make_thrower i"
  shows "main_view t"
  using assms(1,3-5) thrown_le [OF assms(2)]
  by (cases "mainpc s") (auto simp: balls_main_defs main_view_def take_Suc_conv_app_nth)

lemma balls_main_inv:
  assumes inv: "balls_inv s" and t: "balls_main ok s = Some t"
  shows "balls_inv t"
proof (cases "\<exists>i. mainpc s = Make_thrower i")
  case True
  then obtain i where i: "mainpc s = Make_thrower i" ..
  show ?thesis
  proof (cases "i < length (throwers s) \<and> ok")
    case True
    then have new: "tpc (throwers s ! i) = NotCreated"
      using inv i by (simp add: balls_inv_def created_def)
    have t': "t = (goto i LockWaiting s)\<lparr>mainpc := Make_thrower (i + 1)\<rparr>"
      using t i True by (simp add: balls_main_defs)
    have "created t"
      using inv i by (auto simp: t' balls_inv_def created_def goto_def nth_list_update split: if_splits)
    then show ?thesis
      using inv i True new
      by (simp add: t' balls_inv_def bin_locks_def waiting_lock_def thrown_lock_def balls_fresh_def
          balls_conserved_def drained_def main_view_def goto_def protects_rules locks_rules list_all_update threads_in_update)
  next
    case False
    then have "t = s\<lparr>mainpc := if i < length (throwers s) then Exited 1 else Test_bt 0\<rparr>"
      using t i by (auto simp: balls_main_defs)
    then show ?thesis using inv i
      by (auto simp: balls_inv_def bin_locks_def waiting_lock_def thrown_lock_def balls_fresh_def
          balls_conserved_def drained_def main_view_def created_def)
  qed
next
  case False
  then have n: "\<And>i. mainpc s \<noteq> Make_thrower i" by blast
  have "length (bins s) = BIN_COUNT" using inv by (simp add: balls_inv_def bin_locks_def)
  then have "main_view t" "thrown_lock t"
    using inv balls_main_view [OF _ _ _ t n] balls_main_thrown_lock [OF _ t n] by (simp_all add: balls_inv_def)
  moreover have "created t"
    using inv t n by (cases "mainpc s") (auto simp: balls_main_defs balls_inv_def created_def)
  moreover obtain m p where "t = s\<lparr>mainpc := m, mxBallsThrown := p\<rparr>"
    using balls_main_frame [OF t n] by blast
  ultimately show ?thesis using inv
    by (simp add: balls_inv_def bin_locks_def waiting_lock_def balls_fresh_def balls_conserved_def drained_def)
qed

lemma balls_step_inv: "balls_inv s \<Longrightarrow> balls_step rand_r s t \<Longrightarrow> balls_inv t"
proof (erule balls_stepE)
  fix i assume "balls_inv s" "i < length (throwers s)" "throwing_func rand_r i s = Some t"
  then show "balls_inv t"
    unfolding balls_inv_def
    by (blast intro: waiting_lock_thread thrown_lock_thread bin_locks_thread balls_fresh_thread
        balls_conserved_thread drained_thread main_view_thread created_thread)
qed (rule balls_main_inv)

lemma balls_start_inv: "0 \<le> balls \<Longrightarrow> balls_inv (balls_start balls (replicate BIN_COUNT 0) seeds)"
  by (auto intro!: threads_in_zero simp: balls_inv_def balls_start_def bin_locks_def waiting_lock_def thrown_lock_def balls_fresh_def
      balls_conserved_def drained_def main_view_def created_def list_all_length locks_protect_def protects_def
      sum_list_replicate)

definition balls_init :: "throwers \<Rightarrow> bool" where
  "balls_init s \<longleftrightarrow> (\<exists>balls seeds. 0 < balls \<and> s = balls_start balls (replicate BIN_COUNT 0) seeds)"

interpretation balls: inv_system balls_init "balls_step rand_r" balls_inv for rand_r
  by unfold_locales (auto simp: balls_init_def intro: balls_start_inv balls_step_inv)

lemma ballsCount_steps: "(balls_step rand_r)\<^sup>*\<^sup>* s t \<Longrightarrow> ballsCount t = ballsCount s"
proof (induction rule: rtranclp_induct)
  case (step u v)
  from step(2) have "ballsCount v = ballsCount u"
    by cases (auto dest: throwing_func_frame(3) simp: balls_main_defs goto_def split: main_pc.splits if_splits)
  with step(3) show ?case by simp
qed simp

lemma threads_steps: "(balls_step rand_r)\<^sup>*\<^sup>* s t \<Longrightarrow> length (throwers t) = length (throwers s)"
proof (induction rule: rtranclp_induct)
  case (step u v)
  from step(2) have "length (throwers v) = length (throwers u)"
    by cases (auto dest: throwing_func_frame(1) simp: balls_main_defs goto_def split: main_pc.splits if_splits)
  with step(3) show ?case by simp
qed simp

text \<open>
  Property C2. Whatever the interleaving, when \<open>prog18\<close> has started to print the bins, every
  one of the balls is in a bin: the total it prints is the number of balls it was given, the
  numbers shown so far are those of the bins, the numerator of the mean is the sum of the bin
  numbers of all balls; and no ball is on its way, although the bins are read without their
  mutexes.
\<close>

theorem all_balls_are_binned:
  assumes "0 < balls"
    and "(balls_step rand_r)\<^sup>*\<^sup>* (balls_start balls (replicate BIN_COUNT 0) seeds) s"
    and "mainpc s = Show_bins i real mean out"
  shows "real = balls \<and> sum_list (bins s) = balls \<and> ballsCount s = balls \<and> ballsWaiting s = 0 \<and>
    mean = (\<Sum>j < BIN_COUNT. bins s ! j * int j) \<and> out = take i (bins s) \<and>
    (\<forall>k < length (throwers s). \<not> in_hand (tpc (throwers s ! k)) \<and> \<not> uncounted (tpc (throwers s ! k)))"
proof -
  have "ballsCount s = balls"
    using ballsCount_steps [OF assms(2)] by (simp add: balls_start_def)
  moreover have inv: "balls_inv s"
    using balls.inv_reachable assms(1,2) balls_init_def by blast
  then have m: "main_view s" "balls_conserved s" "balls_fresh s" by (simp_all add: balls_inv_def)
  moreover have "ballsThrown s = ballsCount s" "real = sum_list (bins s)"
    "mean = (\<Sum>j < BIN_COUNT. bins s ! j * int j)" "out = take i (bins s)"
    using m(1) assms(3) by (simp_all add: main_view_def)
  moreover have "ballsWaiting s = 0" "sum_list (bins s) = ballsCount s"
    using m(2) \<open>ballsThrown s = ballsCount s\<close>
      threads_in_nonneg [of "\<lambda>t. in_hand (tpc t)" "throwers s"]
      threads_in_nonneg [of "\<lambda>t. uncounted (tpc t)" "throwers s"]
    unfolding balls_conserved_def by linarith+
  ultimately show ?thesis using all_counted_calm(1,2) [OF m(2,3)] by simp
qed

definition balls_act :: "rng \<Rightarrow> thread_id \<Rightarrow> throwers \<Rightarrow> throwers option" where
  "balls_act rand_r a s = (case a of
       None \<Rightarrow> balls_main True s
     | Some i \<Rightarrow> if running s \<and> i < length (throwers s) then throwing_func rand_r i s else None)"

lemma balls_act_step: "balls_act rand_r a s = Some t \<Longrightarrow> balls_step rand_r s t"
  by (auto simp: balls_act_def split: option.splits if_splits intro: balls_step.intros)

lemma balls_run: "run_schedule (balls_act rand_r) as s = Some t \<Longrightarrow> (balls_step rand_r)\<^sup>*\<^sup>* s t"
  by (erule run_schedule_steps) (rule balls_act_step)

theorem all_balls_are_binned_witness:
  "\<exists>s :: throwers. sum_list (bins s) = 1 \<and> ballsWaiting s = 0 \<and> mainpc s = Show_bins 1 1 10 [0]"
proof -
  let ?rng = "\<lambda>x. (2147483647, x)"
  let ?start = "balls_start 1 (replicate BIN_COUNT 0) [3]"
  let ?run = "run_schedule (balls_act ?rng) ([None, None, None, None] @ replicate 17 (Some 0) @ replicate 19 None) ?start"
  have run: "?run \<noteq> None \<and> mainpc (the ?run) = Show_bins 1 1 10 [0]" by code_simp
  then obtain s where s: "?run = Some s" "mainpc s = Show_bins 1 1 10 [0]" by auto
  have "sum_list (bins s) = 1 \<and> ballsWaiting s = 0"
    using all_balls_are_binned [OF _ balls_run [OF s(1)] s(2)] by simp
  then show ?thesis using s(2) by blast
qed

section \<open>The throwers terminate\<close>

text \<open>The steps a thread has left if it takes no further ball; a ball costs fourteen more.\<close>

fun steps_left :: "thrower_pc \<Rightarrow> nat" where
  "steps_left NotCreated = 5" | "steps_left LockWaiting = 4" | "steps_left TestWaiting = 3"
| "steps_left LoadWaiting = 2" | "steps_left (StoreWaiting v) = 1" | "steps_left UnlockNone = 1"
| "steps_left UnlockTook = 14" | "steps_left Throw = 13" | "steps_left (LockBin b) = 12"
| "steps_left (LoadBin b) = 11" | "steps_left (StoreBin b v) = 10" | "steps_left (UnlockBin b) = 9"
| "steps_left LockThrown = 8" | "steps_left LoadThrown = 7" | "steps_left (StoreThrown v) = 6"
| "steps_left UnlockThrown = 5" | "steps_left Returned = 0"

definition throws_left :: "throwers \<Rightarrow> nat" where
  "throws_left s = 14 * nat (ballsWaiting s) + sum_list (map (\<lambda>t. steps_left (tpc t)) (throwers s))"

text \<open>
  The steps of the threads while the main thread sleeps, from a state in which all threads
  exist and the main thread is not between locking and unlocking.
\<close>

inductive throw_step :: "rng \<Rightarrow> throwers \<Rightarrow> throwers \<Rightarrow> bool" for rand_r :: rng where
  "i < length (throwers s) \<Longrightarrow> throwing_func rand_r i s = Some t \<Longrightarrow> throw_step rand_r s t"

definition sleeping :: "throwers \<Rightarrow> bool" where
  "sleeping s \<longleftrightarrow> balls_inv s \<and> mainpc s = Sleep_main"

definition all_returned :: "throwers \<Rightarrow> bool" where
  "all_returned s \<longleftrightarrow> list_all (\<lambda>t. tpc t = Returned) (throwers s)"

lemma sleeping_step: "sleeping s \<Longrightarrow> throw_step rand_r s t \<Longrightarrow> sleeping t"
  by (erule throw_step.cases)
    (auto simp: sleeping_def throwing_func_frame running_def intro: balls_step_inv [OF _ Thread])

lemma throws_left_step:
  assumes "sleeping s" "throw_step rand_r s t"
  shows "throws_left t < throws_left s"
  using assms(2)
proof cases
  case (1 i)
  have "fresh_waiting (ballsWaiting s) (tpc (throwers s ! i))"
    using assms(1) 1(1) by (simp add: sleeping_def balls_inv_def balls_fresh_def list_all_length)
  moreover have "steps_left (tpc (throwers s ! i)) \<le> sum_list (map (\<lambda>t. steps_left (tpc t)) (throwers s))"
    using sum_list_map_ge_nth [OF 1(1)] .
  ultimately show ?thesis
    using 1
    by (cases "tpc (throwers s ! i)")
      (auto simp: throws_left_def thread_frames sum_list_map_update_diff split: prod.splits)
qed

text \<open>The owner of a mutex can always go on; so can a thread that waits for a free one.\<close>

lemma owner_moves:
  assumes "sleeping s" "i < length (throwers s)"
    and "in_waiting (tpc (throwers s ! i)) \<or> in_thrown (tpc (throwers s ! i)) \<or> in_bin b (tpc (throwers s ! i))"
  shows "\<exists>t. throwing_func rand_r i s = Some t"
proof -
  have w: "protects (mxBallsWaiting s) (\<lambda>t. in_waiting (tpc t)) (throwers s)"
    "protects (mxBallsThrown s) (\<lambda>t. in_thrown (tpc t)) (throwers s)"
    "locks_protect (mxBins s) (\<lambda>b t. in_bin b (tpc t)) (throwers s)"
    "bin_ok (tpc (throwers s ! i))" "length (mxBins s) = BIN_COUNT"
    using assms(1,2) by (simp_all add: sleeping_def balls_inv_def waiting_lock_def thrown_lock_def bin_locks_def list_all_length)
  then show ?thesis
    using protectsD [OF w(1) assms(2)] protectsD [OF w(2) assms(2)]
      protectsD [OF locks_protectD [OF w(3)] assms(2)] assms(3)
    by (cases "tpc (throwers s ! i)") (auto simp: throwing_func_def)
qed

lemma sleeping_progress:
  assumes "sleeping s" "\<not> all_returned s"
  shows "\<exists>t. throw_step rand_r s t"
proof -
  obtain i where i: "i < length (throwers s)" "tpc (throwers s ! i) \<noteq> Returned"
    using assms(2) by (auto simp: all_returned_def list_all_length)
  have inv: "waiting_lock s" "thrown_lock s" "bin_locks s" "created s" "mainpc s = Sleep_main"
    using assms(1) by (simp_all add: sleeping_def balls_inv_def)
  have move: "\<exists>t. throw_step rand_r s t" if "\<exists>t. throwing_func rand_r k s = Some t" "k < length (throwers s)" for k
    using that by (auto intro: throw_step.intros)
  have waits: "\<exists>t. throw_step rand_r s t"
    if "protects m inside (throwers s)" "m = Some k" "k < length (throwers s)"
      "\<And>t. inside t \<Longrightarrow> in_waiting (tpc t) \<or> in_thrown (tpc t) \<or> in_bin b (tpc t)" for m inside k b
    using that owner_moves [OF assms(1) that(3)] move by (metis protects_owner)
  show ?thesis
  proof (cases "\<exists>t. throwing_func rand_r i s = Some t")
    case True
    then show ?thesis using move i(1) by blast
  next
    case False
    then consider "tpc (throwers s ! i) = LockWaiting" "mxBallsWaiting s \<noteq> None"
      | "tpc (throwers s ! i) = LockThrown" "mxBallsThrown s \<noteq> None"
      | b where "tpc (throwers s ! i) = LockBin b" "mxBins s ! b \<noteq> None"
      using i inv owner_moves [OF assms(1) i(1)]
      by (cases "tpc (throwers s ! i)") (auto simp: throwing_func_def created_def split: prod.splits)
    then show ?thesis
    proof cases
      case 1
      then obtain k where "mxBallsWaiting s = Some k" by auto
      then show ?thesis using inv(1) waits [of "mxBallsWaiting s" "\<lambda>t. in_waiting (tpc t)" k]
        by (auto simp: waiting_lock_def)
    next
      case 2
      then obtain k where "mxBallsThrown s = Some k" by auto
      then show ?thesis using inv(2,5) waits [of "mxBallsThrown s" "\<lambda>t. in_thrown (tpc t)" k]
        by (auto simp: thrown_lock_def)
    next
      case (3 b)
      then obtain k where k: "mxBins s ! b = Some k" by auto
      have "b < length (mxBins s)" using inv(3) 3(1) i(1) by (auto simp: bin_locks_def list_all_length)
      then have "protects (mxBins s ! b) (\<lambda>t. in_bin b (tpc t)) (throwers s)" "k < length (throwers s)"
        using inv(3) k by (auto simp: bin_locks_def locks_protect_def list_all_length)
      then show ?thesis using k waits [of "mxBins s ! b" "\<lambda>t. in_bin b (tpc t)" k b] by simp
    qed
  qed
qed

interpretation throws: terminating_system sleeping "throw_step rand_r" sleeping throws_left all_returned for rand_r
  by unfold_locales (auto intro: sleeping_step throws_left_step sleeping_progress)

lemma all_returned_counts:
  assumes "sleeping s" "all_returned s" "throwers s \<noteq> []"
  shows "ballsThrown s = ballsCount s \<and> sum_list (bins s) = ballsCount s"
proof -
  have "threads_in (\<lambda>t. in_hand (tpc t)) (throwers s) = 0" "threads_in (\<lambda>t. uncounted (tpc t)) (throwers s) = 0"
    using assms(2) by (auto intro!: threads_in_zero simp: all_returned_def list_all_iff)
  moreover have "ballsWaiting s = 0"
    using assms by (cases "throwers s") (auto simp: sleeping_def balls_inv_def drained_def all_returned_def)
  ultimately show ?thesis
    using assms(1) unfolding sleeping_def balls_inv_def balls_conserved_def by linarith
qed

lemma throw_steps_frame:
  "(throw_step rand_r ^^ n) s t \<Longrightarrow> ballsCount t = ballsCount s \<and> length (throwers t) = length (throwers s)"
  by (induction n arbitrary: t) (fastforce elim!: throw_step.cases dest: throwing_func_frame(1,3))+

text \<open>
  Property C24. While the main thread sleeps, the throwers cannot deadlock or run for ever: they
  make at most \<open>throws_left\<close> further steps, and when no thread can move, all balls have
  been counted and are in the bins, so that the main thread's loop ends when it looks next.
\<close>

theorem throwers_finish:
  assumes "0 < balls" "seeds \<noteq> []"
    and "(balls_step rand_r)\<^sup>*\<^sup>* (balls_start balls (replicate BIN_COUNT 0) seeds) s"
    and "mainpc s = Sleep_main" "(throw_step rand_r ^^ n) s t"
  shows "n \<le> throws_left s \<and>
    ((\<nexists>u. throw_step rand_r t u) \<longrightarrow> ballsThrown t = balls \<and> sum_list (bins t) = balls)"
proof -
  have s: "sleeping s"
    using balls.inv_reachable assms(1,3,4) balls_init_def sleeping_def by blast
  have "length (throwers s) = length seeds" "ballsCount s = balls"
    using threads_steps [OF assms(3)] ballsCount_steps [OF assms(3)] by (simp_all add: balls_start_def)
  then have t: "throwers t \<noteq> []" "ballsCount t = balls"
    using throw_steps_frame [OF assms(5)] assms(2) by auto
  have "(throw_step rand_r)\<^sup>*\<^sup>* s t" using assms(5) by (simp add: relpowp_imp_rtranclp)
  then have "(\<nexists>u. throw_step rand_r t u) \<Longrightarrow> all_returned t" "sleeping t"
    using throws.stuck_is_final [OF s] throws.inv_steps s by blast+
  then show ?thesis
    using throws.run_length [OF assms(5) s] all_returned_counts [of t] t by auto
qed

theorem throwers_finish_witness:
  "\<exists>s. mainpc s = Sleep_main \<and> throws_left s = 32 \<and>
     (\<forall>n t. (throw_step (\<lambda>x. (0, x)) ^^ n) s t \<longrightarrow> n \<le> 32)"
proof -
  let ?rng = "\<lambda>x. (0, x)"
  let ?start = "balls_start 2 (replicate BIN_COUNT 0) [3]"
  let ?run = "run_schedule (balls_act ?rng) [None, None, None, None, None] ?start"
  have run: "?run \<noteq> None \<and> mainpc (the ?run) = Sleep_main \<and> throws_left (the ?run) = 32" by code_simp
  then obtain s where s: "?run = Some s" "mainpc s = Sleep_main" "throws_left s = 32" by auto
  then show ?thesis
    using throwers_finish [OF _ _ balls_run [OF s(1)] s(2)] by (intro exI [of _ s]) auto
qed

section \<open>The set-up\<close>

lemma wp_read_args_balls:
  "wp (read_args_balls argv) (\<lambda>(b, k) w1. 0 < b \<and> 0 < k) (\<lambda>h w1. orderly h) w"
  by (auto simp: read_args_balls_def wp_rules Let_def DEFAULT_N_def DEFAULT_K_def)

lemma wp_init_bins:
  "wp init_bins (\<lambda>bs w1. bs = replicate BIN_COUNT 0) (\<lambda>h w1. orderly h) w"
  unfolding init_bins_def
  by (rule wp_for [where I = "\<lambda>xs bs w. bs = replicate (BIN_COUNT - length xs) 0 \<and> length xs \<le> BIN_COUNT"])
    (auto simp: wp_rules Suc_diff_Suc replicate_append_same simp flip: replicate_Suc intro!: wp_sys_any)

lemma wp_seeds:
  "wp (for_m [0..<n] (\<lambda>i seeds. bind_m rand_m (\<lambda>v. ret (seeds @ [word_of_int v]))) [])
     (\<lambda>seeds w1. length seeds = n) (\<lambda>h w1. orderly h) w"
  by (rule wp_for [where I = "\<lambda>xs seeds w. length seeds + length xs = n"])
    (auto simp: wp_rules rand_m_def intro!: wp_sys_any)

text \<open>
  Property C39. Whatever the arguments and the answers of the kernel, the set-up of \<open>prog18\<close>
  either stops with a message, in a call, or by a signal, or yields what the threads rely on:
  a positive number of balls, eleven empty bins and at least one thread.
\<close>

theorem balls_setup_ok:
  "case balls_setup argv w of
     (Ret (balls, bs, seeds), w1) \<Rightarrow> 0 < balls \<and> bs = replicate BIN_COUNT 0 \<and> seeds \<noteq> []
   | (Halt h, w1) \<Rightarrow> orderly h"
proof -
  have "wp (balls_setup argv) (\<lambda>(balls, bs, seeds) w1. 0 < balls \<and> bs = replicate BIN_COUNT 0 \<and> seeds \<noteq> [])
      (\<lambda>h w1. orderly h) w"
    unfolding balls_setup_def wp_bind
    by (rule wp_mono [OF wp_read_args_balls])
      (auto simp: wp_rules intro!: wp_mono [OF wp_init_bins] wp_sys_any wp_mono [OF wp_seeds])
  then show ?thesis by (auto simp: wp_def split: prod.splits outcome.splits)
qed

end
