(* ===== verification/ArrayRemoval.thy ===== *)
theory ArrayRemoval
  imports Threads "HOL-Library.Sublist"
begin

text \<open>
  \<open>Lab3/prog19.c\<close>: an array of the numbers from 1; a thread that waits for signals deletes a
  random element on each SIGINT and asks the process to stop on SIGQUIT; the main thread
  prints what is left every second. The array and the quit flag have a mutex each.
\<close>

section \<open>The array\<close>

definition DELETED_ITEM :: int where "DELETED_ITEM = -1"
definition DEFAULT_ARRAYSIZE :: int where "DEFAULT_ARRAYSIZE = 10"

text \<open>
  The loop of \<open>removeItem\<close>, with \<open>rest\<close> the array from index \<open>i + 1\<close> on: it stops when
  the wanted element is reached; running off the end reads outside the array (\<open>None\<close>).
\<close>

fun remove_scan :: "int list \<Rightarrow> int \<Rightarrow> int \<Rightarrow> int \<Rightarrow> int option" where
  "remove_scan rest index curIndex i =
     (if curIndex = index then Some i
      else case rest of
        [] \<Rightarrow> None
      | x # rest1 \<Rightarrow>
          remove_scan rest1 index (if x \<noteq> DELETED_ITEM then curIndex + 1 else curIndex) (i + 1))"

declare remove_scan.simps [simp del]

definition removeItem :: "int list \<Rightarrow> int \<Rightarrow> int \<Rightarrow> (int list \<times> int) option" where
  "removeItem array arrayCount index =
     (case remove_scan array index (-1) (-1) of
        None \<Rightarrow> None
      | Some i \<Rightarrow> if i < 0 then None else Some (array[nat i := DELETED_ITEM], arrayCount - 1))"

fun print_items :: "int list \<Rightarrow> byte list" where
  "print_items [] = str '' ]'' @ [10]"
| "print_items (x # array) = (if x \<noteq> DELETED_ITEM then 32 # fmt_d x else []) @ print_items array"

definition printArray :: "int list \<Rightarrow> byte list" where
  "printArray array = str ''['' @ print_items array"

text \<open>
  The abstract view: the elements that are left, in order; deleting the \<open>k\<close>-th of them;
  the line that shows them.
\<close>

definition live :: "int list \<Rightarrow> int list" where
  "live array = filter (\<lambda>x. x \<noteq> DELETED_ITEM) array"

definition delete_nth :: "nat \<Rightarrow> 'a list \<Rightarrow> 'a list" where
  "delete_nth k xs = take k xs @ drop (Suc k) xs"

definition render :: "int list \<Rightarrow> byte list" where
  "render xs = str ''['' @ concat (map (\<lambda>x. 32 # fmt_d x) xs) @ str '' ]'' @ [10]"

lemma delete_nth_simps [simp]: "delete_nth 0 (x # xs) = xs" "delete_nth (Suc k) (x # xs) = x # delete_nth k xs"
  by (simp_all add: delete_nth_def)

lemma length_delete_nth [simp]: "k < length xs \<Longrightarrow> length (delete_nth k xs) = length xs - 1"
  by (simp add: delete_nth_def)

lemma subseq_delete_nth: "subseq (delete_nth k xs) xs"
proof (induction xs arbitrary: k)
  case Nil
  then show ?case by (simp add: delete_nth_def)
next
  case (Cons x xs)
  then show ?case by (cases k) (auto simp: subseq_Cons')
qed

lemma live_simps [simp]: "live [] = []" "live (x # xs) = (if x \<noteq> DELETED_ITEM then x # live xs else live xs)"
  by (simp_all add: live_def)

lemma print_items_live: "print_items array = concat (map (\<lambda>x. 32 # fmt_d x) (live array)) @ str '' ]'' @ [10]"
  by (induction array) auto

lemma printArray_render: "printArray array = render (live array)"
  by (simp add: printArray_def render_def print_items_live)

lemma remove_scan_hit [simp]: "remove_scan rest c c i = Some i"
  by (simp add: remove_scan.simps)

lemma remove_scan_Cons: "c \<noteq> index \<Longrightarrow> remove_scan (x # rest) index c i =
    remove_scan rest index (if x \<noteq> DELETED_ITEM then c + 1 else c) (i + 1)"
  by (subst remove_scan.simps) simp

lemma remove_scan_finds:
  "k < length (live rest) \<Longrightarrow> index = c + 1 + int k \<Longrightarrow>
   \<exists>j < length rest. remove_scan rest index c i = Some (i + 1 + int j) \<and>
     live (rest[j := DELETED_ITEM]) = delete_nth k (live rest)"
proof (induction rest arbitrary: k c i)
  case Nil
  then show ?case by simp
next
  case (Cons x rest)
  have c: "c \<noteq> index" using Cons.prems(2) by simp
  show ?case
  proof (cases "x = DELETED_ITEM")
    case True
    with Cons.prems have "k < length (live rest)" by simp
    from Cons.IH [OF this Cons.prems(2), of "i + 1"] obtain j where
      "j < length rest" "remove_scan rest index c (i + 1) = Some (i + 1 + 1 + int j)"
      "live (rest[j := DELETED_ITEM]) = delete_nth k (live rest)" by blast
    with True c show ?thesis by (intro exI [of _ "Suc j"]) (simp add: remove_scan_Cons)
  next
    case False
    show ?thesis
    proof (cases k)
      case 0
      then have "index = c + 1" using Cons.prems(2) by simp
      with False 0 c show ?thesis by (intro exI [of _ 0]) (simp add: remove_scan_Cons)
    next
      case (Suc m)
      with Cons.prems False have "m < length (live rest)" "index = c + 1 + 1 + int m" by simp_all
      from Cons.IH [OF this, of "i + 1"] obtain j where
        "j < length rest" "remove_scan rest index (c + 1) (i + 1) = Some (i + 1 + 1 + int j)"
        "live (rest[j := DELETED_ITEM]) = delete_nth m (live rest)" by blast
      with False Suc c show ?thesis by (intro exI [of _ "Suc j"]) (simp add: remove_scan_Cons)
    qed
  qed
qed

lemma removeItem_refines:
  assumes "arrayCount = int (length (live array))" "0 \<le> index" "index < arrayCount"
  shows "\<exists>array1. removeItem array arrayCount index = Some (array1, arrayCount - 1) \<and>
    live array1 = delete_nth (nat index) (live array) \<and>
    arrayCount - 1 = int (length (live array1)) \<and> length array1 = length array"
proof -
  have "nat index < length (live array)" using assms by linarith
  from remove_scan_finds [OF this, of index "-1" "-1"] assms(2) obtain j where
    "j < length array" "remove_scan array index (-1) (-1) = Some (int j)"
    "live (array[j := DELETED_ITEM]) = delete_nth (nat index) (live array)"
    by auto
  then show ?thesis
    using assms \<open>nat index < length (live array)\<close> by (simp add: removeItem_def of_nat_diff)
qed

text \<open>
  Property C13. \<open>removeItem\<close> implements the deletion of the \<open>index\<close>-th remaining element
  of a list: with as many elements left as the counter says and an index below it, it stays
  inside the array, the elements left afterwards are the old ones without that element, in
  order, the counter is their number again, and the array keeps its length.
\<close>

theorem removeItem_refines_delete:
  assumes "arrayCount = int (length (live array))" "0 \<le> index" "index < arrayCount"
  shows "\<exists>array1. removeItem array arrayCount index = Some (array1, arrayCount - 1) \<and>
    live array1 = delete_nth (nat index) (live array) \<and>
    arrayCount - 1 = int (length (live array1)) \<and> length array1 = length array"
  using assms by (rule removeItem_refines)

theorem removeItem_refines_delete_witness:
  "removeItem [1, -1, 3, 4] 3 1 = Some ([1, -1, -1, 4], 2)"
proof -
  have "live [1, -1, 3, 4] = [1, 3, 4]" by (simp add: DELETED_ITEM_def)
  then have "\<exists>array1. removeItem [1, -1, 3, 4] 3 1 = Some (array1, 2)"
    using removeItem_refines_delete [of 3 "[1, -1, 3, 4]" 1] by auto
  then show ?thesis
    by (simp add: removeItem_def remove_scan.simps DELETED_ITEM_def)
qed

section \<open>The process\<close>

definition read_args_array :: "byte list list \<Rightarrow> ('g, int) prog" where
  "read_args_array argv =
     (let arraySize = (if length argv \<ge> 2 then atoi (argv ! 1) else DEFAULT_ARRAYSIZE) in
      if length argv \<ge> 2 \<and> arraySize \<le> 0 then
        bind_m (printf (str ''Invalid value for 'array size'' @ [39])) (\<lambda>_. halt_m (Exit 1))
      else ret arraySize)"

abbreviation (input) SYS_pthread_sigmask :: sysno where "SYS_pthread_sigmask \<equiv> 1068"

text \<open>Up to the creation of the thread: the array, and the two signals blocked.\<close>

definition array_setup :: "byte list list \<Rightarrow> ('g, int list) prog" where
  "array_setup argv =
     bind_m (read_args_array argv) (\<lambda>arraySize.
     bind_m (sys SYS_malloc [4 * arraySize] [] any_ok) (\<lambda>m.
     if r_val m = 0 then err_exit ''Malloc error for array!''
     else
       let array = map (\<lambda>i. int i + 1) [0..<nat arraySize] in
       bind_m (sys SYS_pthread_sigmask [0, int SIGINT, int SIGQUIT] [] pthread_ok) (\<lambda>b.
       if r_val b \<noteq> 0 then err_exit ''SIG_BLOCK error'' else ret array)))"

text \<open>
  The program counters of the two threads; each names the next library call or access to the
  shared variables. \<open>H_remove\<close> and \<open>M_print\<close> execute a whole function, which touches
  nothing but the array its caller has locked.
\<close>

datatype handler_pc =
    H_absent | H_wait | H_lock | H_test | H_remove int | H_unlock | H_lockq | H_setq | H_unlockq | H_returned

datatype printer_pc =
    M_create | M_lockq | M_testq | M_unlock_break | M_unlock_go | M_lock | M_print | M_unlock | M_sleep
  | M_join | M_unmask | M_exit int | M_undefined

record removal =
  array :: "int list"
  arrayCount :: int
  quitFlag :: bool
  mxArray :: mutex
  mxQuitFlag :: mutex
  hpc :: handler_pc
  mpc :: printer_pc
  out :: "byte list list"

text \<open>
  \<open>signal_handling\<close>: \<open>err\<close> and \<open>signo\<close> are what \<open>sigwait\<close> returns and stores, \<open>r\<close>
  is the result of \<open>rand\<close>. The thread is number 1 as an owner of mutexes, the main thread 0.
\<close>

definition signal_handling :: "int \<Rightarrow> nat \<Rightarrow> int \<Rightarrow> removal \<Rightarrow> removal option" where
  "signal_handling err signo r s =
     (case hpc s of
        H_absent \<Rightarrow> None
      | H_wait \<Rightarrow> Some (
          if err \<noteq> 0 then s\<lparr>mpc := M_exit 1\<rparr>
          else if signo = SIGINT then s\<lparr>hpc := H_lock\<rparr>
          else if signo = SIGQUIT then s\<lparr>hpc := H_lockq\<rparr>
          else s\<lparr>mpc := M_exit 1, out := out s @ [str ''unexpected signal '' @ fmt_d (int signo) @ [10]]\<rparr>)
      | H_lock \<Rightarrow> map_option (\<lambda>m. s\<lparr>hpc := H_test, mxArray := m\<rparr>) (mx_lock 1 (mxArray s))
      | H_test \<Rightarrow> Some (
          if arrayCount s > 0 then
            (case c_mod r (arrayCount s) of None \<Rightarrow> s\<lparr>mpc := M_undefined\<rparr> | Some k \<Rightarrow> s\<lparr>hpc := H_remove k\<rparr>)
          else s\<lparr>hpc := H_unlock\<rparr>)
      | H_remove k \<Rightarrow> Some (case removeItem (array s) (arrayCount s) k of
          None \<Rightarrow> s\<lparr>mpc := M_undefined\<rparr>
        | Some (a, c) \<Rightarrow> s\<lparr>array := a, arrayCount := c, hpc := H_unlock\<rparr>)
      | H_unlock \<Rightarrow> map_option (\<lambda>m. s\<lparr>hpc := H_wait, mxArray := m\<rparr>) (mx_unlock 1 (mxArray s))
      | H_lockq \<Rightarrow> map_option (\<lambda>m. s\<lparr>hpc := H_setq, mxQuitFlag := m\<rparr>) (mx_lock 1 (mxQuitFlag s))
      | H_setq \<Rightarrow> Some (s\<lparr>hpc := H_unlockq, quitFlag := True\<rparr>)
      | H_unlockq \<Rightarrow> map_option (\<lambda>m. s\<lparr>hpc := H_returned, mxQuitFlag := m\<rparr>) (mx_unlock 1 (mxQuitFlag s))
      | H_returned \<Rightarrow> None)"

text \<open>
  The main thread from \<open>pthread_create\<close> on; \<open>ok\<close> is whether the pthread call of the step
  succeeds. \<open>pthread_join\<close> waits for the thread to return.
\<close>

definition removal_main :: "bool \<Rightarrow> removal \<Rightarrow> removal option" where
  "removal_main ok s =
     (case mpc s of
        M_create \<Rightarrow> Some (if ok then s\<lparr>mpc := M_lockq, hpc := H_wait\<rparr> else s\<lparr>mpc := M_exit 1\<rparr>)
      | M_lockq \<Rightarrow> map_option (\<lambda>m. s\<lparr>mpc := M_testq, mxQuitFlag := m\<rparr>) (mx_lock 0 (mxQuitFlag s))
      | M_testq \<Rightarrow> Some (s\<lparr>mpc := if quitFlag s then M_unlock_break else M_unlock_go\<rparr>)
      | M_unlock_break \<Rightarrow> map_option (\<lambda>m. s\<lparr>mpc := M_join, mxQuitFlag := m\<rparr>) (mx_unlock 0 (mxQuitFlag s))
      | M_unlock_go \<Rightarrow> map_option (\<lambda>m. s\<lparr>mpc := M_lock, mxQuitFlag := m\<rparr>) (mx_unlock 0 (mxQuitFlag s))
      | M_lock \<Rightarrow> map_option (\<lambda>m. s\<lparr>mpc := M_print, mxArray := m\<rparr>) (mx_lock 0 (mxArray s))
      | M_print \<Rightarrow> Some (s\<lparr>mpc := M_unlock, out := out s @ [printArray (array s)]\<rparr>)
      | M_unlock \<Rightarrow> map_option (\<lambda>m. s\<lparr>mpc := M_sleep, mxArray := m\<rparr>) (mx_unlock 0 (mxArray s))
      | M_sleep \<Rightarrow> Some (s\<lparr>mpc := M_lockq\<rparr>)
      | M_join \<Rightarrow> (if \<not> ok then Some (s\<lparr>mpc := M_exit 1\<rparr>)
          else if hpc s = H_returned then Some (s\<lparr>mpc := M_unmask\<rparr>) else None)
      | M_unmask \<Rightarrow> Some (s\<lparr>mpc := if ok then M_exit 0 else M_exit 1\<rparr>)
      | M_exit c \<Rightarrow> None
      | M_undefined \<Rightarrow> None)"

definition alive :: "removal \<Rightarrow> bool" where
  "alive s \<longleftrightarrow> (case mpc s of M_exit c \<Rightarrow> False | M_undefined \<Rightarrow> False | _ \<Rightarrow> True)"

inductive removal_step :: "removal \<Rightarrow> removal \<Rightarrow> bool" where
  Main: "removal_main ok s = Some t \<Longrightarrow> removal_step s t"
| Handler: "alive s \<Longrightarrow> signo \<in> {SIGINT, SIGQUIT} \<Longrightarrow> 0 \<le> r \<Longrightarrow> in_int r \<Longrightarrow>
    signal_handling err signo r s = Some t \<Longrightarrow> removal_step s t"

definition removal_start :: "int list \<Rightarrow> removal" where
  "removal_start xs = \<lparr>array = xs, arrayCount = int (length xs), quitFlag = False, mxArray = None,
     mxQuitFlag = None, hpc = H_absent, mpc = M_create, out = []\<rparr>"

section \<open>The invariant\<close>

text \<open>
  The mutexes are owned by the thread in the region, the counter is the number of elements
  left, an index being removed is below it, every printed line shows a selection of the
  original elements in order, each a selection of the one before, and the elements left are
  a selection of those printed last.
\<close>

fun h_in_array :: "handler_pc \<Rightarrow> bool" where
  "h_in_array H_test = True" | "h_in_array (H_remove k) = True" | "h_in_array H_unlock = True"
| "h_in_array _ = False"

fun m_in_array :: "printer_pc \<Rightarrow> bool" where
  "m_in_array M_print = True" | "m_in_array M_unlock = True" | "m_in_array _ = False"

fun h_in_quit :: "handler_pc \<Rightarrow> bool" where
  "h_in_quit H_setq = True" | "h_in_quit H_unlockq = True" | "h_in_quit _ = False"

fun m_in_quit :: "printer_pc \<Rightarrow> bool" where
  "m_in_quit M_testq = True" | "m_in_quit M_unlock_break = True" | "m_in_quit M_unlock_go = True"
| "m_in_quit _ = False"

definition removal_locks :: "removal \<Rightarrow> bool" where
  "removal_locks s \<longleftrightarrow> (mpc s = M_create \<longrightarrow> hpc s = H_absent) \<and> (alive s \<longrightarrow>
     guards (mxArray s) (m_in_array (mpc s)) (h_in_array (hpc s)) \<and>
     guards (mxQuitFlag s) (m_in_quit (mpc s)) (h_in_quit (hpc s)))"

definition removal_data :: "removal \<Rightarrow> bool" where
  "removal_data s \<longleftrightarrow> mpc s \<noteq> M_undefined \<and> arrayCount s = int (length (live (array s))) \<and>
     (\<forall>k. hpc s = H_remove k \<longrightarrow> 0 \<le> k \<and> k < arrayCount s)"

fun shown_from :: "int list \<Rightarrow> int list list \<Rightarrow> int list \<Rightarrow> bool" where
  "shown_from xs [] now = subseq now xs"
| "shown_from xs (ys # yss) now = (subseq ys xs \<and> shown_from ys yss now)"

definition removal_out :: "int list \<Rightarrow> removal \<Rightarrow> bool" where
  "removal_out xs s \<longleftrightarrow> (\<exists>yss. out s = map render yss \<and> shown_from xs yss (live (array s)))"

lemma shown_from_now: "shown_from xs yss now \<Longrightarrow> subseq now1 now \<Longrightarrow> shown_from xs yss now1"
  by (induction yss arbitrary: xs) (auto intro: subseq_order.trans)

lemma shown_from_snoc: "shown_from xs yss now \<Longrightarrow> shown_from xs (yss @ [now]) now"
  by (induction yss arbitrary: xs) auto

lemma removeItem_live:
  assumes "arrayCount s = int (length (live (array s)))" "0 \<le> k" "k < arrayCount s"
    "removeItem (array s) (arrayCount s) k = Some (a, c)"
  shows "c = int (length (live a))" "subseq (live a) (live (array s))"
  using removeItem_refines [OF assms(1-3)] assms(4) by (auto simp: subseq_delete_nth)

definition removal_inv :: "int list \<Rightarrow> removal \<Rightarrow> bool" where
  "removal_inv xs s \<longleftrightarrow> removal_locks s \<and> removal_data s \<and> removal_out xs s"

lemma removal_main_inv:
  assumes "removal_inv xs s" "removal_main ok s = Some t"
  shows "removal_inv xs t"
proof -
  have "removal_locks s" using assms(1) by (simp add: removal_inv_def)
  then have "removal_locks t"
    using assms(2) by (cases "mpc s") (auto simp: removal_main_def removal_locks_def alive_def split: if_splits)
  moreover have "removal_data t"
    using assms by (cases "mpc s") (auto simp: removal_main_def removal_inv_def removal_data_def split: if_splits)
  moreover have "removal_out xs t"
  proof (cases "mpc s = M_print")
    case True
    obtain yss where "out s = map render yss" "shown_from xs yss (live (array s))"
      using assms(1) by (auto simp: removal_inv_def removal_out_def)
    then show ?thesis using True assms(2) shown_from_snoc
      by (auto simp: removal_main_def removal_out_def printArray_render
          intro!: exI [of _ "yss @ [live (array s)]"])
  next
    case False
    then show ?thesis using assms
      by (cases "mpc s") (auto simp: removal_main_def removal_inv_def removal_out_def split: if_splits)
  qed
  ultimately show ?thesis by (simp add: removal_inv_def)
qed

lemma signal_handling_inv:
  assumes inv: "removal_inv xs s" and "alive s" "signo \<in> {SIGINT, SIGQUIT}" "0 \<le> r" "in_int r"
    and t: "signal_handling err signo r s = Some t"
  shows "removal_inv xs t"
proof (cases "\<exists>k. hpc s = H_remove k")
  case True
  then obtain k where k: "hpc s = H_remove k" by blast
  have count: "arrayCount s = int (length (live (array s)))" "0 \<le> k" "k < arrayCount s"
    using inv k by (auto simp: removal_inv_def removal_data_def)
  then obtain a c where ac: "removeItem (array s) (arrayCount s) k = Some (a, c)"
    using removeItem_refines by blast
  then have t': "t = s\<lparr>array := a, arrayCount := c, hpc := H_unlock\<rparr>"
    using t k by (simp add: signal_handling_def)
  obtain yss where "out s = map render yss" "shown_from xs yss (live (array s))"
    using inv by (auto simp: removal_inv_def removal_out_def)
  then have "removal_out xs t"
    using removeItem_live [OF count ac] shown_from_now by (auto simp: t' removal_out_def)
  then show ?thesis
    using inv k removeItem_live [OF count ac]
    by (auto simp: t' removal_inv_def removal_locks_def removal_data_def alive_def)
next
  case False
  have mod: "c_mod r (arrayCount s) = Some (r mod arrayCount s)" if "0 < arrayCount s"
    using assms(4,5) that by (rule c_mod_nonneg)
  have "removal_locks s" using inv by (simp add: removal_inv_def)
  then have "removal_locks t"
    using t assms(2) False mod
    by (cases "hpc s") (auto simp: signal_handling_def removal_locks_def alive_def split: if_splits)
  moreover have "removal_data t"
    using assms False mod
    by (cases "hpc s") (auto simp: signal_handling_def removal_inv_def removal_data_def alive_def split: if_splits)
  moreover have "removal_out xs t"
    using assms False mod
    by (cases "hpc s") (auto simp: signal_handling_def removal_inv_def removal_out_def split: if_splits)
  ultimately show ?thesis by (simp add: removal_inv_def)
qed

definition removal_init :: "int list \<Rightarrow> removal \<Rightarrow> bool" where
  "removal_init xs s \<longleftrightarrow> DELETED_ITEM \<notin> set xs \<and> s = removal_start xs"

lemma live_all: "DELETED_ITEM \<notin> set xs \<Longrightarrow> live xs = xs"
  by (auto simp: live_def filter_id_conv)

interpretation removal: inv_system "removal_init xs" removal_step "removal_inv xs" for xs
proof
  show "removal_inv xs s" if "removal_init xs s" for s
    using that by (auto simp: removal_init_def removal_start_def removal_inv_def removal_locks_def
        removal_data_def removal_out_def live_all alive_def intro!: exI [of _ "[]"])
  show "removal_inv xs t" if "removal_inv xs s" "removal_step s t" for s t
    using that(2,1) by cases (auto intro: removal_main_inv signal_handling_inv)
qed

text \<open>
  Whatever the interleaving of the two threads and the signals: the removal
  never leaves the array or divides by zero, the main thread never prints while an element
  is being removed, and every printed line shows a selection, in order, of the elements the
  line before showed.
\<close>

theorem printed_arrays_shrink:
  assumes "DELETED_ITEM \<notin> set xs" "removal_step\<^sup>*\<^sup>* (removal_start xs) s"
  shows "mpc s \<noteq> M_undefined \<and>
    (alive s \<longrightarrow> \<not> (h_in_array (hpc s) \<and> m_in_array (mpc s))) \<and>
    (\<exists>yss. out s = map render yss \<and> shown_from xs yss (live (array s))) \<and>
    arrayCount s = int (length (live (array s)))"
proof -
  have "removal_inv xs s"
    using removal.inv_reachable [of xs "removal_start xs" s] assms by (simp add: removal_init_def)
  then show ?thesis
    by (auto simp: removal_inv_def removal_locks_def removal_data_def removal_out_def guards_def)
qed

text \<open>A run: the handler takes one signal of each kind, the main thread prints twice.\<close>

definition removal_act :: "(nat \<times> int) option \<Rightarrow> removal \<Rightarrow> removal option" where
  "removal_act a s = (case a of
       None \<Rightarrow> removal_main True s
     | Some (signo, r) \<Rightarrow>
         if alive s \<and> signo \<in> {SIGINT, SIGQUIT} \<and> 0 \<le> r \<and> in_int r then signal_handling 0 signo r s else None)"

lemma removal_act_step: "removal_act a s = Some t \<Longrightarrow> removal_step s t"
  by (auto simp: removal_act_def split: option.splits if_splits intro: removal_step.intros)

lemma removal_run: "run_schedule removal_act as s = Some t \<Longrightarrow> removal_step\<^sup>*\<^sup>* s t"
  by (erule run_schedule_steps) (rule removal_act_step)

theorem printed_arrays_shrink_witness:
  "\<exists>s :: removal. out s = [render [1, 2, 3], render [1, 3]] \<and> mpc s = M_exit 0 \<and> arrayCount s = 2"
proof -
  let ?run = "run_schedule removal_act
    (replicate 8 None @ replicate 5 (Some (2, 4)) @ replicate 7 None @ replicate 4 (Some (3, 0)) @
     replicate 5 None) (removal_start [1, 2, 3])"
  have "?run \<noteq> None \<and> out (the ?run) = [render [1, 2, 3], render [1, 3]] \<and> mpc (the ?run) = M_exit 0 \<and> live (array (the ?run)) = [1, 3]"
    by code_simp
  then obtain s where s: "?run = Some s" "out s = [render [1, 2, 3], render [1, 3]]" "mpc s = M_exit 0"
    "live (array s) = [1, 3]" by auto
  then show ?thesis
    using printed_arrays_shrink [OF _ removal_run [OF s(1)]] by (intro exI [of _ s]) (simp add: DELETED_ITEM_def)
qed

end
