(* ===== verification/StudentLife.thy ===== *)
theory StudentLife
  imports Threads
begin

text \<open>
  \<open>Lab3/prog20.c\<close>: one thread per student moves through three years and the engineers,
  counted by four counters with a mutex each; for four seconds the main thread cancels random
  students, whose cleanup handler takes them out of the counter of their year.
\<close>

section \<open>Arguments and sleeping\<close>

definition DEFAULT_STUDENT_COUNT :: int where "DEFAULT_STUDENT_COUNT = 100"

definition read_args_students :: "byte list list \<Rightarrow> ('g, int) prog" where
  "read_args_students argv =
     (let studentsCount = (if length argv \<ge> 2 then atoi (argv ! 1) else DEFAULT_STUDENT_COUNT) in
      if length argv \<ge> 2 \<and> studentsCount \<le> 0 then
        bind_m (printf (str ''Invalid value for 'studentsCount'' @ [39])) (\<lambda>_. halt_m (Exit 1))
      else ret studentsCount)"

definition msleep :: "32 word \<Rightarrow> ('g, unit) prog" where
  "msleep milisec =
     (let sec = uint (milisec div 1000);
          milisec1 = (word_of_int (uint milisec - sec * 1000) :: 32 word)
      in bind_m (sys SYS_malloc [16] [] any_ok) (\<lambda>m.
         if r_val m = 0 then err_exit ''malloc''
         else bind_m (sys SYS_nanosleep [sec, uint milisec1 * 1000000] [] status_ok) (\<lambda>n.
         if r_val n \<noteq> 0 then err_exit ''nanosleep'' else ret ())))"

text \<open>The macro ELAPSED compared with 4.0, in nanoseconds; doubles separate values 1e-9 apart.\<close>

definition elapsed_below_4 :: "int \<times> int \<Rightarrow> int \<times> int \<Rightarrow> bool" where
  "elapsed_below_4 start current =
     ((fst current - fst start) * 1000000000 + (snd current - snd start) < 4 * 1000000000)"

section \<open>The threads\<close>

text \<open>A counter is changed in four steps under its mutex.\<close>

datatype counter_pc = C_lock | C_load | C_store int | C_unlock

datatype student_pc =
    S_absent | S_start | S_test | S_inc counter_pc | S_msleep | S_dec counter_pc | S_next
  | S_final counter_pc | S_returned | S_cleanup counter_pc | S_canceled

record student =
  spc :: student_pc
  year :: nat
  cancelled :: bool

datatype dean_pc =
    D_create nat | D_clock0 | D_msleep | D_clock | D_kick "int \<times> int" | D_pick "int \<times> int"
  | D_cancel nat "int \<times> int" | D_mark nat "int \<times> int" | D_gone "int \<times> int" | D_again "int \<times> int"
  | D_join nat | D_report | D_exit int

record university =
  counter_values :: "int list"
  mxCounters :: "mutex list"
  students :: "student list"
  removed :: "bool list"
  present :: int
  dean :: dean_pc
  start_time :: "int \<times> int"

definition set_student :: "nat \<Rightarrow> student_pc \<Rightarrow> university \<Rightarrow> university" where
  "set_student i p s = s\<lparr>students := (students s)[i := (students s ! i)\<lparr>spc := p\<rparr>]\<rparr>"

definition modify_counter ::
  "int \<Rightarrow> nat \<Rightarrow> counter_pc \<Rightarrow> university \<Rightarrow> (counter_pc option \<times> university) option" where
  "modify_counter d i p s =
     (let y = year (students s ! i) in
      case p of
        C_lock \<Rightarrow> map_option (\<lambda>m. (Some C_load, s\<lparr>mxCounters := (mxCounters s)[y := m]\<rparr>)) (mx_lock i (mxCounters s ! y))
      | C_load \<Rightarrow> Some (Some (C_store (counter_values s ! y)), s)
      | C_store v \<Rightarrow> Some (Some C_unlock, s\<lparr>counter_values := (counter_values s)[y := v + d]\<rparr>)
      | C_unlock \<Rightarrow> map_option (\<lambda>m. (None, s\<lparr>mxCounters := (mxCounters s)[y := m]\<rparr>)) (mx_unlock i (mxCounters s ! y)))"

definition increment_counter ::
  "nat \<Rightarrow> counter_pc \<Rightarrow> university \<Rightarrow> (counter_pc option \<times> university) option" where
  "increment_counter = modify_counter 1"

definition decrement_counter ::
  "nat \<Rightarrow> counter_pc \<Rightarrow> university \<Rightarrow> (counter_pc option \<times> university) option" where
  "decrement_counter = modify_counter (-1)"

text \<open>Continuing in a function: its next step, or what follows when it has returned.\<close>

definition within ::
  "nat \<Rightarrow> (counter_pc \<Rightarrow> student_pc) \<Rightarrow> student_pc \<Rightarrow> (counter_pc option \<times> university) option \<Rightarrow> university option" where
  "within i inside next r = map_option (\<lambda>(q, t).
     set_student i (case q of None \<Rightarrow> next | Some p \<Rightarrow> inside p) t) r"

text \<open>
  \<open>student_life\<close>; \<open>ok\<close> is whether the calls of \<open>msleep\<close> succeed. The sleep is the only
  cancellation point: a thread that is to be cancelled runs its cleanup handler there.
\<close>

definition student_life :: "bool \<Rightarrow> nat \<Rightarrow> university \<Rightarrow> university option" where
  "student_life ok i s =
     (let st = students s ! i in
      case spc st of
        S_absent \<Rightarrow> None
      | S_start \<Rightarrow> Some (s\<lparr>students := (students s)[i := st\<lparr>spc := S_test, year := 0\<rparr>]\<rparr>)
      | S_test \<Rightarrow> Some (set_student i (if year st < 3 then S_inc C_lock else S_final C_lock) s)
      | S_inc p \<Rightarrow> within i S_inc S_msleep (increment_counter i p s)
      | S_msleep \<Rightarrow> Some (
          if cancelled st then set_student i (S_cleanup C_lock) s
          else if ok then set_student i (S_dec C_lock) s
          else s\<lparr>dean := D_exit 1\<rparr>)
      | S_dec p \<Rightarrow> within i S_dec S_next (decrement_counter i p s)
      | S_next \<Rightarrow> Some (s\<lparr>students := (students s)[i := st\<lparr>spc := S_test, year := year st + 1\<rparr>]\<rparr>)
      | S_final p \<Rightarrow> within i S_final S_returned (increment_counter i p s)
      | S_cleanup p \<Rightarrow> within i S_cleanup S_canceled (decrement_counter i p s)
      | S_returned \<Rightarrow> None
      | S_canceled \<Rightarrow> None)"

text \<open>\<open>kick_student\<close>; \<open>r\<close> is the result of \<open>rand\<close>.\<close>

definition kick_student :: "int \<Rightarrow> university \<Rightarrow> university option" where
  "kick_student r s =
     (case dean s of
        D_kick now \<Rightarrow> Some (s\<lparr>dean := if present s = 0 then D_again now else D_pick now\<rparr>)
      | D_pick now \<Rightarrow>
          (let idx = nat (r mod int (length (students s))) in
           Some (s\<lparr>dean := if removed s ! idx then D_pick now else D_cancel idx now\<rparr>))
      | D_cancel idx now \<Rightarrow> Some (s\<lparr>dean := D_mark idx now,
          students := (students s)[idx := (students s ! idx)\<lparr>cancelled := True\<rparr>]\<rparr>)
      | D_mark idx now \<Rightarrow> Some (s\<lparr>dean := D_gone now, removed := (removed s)[idx := True]\<rparr>)
      | D_gone now \<Rightarrow> Some (s\<lparr>dean := D_again now, present := present s - 1\<rparr>)
      | _ \<Rightarrow> None)"

text \<open>
  The main thread from the creation of the students on; \<open>ok\<close> is whether the calls of the
  step succeed, \<open>now\<close> the time a clock call stores.
\<close>

definition dean_main :: "bool \<Rightarrow> int \<Rightarrow> int \<times> int \<Rightarrow> university \<Rightarrow> university option" where
  "dean_main ok r now s =
     (case dean s of
        D_create i \<Rightarrow> Some (
          if i < length (students s) then
            (if ok then (set_student i S_start s)\<lparr>dean := D_create (i + 1)\<rparr> else s\<lparr>dean := D_exit 1\<rparr>)
          else s\<lparr>dean := D_clock0\<rparr>)
      | D_clock0 \<Rightarrow> Some (if ok then s\<lparr>dean := D_msleep, start_time := now\<rparr> else s\<lparr>dean := D_exit 1\<rparr>)
      | D_msleep \<Rightarrow> Some (s\<lparr>dean := if ok then D_clock else D_exit 1\<rparr>)
      | D_clock \<Rightarrow> Some (s\<lparr>dean := if ok then D_kick now else D_exit 1\<rparr>)
      | D_again current \<Rightarrow> Some (s\<lparr>dean :=
          if elapsed_below_4 (start_time s) current then D_msleep else D_join 0\<rparr>)
      | D_join i \<Rightarrow>
          (if i < length (students s) then
             if \<not> ok then Some (s\<lparr>dean := D_exit 1\<rparr>)
             else if spc (students s ! i) \<in> {S_returned, S_canceled} then Some (s\<lparr>dean := D_join (i + 1)\<rparr>)
             else None
           else Some (s\<lparr>dean := D_report\<rparr>))
      | D_report \<Rightarrow> Some (s\<lparr>dean := D_exit 0\<rparr>)
      | D_exit c \<Rightarrow> None
      | _ \<Rightarrow> kick_student r s)"

definition open_university :: "university \<Rightarrow> bool" where
  "open_university s \<longleftrightarrow> (case dean s of D_exit c \<Rightarrow> False | _ \<Rightarrow> True)"

inductive university_step :: "university \<Rightarrow> university \<Rightarrow> bool" where
  Dean: "0 \<le> r \<Longrightarrow> dean_main ok r now s = Some t \<Longrightarrow> university_step s t"
| Student: "open_university s \<Longrightarrow> i < length (students s) \<Longrightarrow> student_life ok i s = Some t \<Longrightarrow>
    university_step s t"

definition university_start :: "nat \<Rightarrow> university" where
  "university_start n = \<lparr>counter_values = replicate 4 0, mxCounters = replicate 4 None,
     students = replicate n \<lparr>spc = S_absent, year = 0, cancelled = False\<rparr>,
     removed = replicate n False, present = int n, dean = D_create 0, start_time = (0, 0)\<rparr>"

section \<open>Invariants\<close>

fun in_counter :: "counter_pc \<Rightarrow> bool" where
  "in_counter C_lock = False" | "in_counter C_load = True" | "in_counter (C_store v) = True"
| "in_counter C_unlock = True"

fun locking :: "student_pc \<Rightarrow> bool" where
  "locking (S_inc p) = in_counter p" | "locking (S_dec p) = in_counter p"
| "locking (S_final p) = in_counter p" | "locking (S_cleanup p) = in_counter p"
| "locking _ = False"

text \<open>Whether the counter of the student's year includes the student.\<close>

fun counted :: "student_pc \<Rightarrow> bool" where
  "counted (S_inc p) = (p = C_unlock)" | "counted (S_final p) = (p = C_unlock)"
| "counted S_msleep = True" | "counted S_returned = True"
| "counted (S_dec p) = (p \<noteq> C_unlock)" | "counted (S_cleanup p) = (p \<noteq> C_unlock)"
| "counted _ = False"

fun loaded :: "student_pc \<Rightarrow> int option" where
  "loaded (S_inc (C_store v)) = Some v" | "loaded (S_dec (C_store v)) = Some v"
| "loaded (S_final (C_store v)) = Some v" | "loaded (S_cleanup (C_store v)) = Some v"
| "loaded _ = None"

text \<open>The year a student can be in at a program point.\<close>

fun year_fits :: "student_pc \<Rightarrow> nat \<Rightarrow> bool" where
  "year_fits (S_inc p) y = (y < 3)" | "year_fits S_msleep y = (y < 3)"
| "year_fits (S_dec p) y = (y < 3)" | "year_fits (S_cleanup p) y = (y < 3)"
| "year_fits S_next y = (y < 3)" | "year_fits S_canceled y = (y < 3)"
| "year_fits S_test y = (y \<le> 3)" | "year_fits (S_final p) y = (y = 3)"
| "year_fits S_returned y = (y = 3)" | "year_fits _ y = True"

definition counter_locks :: "university \<Rightarrow> bool" where
  "counter_locks s \<longleftrightarrow> length (mxCounters s) = 4 \<and> length (counter_values s) = 4 \<and>
     list_all (\<lambda>st. year_fits (spc st) (year st)) (students s) \<and>
     locks_protect (mxCounters s) (\<lambda>y st. year st = y \<and> locking (spc st)) (students s)"

definition counters_fresh :: "university \<Rightarrow> bool" where
  "counters_fresh s \<longleftrightarrow>
     list_all (\<lambda>st. \<forall>v. loaded (spc st) = Some v \<longrightarrow> v = counter_values s ! year st) (students s)"

definition counters_exact :: "university \<Rightarrow> bool" where
  "counters_exact s \<longleftrightarrow> (\<forall>y < 4. counter_values s ! y =
     threads_in (\<lambda>st. year st = y \<and> counted (spc st)) (students s))"

lemmas student_defs = student_life_def Let_def within_def increment_counter_def decrement_counter_def
  modify_counter_def set_student_def

lemma student_life_frame:
  assumes "student_life ok i s = Some t"
  shows "length (students t) = length (students s)" "removed t = removed s" "present t = present s"
    and "length (mxCounters t) = length (mxCounters s)" "length (counter_values t) = length (counter_values s)"
  using assms by (auto simp: student_defs split: student_pc.splits counter_pc.splits)

lemma counter_locks_student:
  assumes "counter_locks s" "i < length (students s)" "student_life ok i s = Some t"
  shows "counter_locks t"
proof -
  have "year_fits (spc (students s ! i)) (year (students s ! i))"
    using assms(1,2) by (simp add: counter_locks_def list_all_length)
  then show ?thesis
    using assms
    by (cases "spc (students s ! i)")
      (auto simp: student_defs counter_locks_def locks_rules list_all_update split: counter_pc.splits)
qed

lemma loaded_locking: "loaded p = Some v \<Longrightarrow> locking p"
  by (induction p rule: loaded.induct) auto

lemma counters_fresh_store:
  assumes "counter_locks s" "counters_fresh s" "i < length (students s)"
    and "locking (spc (students s ! i))" "year st = year (students s ! i)" "loaded (spc st) = None"
  shows "list_all (\<lambda>st. \<forall>v. loaded (spc st) = Some v \<longrightarrow>
      v = (counter_values s)[year (students s ! i) := x] ! year st) ((students s)[i := st])"
proof -
  let ?y = "year (students s ! i)"
  have "year_fits (spc (students s ! i)) ?y"
    using assms(1,3) by (simp add: counter_locks_def list_all_length)
  then have "?y < 4" using assms(4) by (cases "spc (students s ! i)") auto
  then show ?thesis
    using assms
    by (intro owner_updates_cell [where inside = "\<lambda>y st. year st = y \<and> locking (spc st)" and b = ?y
          and P = "\<lambda>st. \<forall>v. loaded (spc st) = Some v \<longrightarrow> v = counter_values s ! year st"])
      (auto simp: counter_locks_def counters_fresh_def nth_list_update dest: loaded_locking)
qed

lemma counters_fresh_student:
  assumes "counter_locks s" "counters_fresh s" "i < length (students s)" "student_life ok i s = Some t"
  shows "counters_fresh t"
proof (cases "loaded (spc (students s ! i))")
  case (Some v)
  then have "locking (spc (students s ! i))" by (rule loaded_locking)
  note store = counters_fresh_store [OF assms(1-3) this]
  show ?thesis
    using Some assms(4)
    by (cases "spc (students s ! i)"; simp; rename_tac p; case_tac p)
      (auto simp: student_defs counters_fresh_def store)
next
  case None
  have "list_all (\<lambda>st. \<forall>v. loaded (spc st) = Some v \<longrightarrow> v = counter_values s ! year st) (students s)"
    using assms(2) by (simp add: counters_fresh_def)
  then show ?thesis
    using None assms(4)
    by (auto simp: student_defs counters_fresh_def list_all_update split: student_pc.splits counter_pc.splits)
qed

lemma counters_exact_student:
  assumes "counter_locks s" "counters_fresh s" "counters_exact s"
    and i: "i < length (students s)" and t: "student_life ok i s = Some t"
  shows "counters_exact t"
proof -
  let ?st = "students s ! i"
  have fit: "year_fits (spc ?st) (year ?st)" and len: "length (counter_values s) = 4"
    and fresh: "\<And>v. loaded (spc ?st) = Some v \<Longrightarrow> v = counter_values s ! year ?st"
    using assms(1,2) i by (simp_all add: counter_locks_def counters_fresh_def list_all_length)
  show ?thesis
    using assms(3) i t fit len fresh
    by (cases "spc ?st")
      (auto simp: student_defs counters_exact_def threads_in_update nth_list_update split: counter_pc.splits if_splits)
qed

section \<open>Enrolment\<close>

fun leaving :: "student_pc \<Rightarrow> bool" where
  "leaving (S_cleanup p) = True" | "leaving S_canceled = True" | "leaving _ = False"

fun finished :: "student_pc \<Rightarrow> bool" where
  "finished S_returned = True" | "finished S_canceled = True" | "finished _ = False"

definition marking :: "dean_pc \<Rightarrow> nat \<Rightarrow> bool" where
  "marking p j \<longleftrightarrow> (case p of D_mark idx now \<Rightarrow> j = idx | D_exit c \<Rightarrow> True | _ \<Rightarrow> False)"

text \<open>
  Only students whose removal is recorded, or is about to be, leave early; the number of
  students present is the number of those not removed.
\<close>

definition enrolled :: "university \<Rightarrow> bool" where
  "enrolled s \<longleftrightarrow> (\<forall>j < length (students s).
     (leaving (spc (students s ! j)) \<longrightarrow> cancelled (students s ! j)) \<and>
     (cancelled (students s ! j) \<longrightarrow> removed s ! j \<or> marking (dean s) j))"

definition presence :: "university \<Rightarrow> bool" where
  "presence s \<longleftrightarrow> length (removed s) = length (students s) \<and>
     (open_university s \<longrightarrow>
        present s = threads_in Not (removed s) + (case dean s of D_gone now \<Rightarrow> 1 | _ \<Rightarrow> 0))"

definition dean_view :: "university \<Rightarrow> bool" where
  "dean_view s \<longleftrightarrow> students s \<noteq> [] \<and> (case dean s of
       D_create i \<Rightarrow> \<forall>j < length (students s). i \<le> j \<longrightarrow> spc (students s ! j) = S_absent
     | D_cancel idx now \<Rightarrow> idx < length (students s) \<and> \<not> removed s ! idx
     | D_mark idx now \<Rightarrow> idx < length (students s) \<and> \<not> removed s ! idx
     | D_join i \<Rightarrow> \<forall>j < length (students s). j < i \<longrightarrow> finished (spc (students s ! j))
     | D_report \<Rightarrow> \<forall>j < length (students s). finished (spc (students s ! j))
     | _ \<Rightarrow> True)"

lemma student_life_others:
  "student_life ok i s = Some t \<Longrightarrow> j \<noteq> i \<Longrightarrow> students t ! j = students s ! j"
  by (auto simp: student_defs split: student_pc.splits counter_pc.splits if_splits)

lemma student_life_dean: "student_life ok i s = Some t \<Longrightarrow> dean t = dean s \<or> dean t = D_exit 1"
  by (cases "spc (students s ! i)") (auto simp: student_defs split: counter_pc.splits if_splits)

lemma student_life_running:
  "student_life ok i s = Some t \<Longrightarrow> \<not> finished (spc (students s ! i)) \<and> spc (students s ! i) \<noteq> S_absent"
  by (cases "spc (students s ! i)") (auto simp: student_defs)

lemma student_life_leaving:
  assumes "student_life ok i s = Some t" "i < length (students s)"
  shows "cancelled (students t ! i) = cancelled (students s ! i)"
    and "leaving (spc (students t ! i)) \<longrightarrow> leaving (spc (students s ! i)) \<or> cancelled (students s ! i)"
proof -
  show "cancelled (students t ! i) = cancelled (students s ! i)"
    using assms by (cases "spc (students s ! i)") (auto simp: student_defs split: counter_pc.splits if_splits)
  show "leaving (spc (students t ! i)) \<longrightarrow> leaving (spc (students s ! i)) \<or> cancelled (students s ! i)"
    using assms by (cases "spc (students s ! i)") (auto simp: student_defs split: counter_pc.splits if_splits)
qed

lemma enrolled_student:
  assumes "enrolled s" "i < length (students s)" "student_life ok i s = Some t"
  shows "enrolled t"
  unfolding enrolled_def
proof (intro allI impI)
  fix j assume "j < length (students t)"
  then have j: "j < length (students s)" using student_life_frame [OF assms(3)] by simp
  have m: "marking (dean s) j \<Longrightarrow> marking (dean t) j"
    using student_life_dean [OF assms(3)] by (auto simp: marking_def)
  from assms(1) j have "leaving (spc (students s ! j)) \<longrightarrow> cancelled (students s ! j)"
    "cancelled (students s ! j) \<longrightarrow> removed s ! j \<or> marking (dean s) j"
    by (auto simp: enrolled_def)
  then show "(leaving (spc (students t ! j)) \<longrightarrow> cancelled (students t ! j)) \<and>
      (cancelled (students t ! j) \<longrightarrow> removed t ! j \<or> marking (dean t) j)"
    using m student_life_frame(2) [OF assms(3)] student_life_others [OF assms(3), of j]
      student_life_leaving [OF assms(3,2)] by (cases "j = i") auto
qed

lemma presence_student:
  assumes "presence s" "student_life ok i s = Some t"
  shows "presence t"
  using assms student_life_frame [OF assms(2)] student_life_dean [OF assms(2)]
  by (auto simp: presence_def open_university_def)

lemma dean_view_student:
  assumes "dean_view s" "student_life ok i s = Some t"
  shows "dean_view t"
proof -
  have "finished (spc (students s ! j)) \<or> spc (students s ! j) = S_absent \<Longrightarrow> students t ! j = students s ! j" for j
    using student_life_others [OF assms(2), of j] student_life_running [OF assms(2)] by (cases "j = i") auto
  moreover have "students t \<noteq> []"
    using assms(1) student_life_frame(1) [OF assms(2)] by (auto simp: dean_view_def)
  ultimately show ?thesis
    using assms(1) student_life_frame [OF assms(2)] student_life_dean [OF assms(2)]
    by (auto simp: dean_view_def split: dean_pc.splits)
qed

section \<open>The main thread\<close>

definition university_inv :: "university \<Rightarrow> bool" where
  "university_inv s \<longleftrightarrow> counter_locks s \<and> counters_fresh s \<and> counters_exact s \<and> enrolled s \<and> presence s \<and> dean_view s"

text \<open>The steps of the main thread that touch the list of students change only one entry.\<close>

lemma dean_main_cases:
  assumes "dean_main ok r now s = Some t"
  shows "counter_values t = counter_values s \<and> mxCounters t = mxCounters s \<and>
    length (students t) = length (students s) \<and>
    (students t = students s \<or>
     (\<exists>i. dean s = D_create i \<and> i < length (students s) \<and> dean t = D_create (i + 1) \<and>
        students t = (students s)[i := (students s ! i)\<lparr>spc := S_start\<rparr>]) \<or>
     (\<exists>i now. dean s = D_cancel i now \<and> dean t = D_mark i now \<and>
        students t = (students s)[i := (students s ! i)\<lparr>cancelled := True\<rparr>]))"
  using assms
  by (cases "dean s") (auto simp: dean_main_def kick_student_def set_student_def Let_def split: if_splits)

lemma counters_dean:
  assumes inv: "university_inv s" and t: "dean_main ok r now s = Some t"
  shows "counter_locks t \<and> counters_fresh t \<and> counters_exact t"
proof -
  have s: "counter_locks s" "counters_fresh s" "counters_exact s" using inv by (simp_all add: university_inv_def)
  note c = dean_main_cases [OF t]
  from c consider "students t = students s"
    | i where "dean s = D_create i" "i < length (students s)" "students t = (students s)[i := (students s ! i)\<lparr>spc := S_start\<rparr>]"
    | i now where "dean s = D_cancel i now" "students t = (students s)[i := (students s ! i)\<lparr>cancelled := True\<rparr>]"
    by blast
  then show ?thesis
  proof cases
    case 1
    then show ?thesis using s c by (simp add: counter_locks_def counters_fresh_def counters_exact_def)
  next
    case 2
    then have "spc (students s ! i) = S_absent" using inv by (auto simp: university_inv_def dean_view_def)
    then show ?thesis using s c 2
      by (simp add: counter_locks_def counters_fresh_def counters_exact_def threads_in_update list_all_update locks_rules)
  next
    case 3
    then have "i < length (students s)" using inv by (auto simp: university_inv_def dean_view_def)
    moreover from this have "year_fits (spc (students s ! i)) (year (students s ! i))"
      "\<forall>v. loaded (spc (students s ! i)) = Some v \<longrightarrow> v = counter_values s ! year (students s ! i)"
      using s by (simp_all add: counter_locks_def counters_fresh_def list_all_length)
    ultimately show ?thesis using s c 3
      by (simp add: counter_locks_def counters_fresh_def counters_exact_def threads_in_update list_all_update locks_rules)
  qed
qed

lemma dean_main_removes:
  assumes "dean_main ok r now s = Some t"
  shows "removed t = (case dean s of D_mark idx now \<Rightarrow> (removed s)[idx := True] | _ \<Rightarrow> removed s)"
  using assms by (cases "dean s") (auto simp: dean_main_def kick_student_def set_student_def Let_def split: if_splits)

lemma dean_main_removed:
  assumes "dean_main ok r now s = Some t" "j < length (removed s)" "removed s ! j \<or> marking (dean s) j"
  shows "removed t ! j"
proof -
  have "dean s \<noteq> D_exit c" for c using assms(1) by (auto simp: dean_main_def)
  then show ?thesis
    using assms(2,3) dean_main_removes [OF assms(1)]
    by (cases "dean s") (auto simp: marking_def nth_update_if)
qed

lemma enrolled_dean:
  assumes "enrolled s" "presence s" "dean_view s" and t: "dean_main ok r now s = Some t"
  shows "enrolled t"
  unfolding enrolled_def
proof (intro allI impI)
  fix j assume "j < length (students t)"
  then have j: "j < length (students s)" "j < length (removed s)"
    using dean_main_cases [OF t] assms(2) by (simp_all add: presence_def)
  then have s: "leaving (spc (students s ! j)) \<longrightarrow> cancelled (students s ! j)"
    "cancelled (students s ! j) \<longrightarrow> removed s ! j \<or> marking (dean s) j"
    using assms(1) by (auto simp: enrolled_def)
  have "(leaving (spc (students t ! j)) \<longrightarrow> cancelled (students t ! j)) \<and>
      (cancelled (students t ! j) \<longrightarrow> cancelled (students s ! j) \<or> marking (dean t) j)"
    using dean_main_cases [OF t] s j by (auto simp: nth_update_if marking_def split: if_splits)
  then show "(leaving (spc (students t ! j)) \<longrightarrow> cancelled (students t ! j)) \<and>
      (cancelled (students t ! j) \<longrightarrow> removed t ! j \<or> marking (dean t) j)"
    using s dean_main_removed [OF t j(2)] by blast
qed

lemma students_dean:
  assumes inv: "university_inv s" and r: "0 \<le> r" and t: "dean_main ok r now s = Some t"
  shows "enrolled t" "presence t" "dean_view t"
proof -
  have s: "enrolled s" "presence s" "dean_view s" using inv by (simp_all add: university_inv_def)
  have pick: "nat (r mod int (length (students s))) < length (students s)"
    using s(3) by (simp add: dean_view_def nat_less_iff)
  show "enrolled t" using enrolled_dean [OF s t] .
  show "presence t"
    using s t pick
    by (cases "dean s") (auto simp: presence_def dean_view_def open_university_def dean_main_def kick_student_def
        set_student_def Let_def threads_in_update split: if_splits)
  show "dean_view t"
    using s t pick
    by (cases "dean s") (auto simp: dean_view_def dean_main_def kick_student_def
        set_student_def Let_def nth_list_update less_Suc_eq split: if_splits)
qed

lemma university_step_inv:
  assumes inv: "university_inv s" and "university_step s t"
  shows "university_inv t"
  using assms(2)
proof cases
  case (Dean r ok now)
  show ?thesis unfolding university_inv_def
    using counters_dean [OF inv Dean(2)] students_dean [OF inv Dean] by blast
next
  case (Student i ok)
  from inv show ?thesis unfolding university_inv_def
    using Student
    by (blast intro: counter_locks_student counters_fresh_student counters_exact_student enrolled_student
        presence_student dean_view_student)
qed

lemma university_start_inv: "0 < n \<Longrightarrow> university_inv (university_start n)"
  by (auto simp: university_inv_def university_start_def counter_locks_def counters_fresh_def counters_exact_def
      enrolled_def presence_def dean_view_def locks_protect_def protects_def list_all_length threads_in_def)

definition university_init :: "university \<Rightarrow> bool" where
  "university_init s \<longleftrightarrow> (\<exists>n > 0. s = university_start n)"

interpretation university: inv_system university_init university_step university_inv
  by unfold_locales (auto simp: university_init_def intro: university_start_inv university_step_inv)

lemma list_of_4: "length xs = 4 \<Longrightarrow> xs = [xs ! 0, xs ! 1, xs ! 2, xs ! 3]"
  by (auto simp: numeral_eq_Suc length_Suc_conv)

text \<open>
  Property C10. When the main thread of \<open>prog20\<close> reports, every student has finished or has
  left; the counters of the three years are 0 and the number of engineers is exactly the
  number of students who finished; those who left were removed by the main thread, so at
  least the students still present are engineers.
\<close>

theorem students_accounted:
  assumes "0 < n" "university_step\<^sup>*\<^sup>* (university_start n) s" "dean s = D_report"
  shows "counter_values s = [0, 0, 0, threads_in (\<lambda>st. spc st = S_returned) (students s)] \<and>
    (\<forall>j < length (students s). spc (students s ! j) = S_returned \<or>
       spc (students s ! j) = S_canceled \<and> removed s ! j) \<and>
    present s \<le> counter_values s ! 3"
proof -
  have inv: "university_inv s"
    using university.inv_reachable [OF _ assms(2)] assms(1) by (auto simp: university_init_def)
  then have fin: "\<forall>j < length (students s). finished (spc (students s ! j))"
    using assms(3) by (simp add: university_inv_def dean_view_def)
  have left: "\<forall>j < length (students s). spc (students s ! j) = S_returned \<or>
       spc (students s ! j) = S_canceled \<and> removed s ! j"
  proof (intro allI impI)
    fix j assume j: "j < length (students s)"
    then have "finished (spc (students s ! j))" using fin by blast
    then show "spc (students s ! j) = S_returned \<or> spc (students s ! j) = S_canceled \<and> removed s ! j"
      using inv j assms(3) by (cases "spc (students s ! j)") (auto simp: university_inv_def enrolled_def marking_def)
  qed
  have years: "year (students s ! j) = 3" if "j < length (students s)" "spc (students s ! j) = S_returned" for j
    using inv that by (auto simp: university_inv_def counter_locks_def list_all_length)
  have counts: "counter_values s ! y = (if y = 3 then threads_in (\<lambda>st. spc st = S_returned) (students s) else 0)"
    if "y < 4" for y
  proof -
    have "threads_in (\<lambda>st. year st = y \<and> counted (spc st)) (students s)
        = threads_in (\<lambda>st. y = 3 \<and> spc st = S_returned) (students s)"
      using left years by (intro threads_in_cong) auto
    then show ?thesis using inv that by (auto simp: university_inv_def counters_exact_def)
  qed
  then have "counter_values s = [0, 0, 0, threads_in (\<lambda>st. spc st = S_returned) (students s)]"
    using inv list_of_4 [of "counter_values s"] counts [of 0] counts [of 1] counts [of 2] counts [of 3]
    by (simp add: university_inv_def counter_locks_def)
  moreover have "threads_in Not (removed s) \<le> threads_in (\<lambda>st. spc st = S_returned) (students s)"
    using inv left by (intro threads_in_mono) (auto simp: university_inv_def presence_def)
  then have "present s \<le> counter_values s ! 3"
    using inv counts [of 3] assms(3) by (simp add: university_inv_def presence_def open_university_def)
  ultimately show ?thesis using left by blast
qed

text \<open>A run with two students of whom the first is cancelled in the first year.\<close>

definition university_act :: "(int \<times> int) + nat \<Rightarrow> university \<Rightarrow> university option" where
  "university_act a s = (case a of
       Inl now \<Rightarrow> dean_main True 0 now s
     | Inr i \<Rightarrow> if open_university s \<and> i < length (students s) then student_life True i s else None)"

lemma university_act_step: "university_act a s = Some t \<Longrightarrow> university_step s t"
  by (auto simp: university_act_def split: sum.splits if_splits intro: university_step.intros)

lemma university_run: "run_schedule university_act as s = Some t \<Longrightarrow> university_step\<^sup>*\<^sup>* s t"
  by (erule run_schedule_steps) (rule university_act_step)

theorem students_accounted_witness:
  "\<exists>s :: university. dean s = D_report \<and> counter_values s = [0, 0, 0, 1] \<and> present s \<le> 1"
proof -
  let ?run = "run_schedule university_act
    (replicate 4 (Inl (0, 0)) @ replicate 6 (Inr 0) @ replicate 8 (Inl (4, 0)) @ replicate 5 (Inr 0) @
     replicate 39 (Inr 1) @ replicate 3 (Inl (0, 0))) (university_start 2)"
  have "?run \<noteq> None \<and> dean (the ?run) = D_report \<and> counter_values (the ?run) = [0, 0, 0, 1]"
    by code_simp
  then obtain s where s: "?run = Some s" "dean s = D_report" "counter_values s = [0, 0, 0, 1]" by auto
  have "present s \<le> counter_values s ! 3"
    using students_accounted [OF zero_less_numeral university_run [OF s(1)] s(2)] by blast
  then show ?thesis using s(2,3) by (intro exI [of _ s]) simp
qed

end
