(* ===== verification/PiEstimation.thy ===== *)
theory PiEstimation
  imports Threads
begin

text \<open>
  \<open>Lab3/prog17.c\<close>: joinable threads estimate pi by throwing points into the unit square,
  each with its own seed and its own result on the heap; the main thread joins them in order
  and averages. Double precision arithmetic is a record of operations, so that what is proved
  holds for whatever rounding the machine has.
\<close>

section \<open>Arguments\<close>

definition DEFAULT_THREADCOUNT :: int where "DEFAULT_THREADCOUNT = 10"
definition DEFAULT_SAMPLESIZE :: int where "DEFAULT_SAMPLESIZE = 100"

definition read_args_pi :: "byte list list \<Rightarrow> ('g, int \<times> int) prog" where
  "read_args_pi argv =
     (let threadCount = (if length argv \<ge> 2 then atoi (argv ! 1) else DEFAULT_THREADCOUNT) in
      if length argv \<ge> 2 \<and> threadCount \<le> 0 then
        bind_m (printf (str ''Invalid value for 'threadCount'' @ [39])) (\<lambda>_. halt_m (Exit 1))
      else
        let samplesCount = (if length argv \<ge> 3 then atoi (argv ! 2) else DEFAULT_SAMPLESIZE) in
        if length argv \<ge> 3 \<and> samplesCount \<le> 0 then
          bind_m (printf (str ''Invalid value for 'samplesCount'' @ [39])) (\<lambda>_. halt_m (Exit 1))
        else ret (threadCount, samplesCount))"

text \<open>The argument blocks: a seed each and the same number of samples.\<close>

definition pi_setup :: "byte list list \<Rightarrow> ('g, 32 word list \<times> int) prog" where
  "pi_setup argv =
     bind_m (read_args_pi argv) (\<lambda>(threadCount, samplesCount).
     bind_m (sys SYS_malloc [16 * threadCount] [] any_ok) (\<lambda>m.
     if r_val m = 0 then err_exit ''Malloc error for estimation arguments!''
     else
       bind_m (sys SYS_time [] [] any_ok) (\<lambda>t.
       bind_m (sys SYS_srand [r_val t] [] any_ok) (\<lambda>_.
       bind_m (for_m [0..<nat threadCount] (\<lambda>i seeds.
         bind_m rand_m (\<lambda>v. ret (seeds @ [word_of_int v]))) []) (\<lambda>seeds.
       ret (seeds, samplesCount))))))"

section \<open>One estimate\<close>

record 'd doubles =
  d_of_int :: "int \<Rightarrow> 'd"
  d_add :: "'d \<Rightarrow> 'd \<Rightarrow> 'd"
  d_mul :: "'d \<Rightarrow> 'd \<Rightarrow> 'd"
  d_div :: "'d \<Rightarrow> 'd \<Rightarrow> 'd"
  d_sqrt :: "'d \<Rightarrow> 'd"
  d_le :: "'d \<Rightarrow> 'd \<Rightarrow> bool"

text \<open>One turn of the sampling loop: two numbers, and whether the point is in the circle.\<close>

definition pi_sample :: "'d doubles \<Rightarrow> rng \<Rightarrow> 32 word \<Rightarrow> bool \<times> 32 word" where
  "pi_sample fl rand_r seed =
     (case rand_r seed of (v1, seed1) \<Rightarrow> case rand_r seed1 of (v2, seed2) \<Rightarrow>
        let x = d_div fl (d_of_int fl v1) (d_of_int fl RAND_MAX);
            y = d_div fl (d_of_int fl v2) (d_of_int fl RAND_MAX)
        in (d_le fl (d_sqrt fl (d_add fl (d_mul fl x x) (d_mul fl y y))) (d_of_int fl 1), seed2))"

definition pi_result :: "'d doubles \<Rightarrow> int \<Rightarrow> int \<Rightarrow> 'd" where
  "pi_result fl inside samples =
     d_div fl (d_mul fl (d_of_int fl 4) (d_of_int fl inside)) (d_of_int fl samples)"

text \<open>The sequential reference: the samples one after the other, then the threads in order.\<close>

fun pi_count :: "'d doubles \<Rightarrow> rng \<Rightarrow> nat \<Rightarrow> 32 word \<Rightarrow> int \<Rightarrow> int" where
  "pi_count fl rand_r 0 seed inside = inside"
| "pi_count fl rand_r (Suc n) seed inside =
     (case pi_sample fl rand_r seed of (hit, seed1) \<Rightarrow>
        pi_count fl rand_r n seed1 (if hit then inside + 1 else inside))"

definition pi_estimate :: "'d doubles \<Rightarrow> rng \<Rightarrow> int \<Rightarrow> 32 word \<Rightarrow> 'd" where
  "pi_estimate fl rand_r samples seed = pi_result fl (pi_count fl rand_r (nat samples) seed 0) samples"

definition pi_sequential :: "'d doubles \<Rightarrow> rng \<Rightarrow> int \<Rightarrow> 32 word list \<Rightarrow> 'd" where
  "pi_sequential fl rand_r samples seeds =
     d_div fl (foldl (d_add fl) (d_of_int fl 0) (map (pi_estimate fl rand_r samples) seeds))
       (d_of_int fl (int (length seeds)))"

section \<open>The threads\<close>

datatype 'd estimator_pc = E_absent | E_malloc | E_loop int int | E_store int | E_returned 'd

record 'd estimator =
  epc :: "'d estimator_pc"
  eseed :: "32 word"

datatype 'd pi_pc = P_create nat | P_join nat 'd | P_report 'd | P_exit int

record 'd pi_system =
  samplesCount :: int
  estimations :: "'d estimator list"
  pimain :: "'d pi_pc"

text \<open>\<open>pi_estimation\<close>; \<open>ok\<close> is whether \<open>malloc\<close> succeeds. Nothing it touches is shared.\<close>

definition pi_estimation :: "'d doubles \<Rightarrow> rng \<Rightarrow> bool \<Rightarrow> nat \<Rightarrow> 'd pi_system \<Rightarrow> 'd pi_system option" where
  "pi_estimation fl rand_r ok k s =
     (let t = estimations s ! k; put = (\<lambda>t1. s\<lparr>estimations := (estimations s)[k := t1]\<rparr>) in
      case epc t of
        E_absent \<Rightarrow> None
      | E_malloc \<Rightarrow> Some (if ok then put (t\<lparr>epc := E_loop 0 0\<rparr>) else s\<lparr>pimain := P_exit 1\<rparr>)
      | E_loop i inside \<Rightarrow> Some (
          if i < samplesCount s then
            (case pi_sample fl rand_r (eseed t) of (hit, seed1) \<Rightarrow>
               put \<lparr>epc = E_loop (i + 1) (if hit then inside + 1 else inside), eseed = seed1\<rparr>)
          else put (t\<lparr>epc := E_store inside\<rparr>))
      | E_store inside \<Rightarrow> Some (put (t\<lparr>epc := E_returned (pi_result fl inside (samplesCount s))\<rparr>))
      | E_returned r \<Rightarrow> None)"

definition pi_main :: "'d doubles \<Rightarrow> bool \<Rightarrow> 'd pi_system \<Rightarrow> 'd pi_system option" where
  "pi_main fl ok s =
     (let n = length (estimations s) in
      case pimain s of
        P_create i \<Rightarrow> Some (
          if i < n then
            (if ok then s\<lparr>pimain := P_create (i + 1),
                estimations := (estimations s)[i := (estimations s ! i)\<lparr>epc := E_malloc\<rparr>]\<rparr>
             else s\<lparr>pimain := P_exit 1\<rparr>)
          else s\<lparr>pimain := P_join 0 (d_of_int fl 0)\<rparr>)
      | P_join i cumulative \<Rightarrow>
          (if i < n then
             if \<not> ok then Some (s\<lparr>pimain := P_exit 1\<rparr>)
             else case epc (estimations s ! i) of
               E_returned subresult \<Rightarrow> Some (s\<lparr>pimain := P_join (i + 1) (d_add fl cumulative subresult)\<rparr>)
             | _ \<Rightarrow> None
           else Some (s\<lparr>pimain := P_report (d_div fl cumulative (d_of_int fl (int n)))\<rparr>))
      | P_report result \<Rightarrow> Some (s\<lparr>pimain := P_exit 0\<rparr>)
      | P_exit c \<Rightarrow> None)"

definition pi_running :: "'d pi_system \<Rightarrow> bool" where
  "pi_running s \<longleftrightarrow> (case pimain s of P_exit c \<Rightarrow> False | _ \<Rightarrow> True)"

inductive pi_step :: "'d doubles \<Rightarrow> rng \<Rightarrow> 'd pi_system \<Rightarrow> 'd pi_system \<Rightarrow> bool"
  for fl :: "'d doubles" and rand_r :: rng where
  Main: "pi_main fl ok s = Some t \<Longrightarrow> pi_step fl rand_r s t"
| Thread: "pi_running s \<Longrightarrow> k < length (estimations s) \<Longrightarrow> pi_estimation fl rand_r ok k s = Some t \<Longrightarrow>
    pi_step fl rand_r s t"

definition pi_start :: "32 word list \<Rightarrow> int \<Rightarrow> 'd pi_system" where
  "pi_start seeds samples = \<lparr>samplesCount = samples,
     estimations = map (\<lambda>x. \<lparr>epc = E_absent, eseed = x\<rparr>) seeds, pimain = P_create 0\<rparr>"

section \<open>The result does not depend on the schedule\<close>

text \<open>What remains of an estimate, whatever has been done of it, gives the reference value.\<close>

definition on_course :: "'d doubles \<Rightarrow> rng \<Rightarrow> int \<Rightarrow> 32 word \<Rightarrow> 'd estimator \<Rightarrow> bool" where
  "on_course fl rand_r samples x t \<longleftrightarrow> (case epc t of
       E_absent \<Rightarrow> eseed t = x
     | E_malloc \<Rightarrow> eseed t = x
     | E_loop i inside \<Rightarrow> 0 \<le> i \<and> i \<le> samples \<and>
         pi_count fl rand_r (nat (samples - i)) (eseed t) inside = pi_count fl rand_r (nat samples) x 0
     | E_store inside \<Rightarrow> inside = pi_count fl rand_r (nat samples) x 0
     | E_returned r \<Rightarrow> r = pi_estimate fl rand_r samples x)"

definition pi_inv :: "'d doubles \<Rightarrow> rng \<Rightarrow> 32 word list \<Rightarrow> int \<Rightarrow> 'd pi_system \<Rightarrow> bool" where
  "pi_inv fl rand_r seeds samples s \<longleftrightarrow> samplesCount s = samples \<and> length (estimations s) = length seeds \<and>
     (\<forall>k < length seeds. on_course fl rand_r samples (seeds ! k) (estimations s ! k)) \<and>
     (case pimain s of
        P_create i \<Rightarrow> \<forall>k < length seeds. i \<le> k \<longrightarrow> epc (estimations s ! k) = E_absent
      | P_join i cumulative \<Rightarrow> i \<le> length seeds \<and>
          cumulative = foldl (d_add fl) (d_of_int fl 0) (map (pi_estimate fl rand_r samples) (take i seeds))
      | P_report result \<Rightarrow> result = pi_sequential fl rand_r samples seeds
      | P_exit c \<Rightarrow> True)"

lemma pi_count_step:
  assumes "0 \<le> i" "i < samples"
  shows "pi_count fl rand_r (nat (samples - i)) seed inside =
    (case pi_sample fl rand_r seed of (hit, seed1) \<Rightarrow>
       pi_count fl rand_r (nat (samples - (i + 1))) seed1 (if hit then inside + 1 else inside))"
proof -
  have "nat (samples - i) = Suc (nat (samples - (i + 1)))" using assms by simp
  then show ?thesis by simp
qed

lemma pi_estimation_local:
  assumes "pi_estimation fl rand_r ok k s = Some t"
  shows "length (estimations t) = length (estimations s)" "samplesCount t = samplesCount s"
    and "j \<noteq> k \<Longrightarrow> estimations t ! j = estimations s ! j"
    and "pimain t = pimain s \<or> pimain t = P_exit 1"
    and "epc (estimations s ! k) \<noteq> E_absent"
  using assms
  by (cases "epc (estimations s ! k)"; auto simp: pi_estimation_def Let_def split: prod.splits if_splits)+

lemma pi_estimation_course:
  assumes "pi_estimation fl rand_r ok k s = Some t" "k < length (estimations s)" "0 \<le> samplesCount s"
    and "on_course fl rand_r (samplesCount s) x (estimations s ! k)"
  shows "on_course fl rand_r (samplesCount s) x (estimations t ! k)"
  using assms
  by (cases "epc (estimations s ! k)")
    (auto simp: pi_estimation_def on_course_def Let_def pi_estimate_def pi_count_step split: prod.splits if_splits)

lemma pi_inv_thread:
  assumes inv: "pi_inv fl rand_r seeds samples s" and "0 \<le> samples" and k: "k < length (estimations s)"
    and t: "pi_estimation fl rand_r ok k s = Some t"
  shows "pi_inv fl rand_r seeds samples t"
proof -
  have "on_course fl rand_r samples (seeds ! j) (estimations t ! j)" if "j < length seeds" for j
    using that inv assms(2) pi_estimation_course [OF t k, of "seeds ! j"] pi_estimation_local(3) [OF t, of j]
    by (cases "j = k") (auto simp: pi_inv_def)
  moreover have "epc (estimations s ! j) = E_absent \<Longrightarrow> estimations t ! j = estimations s ! j" for j
    using pi_estimation_local(3,5) [OF t] by (cases "j = k") auto
  ultimately show ?thesis
    using inv pi_estimation_local(1,2,4) [OF t] by (auto simp: pi_inv_def split: pi_pc.splits)
qed

lemma on_course_created:
  "on_course fl rand_r samples x t \<Longrightarrow> epc t = E_absent \<Longrightarrow> on_course fl rand_r samples x (t\<lparr>epc := E_malloc\<rparr>)"
  by (simp add: on_course_def)

lemma on_course_returned:
  "on_course fl rand_r samples x t \<Longrightarrow> epc t = E_returned r \<Longrightarrow> r = pi_estimate fl rand_r samples x"
  by (simp add: on_course_def)

lemma pi_inv_main:
  assumes inv: "pi_inv fl rand_r seeds samples s" and t: "pi_main fl ok s = Some t"
  shows "pi_inv fl rand_r seeds samples t"
proof (cases "pimain s")
  case (P_create i)
  then show ?thesis using inv t
    by (auto simp: pi_inv_def pi_main_def Let_def nth_update_if on_course_created split: if_splits)
next
  case (P_join i cumulative)
  have "subresult = pi_estimate fl rand_r samples (seeds ! i)"
    if "i < length seeds" "epc (estimations s ! i) = E_returned subresult" for subresult
    using inv that by (intro on_course_returned) (auto simp: pi_inv_def)
  with P_join show ?thesis using inv t
    by (cases "epc (estimations s ! i)")
      (auto simp: pi_inv_def pi_main_def Let_def pi_sequential_def take_Suc_conv_app_nth split: if_splits)
qed (use inv t in \<open>auto simp: pi_inv_def pi_main_def Let_def\<close>)

definition pi_init :: "32 word list \<Rightarrow> int \<Rightarrow> 'd pi_system \<Rightarrow> bool" where
  "pi_init seeds samples s \<longleftrightarrow> 0 \<le> samples \<and> s = pi_start seeds samples"

interpretation pi_threads: inv_system "pi_init seeds samples" "pi_step fl rand_r"
    "\<lambda>s. 0 \<le> samples \<and> pi_inv fl rand_r seeds samples s" for seeds samples fl rand_r
proof
  show "0 \<le> samples \<and> pi_inv fl rand_r seeds samples s" if "pi_init seeds samples s" for s
    using that by (auto simp: pi_init_def pi_start_def pi_inv_def on_course_def)
  show "0 \<le> samples \<and> pi_inv fl rand_r seeds samples t"
    if "0 \<le> samples \<and> pi_inv fl rand_r seeds samples s" "pi_step fl rand_r s t" for s t
    using that(2,1) by cases (auto intro: pi_inv_main pi_inv_thread)
qed

text \<open>
  Property C12. Under every interleaving, and for every rounding of the arithmetic, the value
  \<open>prog17\<close> prints is the one of the sequential program that computes the estimates one
  after the other in the order of the threads.
\<close>

theorem estimate_is_sequential:
  assumes "0 \<le> samples" "(pi_step fl rand_r)\<^sup>*\<^sup>* (pi_start seeds samples) s" "pimain s = P_report result"
  shows "result = pi_sequential fl rand_r samples seeds"
  using pi_threads.inv_reachable [of seeds samples "pi_start seeds samples" fl rand_r s] assms
  by (simp add: pi_init_def pi_inv_def)

definition pi_act :: "'d doubles \<Rightarrow> rng \<Rightarrow> thread_id \<Rightarrow> 'd pi_system \<Rightarrow> 'd pi_system option" where
  "pi_act fl rand_r a s = (case a of
       None \<Rightarrow> pi_main fl True s
     | Some k \<Rightarrow> if pi_running s \<and> k < length (estimations s) then pi_estimation fl rand_r True k s else None)"

lemma pi_run: "run_schedule (pi_act fl rand_r) as s = Some t \<Longrightarrow> (pi_step fl rand_r)\<^sup>*\<^sup>* s t"
  by (erule run_schedule_steps)
    (auto simp: pi_act_def split: option.splits if_splits intro: pi_step.intros)

text \<open>An instance with integers for the doubles: two threads, one sample each.\<close>

definition int_doubles :: "int doubles" where
  "int_doubles = \<lparr>d_of_int = id, d_add = (+), d_mul = (*), d_div = (div), d_sqrt = id, d_le = (\<le>)\<rparr>"

theorem estimate_is_sequential_witness:
  "pi_sequential int_doubles (\<lambda>x. (0, x)) 1 [7, 8] = 4"
proof -
  let ?run = "run_schedule (pi_act int_doubles (\<lambda>x. (0, x)))
    (replicate 3 None @ replicate 4 (Some 1) @ replicate 4 (Some 0) @ replicate 3 None) (pi_start [7, 8] 1)"
  have "?run \<noteq> None \<and> pimain (the ?run) = P_report 4" by code_simp
  then obtain s where s: "?run = Some s" "pimain s = P_report 4" by auto
  show ?thesis using estimate_is_sequential [OF _ pi_run [OF s(1)] s(2)] by simp
qed

end
