(* ===== verification/TimeServer.thy ===== *)
theory TimeServer
  imports Sockets Threads "HOL-Library.Multiset"
begin

text \<open>
  The sleeping service of \<open>L2_4\<close>: a client (\<open>POSIX_sem_client.c\<close>) asks the UDP server
  (\<open>POSIX_sem_server.c\<close>) to answer after a number of seconds; the server starts a detached
  thread per request, at most ten at a time, which a semaphore ensures; a request beyond that
  is denied at once.
\<close>

section \<open>The server\<close>

definition FS_NUM :: int where "FS_NUM = 10"

text \<open>The refusal: -1 as a 16-bit number in network byte order.\<close>

definition deny_image :: "byte list" where
  "deny_image = bytes16 (htons (word_of_int (-1)))"

text \<open>What a call in a step answers: bytes with their sender, a plain success, a failure.\<close>

datatype kernel_answer = Got "byte list" "int list" | Done int | Failed errno

text \<open>
  \<open>communicateDgram\<close>: its argument block and the next call; \<open>T_sleep tt\<close> is the test of
  the sleeping loop.
\<close>

datatype timer_pc = T_print | T_sleep int | T_send | T_post | T_free | T_returned

record timer =
  timer_pc :: timer_pc
  arg_time :: "byte list"
  arg_addr :: "int list"

datatype server_pc =
    R_test | R_recv | R_trywait | R_deny | R_malloc | R_create | R_detach | R_left | R_exit int

record time_server =
  do_work :: bool
  semaphore :: int
  req_time :: "byte list"
  req_addr :: "int list"
  timers :: "timer list"
  answers :: "(int list \<times> byte list) list"
  server_pc :: server_pc

definition set_timer :: "nat \<Rightarrow> timer_pc \<Rightarrow> time_server \<Rightarrow> time_server" where
  "set_timer i p s = s\<lparr>timers := (timers s)[i := (timers s ! i)\<lparr>timer_pc := p\<rparr>]\<rparr>"

definition communicateDgram :: "kernel_answer \<Rightarrow> nat \<Rightarrow> time_server \<Rightarrow> time_server option" where
  "communicateDgram a i s =
     (let t = timers s ! i in
      case timer_pc t of
        T_print \<Rightarrow> Some (set_timer i (T_sleep (uint (ntohs (word16 (arg_time t))))) s)
      | T_sleep tt \<Rightarrow>
          (if tt > 0 then
             case a of Done left \<Rightarrow> if 0 \<le> left \<and> left \<le> tt then Some (set_timer i (T_sleep left) s) else None
             | _ \<Rightarrow> None
           else Some (set_timer i T_send s))
      | T_send \<Rightarrow>
          (case a of
             Done n \<Rightarrow> Some ((set_timer i T_post s)\<lparr>answers := answers s @ [(arg_addr t, arg_time t)]\<rparr>)
           | Failed e \<Rightarrow> Some (
               if e = EINTR then s
               else if e = EPIPE then set_timer i T_post s
               else s\<lparr>server_pc := R_exit 1\<rparr>)
           | Got bs addr \<Rightarrow> None)
      | T_post \<Rightarrow> Some (case a of
          Failed e \<Rightarrow> s\<lparr>server_pc := R_exit 1\<rparr>
        | _ \<Rightarrow> (set_timer i T_free s)\<lparr>semaphore := semaphore s + 1\<rparr>)
      | T_free \<Rightarrow> Some (set_timer i T_returned s)
      | T_returned \<Rightarrow> None)"

text \<open>
  \<open>doServer\<close>: an interrupted \<open>sem_trywait\<close> is repeated at once and leaves no trace;
  the variables \<open>time\<close> and \<open>addr\<close> keep what an earlier datagram left when a
  shorter one arrives.
\<close>

definition time_doServer :: "kernel_answer \<Rightarrow> time_server \<Rightarrow> time_server option" where
  "time_doServer a s =
     (case server_pc s of
        R_test \<Rightarrow> Some (s\<lparr>server_pc := if do_work s then R_recv else R_left\<rparr>)
      | R_recv \<Rightarrow>
          (case a of
             Got bs addr \<Rightarrow> if length bs \<le> 2 then
               Some (s\<lparr>req_time := put_at 0 bs (req_time s), req_addr := addr, server_pc := R_trywait\<rparr>) else None
           | Failed e \<Rightarrow> Some (s\<lparr>server_pc := if e = EINTR then R_test else R_exit 1\<rparr>)
           | Done n \<Rightarrow> None)
      | R_trywait \<Rightarrow> Some (
          if semaphore s > 0 then s\<lparr>semaphore := semaphore s - 1, server_pc := R_malloc\<rparr>
          else s\<lparr>server_pc := R_deny\<rparr>)
      | R_deny \<Rightarrow>
          (case a of
             Done n \<Rightarrow> Some (s\<lparr>answers := answers s @ [(req_addr s, deny_image)], server_pc := R_test\<rparr>)
           | Failed e \<Rightarrow> Some (
               if e = EINTR then s
               else if e = EPIPE then s\<lparr>server_pc := R_test\<rparr>
               else s\<lparr>server_pc := R_exit 1\<rparr>)
           | Got bs addr \<Rightarrow> None)
      | R_malloc \<Rightarrow> Some (s\<lparr>server_pc := case a of Failed e \<Rightarrow> R_exit 1 | _ \<Rightarrow> R_create\<rparr>)
      | R_create \<Rightarrow> Some (case a of
          Failed e \<Rightarrow> s\<lparr>server_pc := R_exit 1\<rparr>
        | _ \<Rightarrow> s\<lparr>timers := timers s @ [\<lparr>timer_pc = T_print, arg_time = req_time s, arg_addr = req_addr s\<rparr>],
                 server_pc := R_detach\<rparr>)
      | R_detach \<Rightarrow> Some (s\<lparr>server_pc := case a of Failed e \<Rightarrow> R_exit 1 | _ \<Rightarrow> R_test\<rparr>)
      | R_left \<Rightarrow> Some (s\<lparr>server_pc := case a of Failed e \<Rightarrow> (if e = EINTR then R_left else R_exit 1) | _ \<Rightarrow> R_exit 0\<rparr>)
      | R_exit c \<Rightarrow> None)"

definition time_serving :: "time_server \<Rightarrow> bool" where
  "time_serving s \<longleftrightarrow> (case server_pc s of R_exit c \<Rightarrow> False | _ \<Rightarrow> True)"

inductive time_step :: "time_server \<Rightarrow> time_server \<Rightarrow> bool" where
  Server: "time_doServer a s = Some t \<Longrightarrow> time_step s t"
| Timer: "time_serving s \<Longrightarrow> i < length (timers s) \<Longrightarrow> communicateDgram a i s = Some t \<Longrightarrow> time_step s t"
| Sigint: "time_serving s \<Longrightarrow> time_step s (s\<lparr>do_work := False\<rparr>)"

inductive_cases time_stepE: "time_step s t"

definition time_start :: "bool \<Rightarrow> byte list \<Rightarrow> time_server" where
  "time_start work junk = \<lparr>do_work = work, semaphore = FS_NUM, req_time = junk, req_addr = [], timers = [],
     answers = [], server_pc = R_test\<rparr>"

section \<open>Permits and answers\<close>

definition active :: "timer \<Rightarrow> bool" where
  "active t \<longleftrightarrow> timer_pc t \<notin> {T_free, T_returned}"

definition granted :: "server_pc \<Rightarrow> int" where
  "granted p = (if p \<in> {R_malloc, R_create} then 1 else 0)"

text \<open>
  The value of the semaphore and the threads that have not given their permit back make ten;
  an answer is a refusal or the number some thread was asked for, sent to who asked.
\<close>

definition permits_ok :: "time_server \<Rightarrow> bool" where
  "permits_ok s \<longleftrightarrow> 0 \<le> semaphore s \<and>
     (time_serving s \<longrightarrow> semaphore s + threads_in active (timers s) + granted (server_pc s) = FS_NUM) \<and>
     semaphore s + threads_in active (timers s) \<le> FS_NUM"

definition answered :: "timer \<Rightarrow> bool" where
  "answered t \<longleftrightarrow> timer_pc t \<in> {T_post, T_free, T_returned}"

definition answers_ok :: "time_server \<Rightarrow> bool" where
  "answers_ok s \<longleftrightarrow> mset (filter (\<lambda>(a, b). b \<noteq> deny_image) (answers s))
     \<subseteq># mset (map (\<lambda>t. (arg_addr t, arg_time t)) (filter answered (timers s)))"

definition time_inv :: "time_server \<Rightarrow> bool" where
  "time_inv s \<longleftrightarrow> permits_ok s \<and> answers_ok s"

lemmas time_defs = communicateDgram_def time_doServer_def Let_def set_timer_def

lemma permits_timer:
  assumes "permits_ok s" "time_serving s" "i < length (timers s)" "communicateDgram a i s = Some t"
  shows "permits_ok t"
  using assms
  by (cases "timer_pc (timers s ! i)")
    (auto simp: time_defs permits_ok_def time_serving_def threads_in_update active_def granted_def
      split: if_splits kernel_answer.splits)

lemma permits_server:
  assumes "permits_ok s" "time_doServer a s = Some t"
  shows "permits_ok t"
  using assms
  by (cases "server_pc s")
    (auto simp: time_defs permits_ok_def time_serving_def active_def granted_def split: if_splits kernel_answer.splits)

lemma subset_add_mset: "A \<subseteq># B \<Longrightarrow> A \<subseteq># add_mset x B"
  by (metis add_mset_add_single mset_subset_eq_add_left subset_mset.order_trans)

lemma answers_timer:
  assumes "answers_ok s" "i < length (timers s)" "communicateDgram a i s = Some t"
  shows "answers_ok t"
proof (cases "timer_pc (timers s ! i) = T_send")
  case True
  let ?t1 = "(timers s ! i)\<lparr>timer_pc := T_post\<rparr>"
  have new: "mset (map (\<lambda>t. (arg_addr t, arg_time t)) (filter answered ((timers s)[i := ?t1]))) =
      add_mset (arg_addr (timers s ! i), arg_time (timers s ! i))
        (mset (map (\<lambda>t. (arg_addr t, arg_time t)) (filter answered (timers s))))"
    using mset_filter_new [OF assms(2), of answered ?t1 "\<lambda>t. (arg_addr t, arg_time t)"] True
    by (simp add: answered_def)
  have "answers t = answers s \<and> (timers t = timers s \<or> timers t = (timers s)[i := ?t1]) \<or>
      answers t = answers s @ [(arg_addr (timers s ! i), arg_time (timers s ! i))] \<and> timers t = (timers s)[i := ?t1]"
    using True assms(3) by (auto simp: time_defs split: kernel_answer.splits if_splits)
  then show ?thesis
    using assms(1) new unfolding answers_ok_def
    by (auto intro: subset_add_mset)
next
  case False
  then have same: "answers t = answers s"
    and "timers t = timers s \<or> (\<exists>p. answered ((timers s ! i)\<lparr>timer_pc := p\<rparr>) = answered (timers s ! i) \<and>
       timers t = (timers s)[i := (timers s ! i)\<lparr>timer_pc := p\<rparr>])"
    using assms(3)
    by (cases "timer_pc (timers s ! i)"; auto simp: time_defs answered_def split: kernel_answer.splits if_splits)+
  then have "mset (map (\<lambda>t. (arg_addr t, arg_time t)) (filter answered (timers t))) =
      mset (map (\<lambda>t. (arg_addr t, arg_time t)) (filter answered (timers s)))"
    using mset_filter_keep [OF assms(2), of answered _ "\<lambda>t. (arg_addr t, arg_time t)"] by auto
  then show ?thesis using assms(1) same unfolding answers_ok_def by simp
qed

lemma answers_server:
  assumes "answers_ok s" "time_doServer a s = Some t"
  shows "answers_ok t"
  using assms
  by (cases "server_pc s")
    (auto simp: time_defs answers_ok_def answered_def split: if_splits kernel_answer.splits)

definition time_init :: "time_server \<Rightarrow> bool" where
  "time_init s \<longleftrightarrow> (\<exists>work junk. s = time_start work junk)"

interpretation time_service: inv_system time_init time_step time_inv
proof
  show "time_inv s" if "time_init s" for s
    using that by (auto simp: time_init_def time_start_def time_inv_def permits_ok_def answers_ok_def
        time_serving_def granted_def FS_NUM_def)
  show "time_inv t" if "time_inv s" "time_step s t" for s t
    using that(2,1)
    by cases (auto simp: time_inv_def intro: permits_timer permits_server answers_timer answers_server,
      auto simp: permits_ok_def answers_ok_def time_serving_def)
qed

text \<open>
  Property C11. At any time at most ten threads of the time server hold a permit, and no
  permit is lost: a request is refused exactly when ten threads are still to give theirs
  back, whatever the order in which they end. Every answer that is not a refusal carries the
  number of a thread whose sleep is over, to the peer that asked, once per thread.
\<close>

theorem time_server_permits:
  assumes "time_step\<^sup>*\<^sup>* (time_start work junk) s"
  shows "threads_in active (timers s) \<le> 10 \<and>
    (server_pc s = R_trywait \<longrightarrow> (time_doServer a s = Some (s\<lparr>server_pc := R_deny\<rparr>) \<longleftrightarrow>
       threads_in active (timers s) = 10)) \<and>
    mset (filter (\<lambda>(a, b). b \<noteq> deny_image) (answers s))
      \<subseteq># mset (map (\<lambda>t. (arg_addr t, arg_time t)) (filter answered (timers s)))"
proof -
  have inv: "time_inv s"
    using time_service.inv_reachable [OF _ assms] by (auto simp: time_init_def)
  have "threads_in active (timers s) \<le> 10"
    using inv by (auto simp: time_inv_def permits_ok_def FS_NUM_def)
  moreover have "time_doServer a s = Some (s\<lparr>server_pc := R_deny\<rparr>) \<longleftrightarrow> semaphore s \<le> 0" if "server_pc s = R_trywait"
    using that by (auto simp: time_doServer_def dest: arg_cong [where f = server_pc])
  moreover have "semaphore s \<le> 0 \<longleftrightarrow> threads_in active (timers s) = 10" if "server_pc s = R_trywait"
    using inv that by (auto simp: time_inv_def permits_ok_def FS_NUM_def time_serving_def granted_def)
  ultimately show ?thesis using inv by (simp add: time_inv_def answers_ok_def)
qed

text \<open>A run in which ten requests are accepted and the eleventh is refused.\<close>

definition time_act :: "kernel_answer + nat \<Rightarrow> time_server \<Rightarrow> time_server option" where
  "time_act a s = (case a of Inl r \<Rightarrow> time_doServer r s
     | Inr i \<Rightarrow> if time_serving s \<and> i < length (timers s) then communicateDgram (Done 0) i s else None)"

lemma time_run: "run_schedule time_act as s = Some t \<Longrightarrow> time_step\<^sup>*\<^sup>* s t"
  by (erule run_schedule_steps)
    (auto simp: time_act_def split: sum.splits if_splits intro: time_step.intros)

theorem time_server_permits_witness:
  "\<exists>s :: time_server. server_pc s = R_trywait \<and> time_doServer (Done 2) s = Some (s\<lparr>server_pc := R_deny\<rparr>) \<and>
     threads_in active (timers s) = 10 \<and> answers s = [([4], [0, 3])]"
proof -
  let ?req = "[Inl (Done 0), Inl (Got [0, 3] [4]), Inl (Done 0), Inl (Done 0), Inl (Done 0), Inl (Done 0)]"
  let ?out = "run_schedule time_act (?req @ replicate 5 (Inr 0) @ concat (replicate 10 ?req) @ take 2 ?req) (time_start True [0, 0])"
  have "?out \<noteq> None \<and> server_pc (the ?out) = R_trywait \<and> threads_in active (timers (the ?out)) = 10 \<and>
      answers (the ?out) = [([4], [0, 3])]" by code_simp
  then obtain s where s: "?out = Some s" "server_pc s = R_trywait" "threads_in active (timers s) = 10"
      "answers s = [([4], [0, 3])]" by auto
  have "time_doServer (Done 2) s = Some (s\<lparr>server_pc := R_deny\<rparr>)"
    using time_server_permits [OF time_run [OF s(1)], of "Done 2"] s(2,3) by blast
  then show ?thesis using s(2-4) by (intro exI [of _ s]) simp
qed

section \<open>The client\<close>

definition TIMEOUT :: int where "TIMEOUT = 15"

definition sem_sigalrm_handler :: "nat \<Rightarrow> int \<Rightarrow> int \<times> byte list list" where
  "sem_sigalrm_handler sig last_signal = (int sig, [])"

text \<open>
  The address of a host name; \<open>junk\<close> are the eight bytes of padding the code leaves
  uninitialised, the data of the reply are the four of the address.
\<close>

definition sem_make_address :: "byte list \<Rightarrow> byte list \<Rightarrow> 16 word \<Rightarrow> ('g, byte list) prog" where
  "sem_make_address junk address port =
     bind_m (sys SYS_gethostbyname [] (cstr address) status_ok) (\<lambda>r.
     if r_val r = -1 then bind_m (eprintf (str ''gethostbyname'')) (\<lambda>_. halt_m (Exit 1))
     else ret (bytes16 2 @ bytes16 (htons port) @ r_data r @ junk))"

definition usage_sem_client :: "byte list \<Rightarrow> ('g, unit) prog" where
  "usage_sem_client name = eprintf (str ''USAGE: '' @ name @ str '' domain port time '' @ [10])"

text \<open>The wait for the answer: it returns what the variable \<open>time\<close> then holds.\<close>

definition sem_await :: "int \<Rightarrow> byte list \<Rightarrow> (int, byte list) prog" where
  "sem_await fd = loop_m (\<lambda>time.
     bind_m (sys SYS_recv [fd] [] (in_ok 2)) (\<lambda>r.
     if r_val r < 0 then
       bind_m get_errno (\<lambda>e.
       if e \<noteq> EINTR then err_exit ''recv:''
       else bind_m get_glob (\<lambda>last_signal.
         if last_signal = int SIGALRM then ret (Inr time) else ret (Inl time)))
     else ret (Inr (put_at 0 (stored r) time))))"

definition sem_verdict :: "int \<Rightarrow> byte list \<Rightarrow> byte list" where
  "sem_verdict last_signal time =
     (if last_signal = int SIGALRM then str ''Timeout'' @ [10]
      else if word16 time = htons (word_of_int (-1)) then str ''Service denied'' @ [10]
      else str ''Time has expired'' @ [10])"

definition sem_client_main :: "byte list \<Rightarrow> byte list list \<Rightarrow> (int, int) prog" where
  "sem_client_main junk argv =
     (if length argv \<noteq> 4 then bind_m (usage_sem_client (argv ! 0)) (\<lambda>_. ret 1)
      else
        bind_m (sethandler SIG_IGN SIGPIPE) (\<lambda>a. if a \<noteq> 0 then err_exit ''Seting SIGPIPE:'' else
        bind_m (sethandler (Handler sem_sigalrm_handler) SIGALRM) (\<lambda>b.
        if b \<noteq> 0 then err_exit ''Seting SIGALRM:'' else
        bind_m (make_socket PF_INET SOCK_DGRAM) (\<lambda>fd.
        bind_m (sem_make_address junk (argv ! 1) (word_of_int (atoi (argv ! 2)))) (\<lambda>addr.
        let time = bytes16 (htons (word_of_int (atoi (argv ! 3)))) in
        bind_m (retry (sys SYS_sendto (fd # map uint addr) time (out_ok 2))) (\<lambda>s.
        if r_val s < 0 then err_exit ''sendto:''
        else
          bind_m (sys SYS_alarm [TIMEOUT] [] any_ok) (\<lambda>_.
          bind_m (sem_await fd time) (\<lambda>time.
          bind_m get_glob (\<lambda>last_signal.
          bind_m (printf (sem_verdict last_signal time)) (\<lambda>_.
          bind_m (retry (sys_close fd)) (\<lambda>c.
          if r_val c < 0 then err_exit ''close'' else ret 0)))))))))))"

text \<open>
  A request for 65535 seconds (or any number with the same low sixteen bits, such as -1) is
  its own refusal: the echo of the server after the sleep reads as a denial.
\<close>

lemma sem_verdict_echo:
  "sem_verdict 0 (bytes16 (htons (word_of_int n))) =
     (if n mod 65536 = 65535 then str ''Service denied'' @ [10] else str ''Time has expired'' @ [10])"
proof -
  have "htons (word_of_int n) = htons (word_of_int (-1) :: 16 word) \<longleftrightarrow> (word_of_int n :: 16 word) = word_of_int (-1)"
    by (metis ntohs_htons)
  also have "\<dots> \<longleftrightarrow> n mod 65536 = 65535"
    by (simp only: word_of_int_eq_iff) (simp add: take_bit_eq_mod)
  finally show ?thesis by (simp add: sem_verdict_def)
qed

section \<open>The server's main\<close>

definition usage_sem_server :: "byte list \<Rightarrow> ('g, unit) prog" where
  "usage_sem_server name = eprintf (str ''USAGE: '' @ name @ str ''  port'' @ [10])"

text \<open>The variant that binds but never listens.\<close>

definition bind_inet_socket_dgram :: "16 word \<Rightarrow> int \<Rightarrow> ('g, int) prog" where
  "bind_inet_socket_dgram port type =
     bind_m (make_socket PF_INET type) (\<lambda>socketfd.
     bind_m (sys SYS_setsockopt [socketfd, SOL_SOCKET, SO_REUSEADDR, 1] [] status_ok) (\<lambda>o'.
     if r_val o' \<noteq> 0 then err_exit ''setsockopt''
     else bind_m (sys SYS_bind [socketfd] (sockaddr_in port) status_ok) (\<lambda>b.
     if r_val b < 0 then err_exit ''bind'' else ret socketfd)))"

definition sem_sigint_handler :: "nat \<Rightarrow> bool \<Rightarrow> bool \<times> byte list list" where
  "sem_sigint_handler sig work = (False, [])"

text \<open>Up to the service loop; the result is the socket and the initial state of the service.\<close>

definition sem_server_setup :: "byte list \<Rightarrow> byte list list \<Rightarrow> (bool, int \<times> time_server) prog" where
  "sem_server_setup junk argv =
     (if length argv \<noteq> 2 then bind_m (usage_sem_server (argv ! 0)) (\<lambda>_. halt_m (Exit 1))
      else
        bind_m (sethandler SIG_IGN SIGPIPE) (\<lambda>a. if a \<noteq> 0 then err_exit ''Seting SIGPIPE:'' else
        bind_m (sethandler (Handler sem_sigint_handler) SIGINT) (\<lambda>b.
        if b \<noteq> 0 then err_exit ''Seting SIGINT:'' else
        bind_m (bind_inet_socket_dgram (word_of_int (atoi (argv ! 1))) SOCK_DGRAM) (\<lambda>fd.
        bind_m (sys SYS_sem_init [FS_NUM] [] status_ok) (\<lambda>r.
        if r_val r \<noteq> 0 then err_exit ''sem_init''
        else bind_m get_glob (\<lambda>work. ret (fd, time_start work junk)))))))"

end
