(* ===== verification/ThreadPool.thy ===== *)
theory ThreadPool
  imports Sockets Threads
begin

text \<open>
  \<open>L2_4/POSIX_cond_server.c\<close>: a dispatcher accepts connections and hands each to one of
  three threads through the shared variables \<open>cfd\<close> and \<open>condition\<close>; a connection that
  finds no idle thread is closed. \<open>POSIX_cond_client.c\<close> asks such a server for the
  beginning of a file.
\<close>

section \<open>The pool\<close>

definition THREAD_NUM :: nat where "THREAD_NUM = 3"

text \<open>
  The program points of \<open>threadfunc\<close>: \<open>Q_wait\<close> is inside \<open>pthread_cond_wait\<close>, which has
  released the mutex, \<open>Q_relock\<close> is on the way out of it; \<open>Q_cleanup\<close> runs the cleanup
  handler of a thread that exits.
\<close>

datatype pool_pc =
    Q_absent | Q_lock | Q_idle | Q_test | Q_enter | Q_wait | Q_relock | Q_reset | Q_work | Q_busy
  | Q_take | Q_unlock int | Q_serve int | Q_cleanup | Q_exited

datatype dispatcher_pc =
    W_create nat | W_test | W_select | W_accept | W_lock int | W_idle int | W_close int
  | W_unlock_closed | W_assign int | W_unlock | W_condition | W_signal | W_broadcast | W_join nat
  | W_close_socket | W_exit int

record pool =
  idlethreads :: int
  cfd :: int
  condition :: int
  work :: bool
  pool_mutex :: mutex
  pool_threads :: "pool_pc list"
  dispatcher :: dispatcher_pc
  accepted :: "int list"
  refused :: "int list"
  served :: "int list"

definition pool_goto :: "nat \<Rightarrow> pool_pc \<Rightarrow> pool \<Rightarrow> pool" where
  "pool_goto i p s = s\<lparr>pool_threads := (pool_threads s)[i := p]\<rparr>"

text \<open>
  \<open>threadfunc\<close>; \<open>ok\<close> is whether \<open>communicate\<close> returns (it exits the process on errors).
  A thread in \<open>pthread_cond_wait\<close> may also wake up without a signal.
\<close>

definition threadfunc :: "bool \<Rightarrow> nat \<Rightarrow> pool \<Rightarrow> pool option" where
  "threadfunc ok i s =
     (case pool_threads s ! i of
        Q_absent \<Rightarrow> None
      | Q_lock \<Rightarrow> map_option (\<lambda>m. pool_goto i Q_idle (s\<lparr>pool_mutex := m\<rparr>)) (mx_lock i (pool_mutex s))
      | Q_idle \<Rightarrow> Some (pool_goto i Q_test (s\<lparr>idlethreads := idlethreads s + 1\<rparr>))
      | Q_test \<Rightarrow> Some (pool_goto i (if condition s = 0 \<and> work s then Q_enter else Q_reset) s)
      | Q_enter \<Rightarrow> map_option (\<lambda>m. pool_goto i Q_wait (s\<lparr>pool_mutex := m\<rparr>)) (mx_unlock i (pool_mutex s))
      | Q_wait \<Rightarrow> Some (pool_goto i Q_relock s)
      | Q_relock \<Rightarrow> map_option (\<lambda>m. pool_goto i Q_test (s\<lparr>pool_mutex := m\<rparr>)) (mx_lock i (pool_mutex s))
      | Q_reset \<Rightarrow> Some (pool_goto i Q_work (s\<lparr>condition := 0\<rparr>))
      | Q_work \<Rightarrow> Some (pool_goto i (if work s then Q_busy else Q_cleanup) s)
      | Q_busy \<Rightarrow> Some (pool_goto i Q_take (s\<lparr>idlethreads := idlethreads s - 1\<rparr>))
      | Q_take \<Rightarrow> Some (pool_goto i (Q_unlock (cfd s)) s)
      | Q_unlock fd \<Rightarrow> map_option (\<lambda>m. pool_goto i (Q_serve fd) (s\<lparr>pool_mutex := m\<rparr>)) (mx_unlock i (pool_mutex s))
      | Q_serve fd \<Rightarrow> Some (
          if ok then pool_goto i Q_lock (s\<lparr>served := served s @ [fd]\<rparr>) else s\<lparr>dispatcher := W_exit 1\<rparr>)
      | Q_cleanup \<Rightarrow> map_option (\<lambda>m. pool_goto i Q_exited (s\<lparr>pool_mutex := m\<rparr>)) (mx_unlock i (pool_mutex s))
      | Q_exited \<Rightarrow> None)"

text \<open>Waking all the threads in \<open>pthread_cond_wait\<close>, or one of them.\<close>

definition wake_all :: "pool_pc list \<Rightarrow> pool_pc list" where
  "wake_all ts = map (\<lambda>p. if p = Q_wait then Q_relock else p) ts"

definition wake_one :: "nat \<Rightarrow> pool_pc list \<Rightarrow> pool_pc list" where
  "wake_one i ts = (if i < length ts \<and> ts ! i = Q_wait then ts[i := Q_relock] else ts)"

text \<open>
  \<open>dowork\<close>; \<open>fd\<close> is what a call returns (-1 for a failure with \<open>err\<close>), \<open>intr\<close> is
  whether SIGINT is delivered while \<open>pselect\<close> waits (it is blocked elsewhere), \<open>k\<close> is
  the waiting thread a signal wakes, if one waits. The dispatcher's number is three.
\<close>

definition dowork :: "int \<Rightarrow> errno \<Rightarrow> bool \<Rightarrow> nat \<Rightarrow> pool \<Rightarrow> pool option" where
  "dowork fd err intr k s =
     (case dispatcher s of
        W_test \<Rightarrow> Some (s\<lparr>dispatcher := if work s then W_select else W_broadcast\<rparr>)
      | W_select \<Rightarrow> Some (
          if intr then s\<lparr>work := False, dispatcher := W_test\<rparr>
          else if fd > 0 then s\<lparr>dispatcher := W_accept\<rparr>
          else if err = EINTR then s\<lparr>dispatcher := W_test\<rparr> else s\<lparr>dispatcher := W_exit 1\<rparr>)
      | W_accept \<Rightarrow> Some (
          if fd < 0 then
            if err = EINTR then s
            else if err = EAGAIN then s\<lparr>dispatcher := W_test\<rparr> else s\<lparr>dispatcher := W_exit 1\<rparr>
          else s\<lparr>accepted := accepted s @ [fd], dispatcher := W_lock fd\<rparr>)
      | W_lock c \<Rightarrow> map_option (\<lambda>m. s\<lparr>pool_mutex := m, dispatcher := W_idle c\<rparr>) (mx_lock THREAD_NUM (pool_mutex s))
      | W_idle c \<Rightarrow> Some (s\<lparr>dispatcher := if idlethreads s = 0 then W_close c else W_assign c\<rparr>)
      | W_close c \<Rightarrow> Some (
          if fd = -1 then (if err = EINTR then s else s\<lparr>dispatcher := W_exit 1\<rparr>)
          else s\<lparr>refused := refused s @ [c], dispatcher := W_unlock_closed\<rparr>)
      | W_unlock_closed \<Rightarrow> map_option (\<lambda>m. s\<lparr>pool_mutex := m, dispatcher := W_test\<rparr>) (mx_unlock THREAD_NUM (pool_mutex s))
      | W_assign c \<Rightarrow> Some (s\<lparr>cfd := c, dispatcher := W_unlock\<rparr>)
      | W_unlock \<Rightarrow> map_option (\<lambda>m. s\<lparr>pool_mutex := m, dispatcher := W_condition\<rparr>) (mx_unlock THREAD_NUM (pool_mutex s))
      | W_condition \<Rightarrow> Some (s\<lparr>condition := 1, dispatcher := W_signal\<rparr>)
      | W_signal \<Rightarrow>
          (if Q_wait \<in> set (pool_threads s) \<and> \<not> (k < length (pool_threads s) \<and> pool_threads s ! k = Q_wait) then None
           else Some (s\<lparr>pool_threads := wake_one k (pool_threads s), dispatcher := W_test\<rparr>))
      | _ \<Rightarrow> None)"

text \<open>\<open>init\<close> and the end of \<open>main\<close>; \<open>ok\<close> is whether the call of the step succeeds.\<close>

definition pool_init :: "bool \<Rightarrow> pool \<Rightarrow> pool option" where
  "pool_init ok s =
     (case dispatcher s of
        W_create i \<Rightarrow> Some (
          if i < THREAD_NUM then
            (if ok then (pool_goto i Q_lock s)\<lparr>dispatcher := W_create (i + 1)\<rparr> else s\<lparr>dispatcher := W_exit 1\<rparr>)
          else s\<lparr>dispatcher := W_test\<rparr>)
      | _ \<Rightarrow> None)"

definition pool_finish :: "bool \<Rightarrow> pool \<Rightarrow> pool option" where
  "pool_finish ok s =
     (case dispatcher s of
        W_broadcast \<Rightarrow> Some (if ok then s\<lparr>pool_threads := wake_all (pool_threads s), dispatcher := W_join 0\<rparr>
          else s\<lparr>dispatcher := W_exit 1\<rparr>)
      | W_join i \<Rightarrow>
          (if i < THREAD_NUM then
             if \<not> ok then Some (s\<lparr>dispatcher := W_exit 1\<rparr>)
             else if pool_threads s ! i = Q_exited then Some (s\<lparr>dispatcher := W_join (i + 1)\<rparr>) else None
           else Some (s\<lparr>dispatcher := W_close_socket\<rparr>))
      | W_close_socket \<Rightarrow> Some (s\<lparr>dispatcher := if ok then W_exit 0 else W_exit 1\<rparr>)
      | _ \<Rightarrow> None)"

definition pool_open :: "pool \<Rightarrow> bool" where
  "pool_open s \<longleftrightarrow> (case dispatcher s of W_exit c \<Rightarrow> False | _ \<Rightarrow> True)"

inductive pool_step :: "pool \<Rightarrow> pool \<Rightarrow> bool" where
  Init: "pool_init ok s = Some t \<Longrightarrow> pool_step s t"
| Dispatch: "dowork fd err intr k s = Some t \<Longrightarrow> pool_step s t"
| Finish: "pool_finish ok s = Some t \<Longrightarrow> pool_step s t"
| Thread: "pool_open s \<Longrightarrow> i < THREAD_NUM \<Longrightarrow> threadfunc ok i s = Some t \<Longrightarrow> pool_step s t"

definition pool_start :: "bool \<Rightarrow> int \<Rightarrow> pool" where
  "pool_start running junk = \<lparr>idlethreads = 0, cfd = junk, condition = 0, work = running, pool_mutex = None,
     pool_threads = replicate THREAD_NUM Q_absent, dispatcher = W_create 0,
     accepted = [], refused = [], served = []\<rparr>"

section \<open>The count of idle threads\<close>

fun q_locked :: "pool_pc \<Rightarrow> bool" where
  "q_locked Q_idle = True" | "q_locked Q_test = True" | "q_locked Q_enter = True"
| "q_locked Q_reset = True" | "q_locked Q_work = True" | "q_locked Q_busy = True"
| "q_locked Q_take = True" | "q_locked (Q_unlock fd) = True" | "q_locked Q_cleanup = True"
| "q_locked _ = False"

fun w_locked :: "dispatcher_pc \<Rightarrow> bool" where
  "w_locked (W_idle c) = True" | "w_locked (W_close c) = True" | "w_locked W_unlock_closed = True"
| "w_locked (W_assign c) = True" | "w_locked W_unlock = True" | "w_locked _ = False"

text \<open>Between adding itself to the idle threads and taking itself off; a thread that exits stays counted.\<close>

fun counted_idle :: "pool_pc \<Rightarrow> bool" where
  "counted_idle Q_test = True" | "counted_idle Q_enter = True" | "counted_idle Q_wait = True"
| "counted_idle Q_relock = True" | "counted_idle Q_reset = True" | "counted_idle Q_work = True"
| "counted_idle Q_busy = True" | "counted_idle Q_cleanup = True" | "counted_idle Q_exited = True"
| "counted_idle _ = False"

fun holds_client :: "pool_pc \<Rightarrow> bool" where
  "holds_client Q_take = True" | "holds_client (Q_unlock fd) = True" | "holds_client (Q_serve fd) = True"
| "holds_client _ = False"

definition pool_inv :: "pool \<Rightarrow> bool" where
  "pool_inv s \<longleftrightarrow> length (pool_threads s) = THREAD_NUM \<and>
     idlethreads s = threads_in counted_idle (pool_threads s) \<and>
     (pool_open s \<longrightarrow> protects (pool_mutex s) q_locked (pool_threads s) \<and>
        (pool_mutex s = Some THREAD_NUM \<longleftrightarrow> w_locked (dispatcher s)) \<and>
        (\<forall>c. dispatcher s = W_close c \<longrightarrow> idlethreads s = 0) \<and>
        (\<forall>i. dispatcher s = W_create i \<longrightarrow> (\<forall>j < THREAD_NUM. i \<le> j \<longrightarrow> pool_threads s ! j = Q_absent)))"

lemma threads_in_map: "(\<And>t. P (f t) = P t) \<Longrightarrow> threads_in P (map f ts) = threads_in P ts"
  by (simp add: threads_in_alt comp_def)

lemma wakes:
  "threads_in counted_idle (wake_all ts) = threads_in counted_idle ts"
  "threads_in counted_idle (wake_one k ts) = threads_in counted_idle ts"
  "protects m q_locked (wake_all ts) = protects m q_locked ts"
  "protects m q_locked ts \<Longrightarrow> protects m q_locked (wake_one k ts)"
  "length (wake_all ts) = length ts" "length (wake_one k ts) = length ts"
proof -
  have "counted_idle (if p = Q_wait then Q_relock else p) = counted_idle p"
    "q_locked (if p = Q_wait then Q_relock else p) = q_locked p" for p
    by (cases p; simp)+
  then show "threads_in counted_idle (wake_all ts) = threads_in counted_idle ts"
    "protects m q_locked (wake_all ts) = protects m q_locked ts"
    by (simp_all add: wake_all_def threads_in_map protects_def)
qed (auto simp: wake_all_def wake_one_def threads_in_update protects_keep)

lemma pool_inv_thread:
  assumes inv: "pool_inv s" and "pool_open s" "i < THREAD_NUM" and t: "threadfunc ok i s = Some t"
  shows "pool_inv t"
proof -
  have s: "protects (pool_mutex s) q_locked (pool_threads s)" "i < length (pool_threads s)"
    "pool_mutex s = Some THREAD_NUM \<longleftrightarrow> w_locked (dispatcher s)"
    using assms by (simp_all add: pool_inv_def)
  then have mine: "q_locked (pool_threads s ! i) \<Longrightarrow> \<not> w_locked (dispatcher s)"
    using protectsD [OF s(1,2)] assms(3) by auto
  show ?thesis
    using inv t s mine
    by (cases "pool_threads s ! i")
      (auto simp: threadfunc_def pool_goto_def pool_inv_def pool_open_def threads_in_update protects_rules
        nth_list_update split: if_splits)
qed

lemma pool_inv_dispatcher:
  assumes inv: "pool_inv s"
    and t: "pool_init ok s = Some t \<or> dowork fd err intr k s = Some t \<or> pool_finish ok s = Some t"
  shows "pool_inv t"
  using t
proof (elim disjE)
  assume "pool_init ok s = Some t"
  then show ?thesis using inv
    by (cases "dispatcher s")
      (auto simp: pool_init_def pool_goto_def pool_inv_def pool_open_def threads_in_update protects_rules
        nth_list_update split: if_splits)
next
  assume d: "dowork fd err intr k s = Some t"
  have out: "protects None q_locked (pool_threads s) \<longleftrightarrow> protects (Some THREAD_NUM) q_locked (pool_threads s)"
    using inv by (simp add: pool_inv_def protects_def)
  then show ?thesis using inv d
    by (cases "dispatcher s")
      (auto simp: dowork_def pool_inv_def pool_open_def wakes split: if_splits)
next
  assume "pool_finish ok s = Some t"
  then show ?thesis using inv
    by (cases "dispatcher s") (auto simp: pool_finish_def pool_inv_def pool_open_def wakes split: if_splits)
qed

definition pool_initial :: "pool \<Rightarrow> bool" where
  "pool_initial s \<longleftrightarrow> (\<exists>running junk. s = pool_start running junk)"

interpretation thread_pool: inv_system pool_initial pool_step pool_inv
proof
  show "pool_inv s" if "pool_initial s" for s
    using that by (auto simp: pool_initial_def pool_start_def pool_inv_def pool_open_def protects_def threads_in_def)
  show "pool_inv t" if "pool_inv s" "pool_step s t" for s t
    using that(2,1) by cases (blast intro: pool_inv_thread pool_inv_dispatcher)+
qed

text \<open>
  Property C9. In every reachable state of the pool the counter of idle threads is exactly
  the number of threads between adding and removing themselves, at most one thread is in a
  critical section and none while the dispatcher is, and the dispatcher closes a connection
  only when no thread is idle.
\<close>

theorem pool_idle_exact:
  assumes "pool_step\<^sup>*\<^sup>* (pool_start running junk) s" "pool_open s"
  shows "idlethreads s = threads_in counted_idle (pool_threads s) \<and>
    threads_in q_locked (pool_threads s) + (if w_locked (dispatcher s) then 1 else 0) \<le> 1 \<and>
    (\<forall>c. dispatcher s = W_close c \<longrightarrow> threads_in counted_idle (pool_threads s) = 0)"
proof -
  have inv: "pool_inv s"
    using thread_pool.inv_reachable [OF _ assms(1)] by (auto simp: pool_initial_def)
  then have p: "protects (pool_mutex s) q_locked (pool_threads s)"
    "pool_mutex s = Some THREAD_NUM \<longleftrightarrow> w_locked (dispatcher s)" "length (pool_threads s) = THREAD_NUM"
    using assms(2) by (simp_all add: pool_inv_def)
  have "threads_in q_locked (pool_threads s) \<le> (if w_locked (dispatcher s) then 0 else 1)"
    using protects_at_most_one [OF p(1)] p by auto
  then show ?thesis using inv assms(2) by (auto simp: pool_inv_def split: if_splits)
qed

text \<open>The runs of the process along a schedule.\<close>

definition pool_act :: "(int \<times> errno \<times> bool \<times> nat) + nat \<Rightarrow> pool \<Rightarrow> pool option" where
  "pool_act a s = (case a of
       Inl (fd, err, intr, k) \<Rightarrow>
         (case pool_init True s of Some t \<Rightarrow> Some t
          | None \<Rightarrow> (case dowork fd err intr k s of Some t \<Rightarrow> Some t | None \<Rightarrow> pool_finish True s))
     | Inr i \<Rightarrow> if pool_open s \<and> i < THREAD_NUM then threadfunc True i s else None)"

lemma pool_act_step: "pool_act a s = Some t \<Longrightarrow> pool_step s t"
  by (auto simp: pool_act_def split: sum.splits option.splits if_splits intro: pool_step.intros)

lemma pool_run: "run_schedule pool_act as s = Some t \<Longrightarrow> pool_step\<^sup>*\<^sup>* s t"
  by (erule run_schedule_steps) (rule pool_act_step)

theorem pool_idle_exact_witness:
  "\<exists>s :: pool. dispatcher s = W_close 7 \<and> threads_in counted_idle (pool_threads s) = 0"
proof -
  let ?run = "run_schedule pool_act (replicate 4 (Inl (0, ENONE, False, 0)) @ replicate 5 (Inl (7, ENONE, False, 0))) (pool_start True 0)"
  have "?run \<noteq> None \<and> dispatcher (the ?run) = W_close 7" by code_simp
  then obtain s where s: "?run = Some s" "dispatcher s = W_close 7" by auto
  then show ?thesis
    using pool_idle_exact [OF pool_run [OF s(1)]] by (intro exI [of _ s]) (auto simp: pool_open_def)
qed

section \<open>What goes wrong\<close>

text \<open>
  A client is lost: it was accepted, not refused, was not and is not served, and neither the
  dispatcher nor \<open>cfd\<close> has its descriptor any more.
\<close>

definition lost_client :: "int \<Rightarrow> pool \<Rightarrow> bool" where
  "lost_client c s \<longleftrightarrow> c \<in> set (accepted s) \<and> c \<notin> set (refused s) \<and> c \<notin> set (served s) \<and> cfd s \<noteq> c \<and>
     dispatcher s \<notin> {W_lock c, W_idle c, W_close c, W_assign c} \<and>
     Q_unlock c \<notin> set (pool_threads s) \<and> Q_serve c \<notin> set (pool_threads s)"

text \<open>The process hangs: SIGINT was taken, the threads were woken, but one waits again.\<close>

definition shutdown_hangs :: "pool \<Rightarrow> bool" where
  "shutdown_hangs s \<longleftrightarrow> dispatcher s = W_join 0 \<and> \<not> work s \<and> pool_threads s = [Q_wait, Q_exited, Q_exited]"

definition pool_quiet :: "int \<times> errno \<times> bool \<times> nat" where
  "pool_quiet = (7, ENONE, False, 0)"

text \<open>
  The hand-over of connections is not safe. The condition is raised after the
  mutex has been released, and the thread takes itself off the idle ones only when it runs:
  a second connection can overwrite the first before any thread takes it, and then the first
  is lost; a thread can take a connection while the condition of the one before is still up,
  and then another thread serves the same descriptor; and the broadcast at the end, without
  the mutex, can fall between a thread's test and its wait.
\<close>

theorem pool_races:
  "(\<exists>s. pool_step\<^sup>*\<^sup>* (pool_start True junk) s \<and> lost_client 7 s) \<and>
   (\<exists>s. pool_step\<^sup>*\<^sup>* (pool_start True junk) s \<and> {Q_serve 8} = set (take 2 (pool_threads s))) \<and>
   (\<exists>s. pool_step\<^sup>*\<^sup>* (pool_start True junk) s \<and> shutdown_hangs s)"
proof -
  let ?d = "Inl pool_quiet" and ?e = "Inl (8, ENONE, False, 1)" and ?i = "Inl (7, ENONE, True, 0)"
  let ?wait = "\<lambda>i. replicate 4 (Inr i)" and ?take = "replicate 7 (Inr 0)"
  let ?run = "\<lambda>as. run_schedule pool_act as (pool_start True junk)"
  let ?lose = "replicate 4 ?d @ ?wait 0 @ replicate 9 ?d @ replicate 7 ?e @ ?take"
  let ?twice = "replicate 4 ?d @ ?wait 0 @ ?wait 1 @ replicate 9 ?d @ replicate 7 ?e @ ?take @
      replicate 2 ?e @ replicate 7 (Inr 1)"
  let ?hang = "replicate 4 ?d @ ?wait 1 @ ?wait 2 @ replicate 3 (Inr 0) @ replicate 4 ?i @ [Inr 0] @
      replicate 5 (Inr 1) @ replicate 5 (Inr 2)"
  have lose: "?run ?lose \<noteq> None \<and> lost_client 7 (the (?run ?lose))" by code_simp
  have twice: "?run ?twice \<noteq> None \<and> {Q_serve 8} = set (take 2 (pool_threads (the (?run ?twice))))" by code_simp
  have hang: "?run ?hang \<noteq> None \<and> shutdown_hangs (the (?run ?hang))" by code_simp
  have reach: "\<exists>s. pool_step\<^sup>*\<^sup>* (pool_start True junk) s \<and> P s" if "?run as \<noteq> None \<and> P (the (?run as))" for P as
    using that pool_run by fastforce
  from lose have 1: "\<exists>s. pool_step\<^sup>*\<^sup>* (pool_start True junk) s \<and> lost_client 7 s" by (rule reach)
  from twice have 2: "\<exists>s. pool_step\<^sup>*\<^sup>* (pool_start True junk) s \<and> {Q_serve 8} = set (take 2 (pool_threads s))"
    by (rule reach)
  from hang have "\<exists>s. pool_step\<^sup>*\<^sup>* (pool_start True junk) s \<and> shutdown_hangs s" by (rule reach)
  with 1 2 show ?thesis by blast
qed

section \<open>The conversation\<close>

definition POOL_CHUNKSIZE :: nat where "POOL_CHUNKSIZE = 500"
definition NMMAX :: nat where "NMMAX = 30"
definition ERRSTRING :: "byte list" where "ERRSTRING = str ''No such file or directory'' @ [10]"

text \<open>
  \<open>communicate\<close> of the server. \<open>junkpath\<close> and \<open>junkbuf\<close> are the uninitialised
  contents of its arrays; a path without a NUL makes \<open>open\<close> read past the array.
\<close>

definition pool_buffer :: "byte list \<Rightarrow> byte list \<Rightarrow> ('g, byte list) prog" where
  "pool_buffer junkbuf filepath =
     bind_m (retry (sys SYS_open [0] (cstr filepath) fd_ok)) (\<lambda>f.
     if r_val f = -1 then ret (put_at 0 (ERRSTRING @ [0]) junkbuf)
     else bind_m (bulk_read (r_val f) POOL_CHUNKSIZE) (\<lambda>(size, bs).
       if size = -1 then err_exit ''read''
       else ret (bs @ replicate (POOL_CHUNKSIZE - length bs) 0)))"

definition pool_communicate :: "byte list \<Rightarrow> byte list \<Rightarrow> int \<Rightarrow> ('g, unit) prog" where
  "pool_communicate junkpath junkbuf clientfd =
     bind_m (retry (sys SYS_recv [clientfd] [] (in_ok (NMMAX + 1)))) (\<lambda>r.
     if r_val r = -1 then err_exit ''read''
     else
       let filepath = put_at 0 (r_data r) junkpath in
       bind_m (if r_val r = int (NMMAX + 1) then
           if 0 \<notin> set filepath then halt_m Undef
           else bind_m (pool_buffer junkbuf filepath) (\<lambda>buffer.
             bind_m (retry (sys SYS_send [clientfd] buffer (out_ok POOL_CHUNKSIZE))) (\<lambda>s.
             if r_val s = -1 then err_exit ''write'' else ret ()))
         else ret ()) (\<lambda>_.
       bind_m (retry (sys_close clientfd)) (\<lambda>c.
       if r_val c < 0 then err_exit ''close'' else ret ())))"

text \<open>
  \<open>communicate\<close> of the client: the line typed, without its newline, in an array of zeros.
  At end of file, or when the line starts with a NUL, the code reads \<open>file[-1]\<close>.
\<close>

definition pool_request :: "byte list \<Rightarrow> byte list option" where
  "pool_request line =
     (let file = put_at 0 (line @ [0]) (replicate (NMMAX + 1) 0); n = strlen file in
      if n = 0 then None
      else Some (if file ! (n - 1) = 10 then file[n - 1 := 0] else file))"

definition pool_client_communicate :: "int \<Rightarrow> ('g, unit) prog" where
  "pool_client_communicate fd =
     bind_m (sys SYS_fgets [] [] (in_ok NMMAX)) (\<lambda>g.
     case pool_request (stored g) of
       None \<Rightarrow> halt_m Undef
     | Some file \<Rightarrow>
         bind_m (bulk_write fd file) (\<lambda>n.
         if n < 0 then err_exit ''write''
         else bind_m (bulk_read fd POOL_CHUNKSIZE) (\<lambda>(m, buf).
         if m < 0 then err_exit ''read''
         else bind_m (retry (sys_close fd)) (\<lambda>c.
         if r_val c < 0 then err_exit ''close''
         else printf (cstr (buf @ [0]))))))"

definition usage_pool_client :: "byte list \<Rightarrow> ('g, 'a) prog" where
  "usage_pool_client name = bind_m (eprintf (str ''USAGE: '' @ name @ str '' domain port'' @ [10])) (\<lambda>_. halt_m (Exit 1))"

definition pool_client_main :: "byte list list \<Rightarrow> ('g, int) prog" where
  "pool_client_main argv =
     bind_m (if length argv \<noteq> 3 then usage_pool_client (argv ! 0) else ret ()) (\<lambda>_.
     bind_m (sethandler_err SIG_IGN SIGPIPE) (\<lambda>_.
     bind_m (connect_socket (argv ! 1) (argv ! 2)) (\<lambda>fd.
     bind_m (pool_client_communicate fd) (\<lambda>_. ret 0))))"

text \<open>The name the server opens is the line that was typed, without its newline.\<close>

lemma pool_request_name:
  assumes "0 \<notin> set name" "length name < NMMAX" "file = name @ replicate (NMMAX + 1 - length name) 0"
  shows "pool_request (name @ [10]) = Some file" "cstr file = name" "length file = NMMAX + 1"
proof -
  have pad: "put_at 0 (name @ [10, 0]) (replicate (NMMAX + 1) 0) = name @ 10 # 0 # replicate (NMMAX - 1 - length name) 0"
    using assms(2) by (simp add: put_at_def NMMAX_def)
  moreover have "strlen (name @ 10 # 0 # rest) = Suc (length name)" for rest
    using cstr_append_nul [of "name @ [10]" rest] assms(1) by (simp add: strlen_def)
  moreover have "Suc (Suc (NMMAX - 1 - length name)) = NMMAX + 1 - length name"
    using assms(2) by simp
  then have "0 # 0 # replicate (NMMAX - 1 - length name) 0 = replicate (NMMAX + 1 - length name) (0 :: byte)"
    by (metis replicate_Suc)
  ultimately show "pool_request (name @ [10]) = Some file"
    using assms(3) by (simp add: pool_request_def Let_def list_update_append)
  show "cstr file = name" "length file = NMMAX + 1"
    using assms by (simp_all add: cstr_padding)
qed

section \<open>The server's main up to the creation of the threads\<close>

definition usage_pool :: "byte list \<Rightarrow> ('g, 'a) prog" where
  "usage_pool name = bind_m (eprintf (str ''USAGE: '' @ name @ str '' port workdir'' @ [10])) (\<lambda>_. halt_m (Exit 1))"

definition pool_siginthandler :: "nat \<Rightarrow> bool \<Rightarrow> bool \<times> byte list list" where
  "pool_siginthandler sig running = (False, [])"

definition POOL_BACKLOG :: int where "POOL_BACKLOG = 3"

definition pool_setup :: "int \<Rightarrow> byte list list \<Rightarrow> (bool, int \<times> pool) prog" where
  "pool_setup junk argv =
     bind_m (if length argv \<noteq> 3 then usage_pool (argv ! 0) else ret ()) (\<lambda>_.
     bind_m (sys SYS_chdir [] (cstr (argv ! 2)) status_ok) (\<lambda>d.
     if r_val d = -1 then err_exit ''chdir''
     else
       bind_m (sethandler_err SIG_IGN SIGPIPE) (\<lambda>_.
       bind_m (sethandler_err (Handler pool_siginthandler) SIGINT) (\<lambda>_.
       bind_m (sigprocmask_block [SIGINT]) (\<lambda>oldmask.
       bind_m (bind_tcp_socket (word_of_int (atoi (argv ! 1))) POOL_BACKLOG) (\<lambda>socket.
       bind_m (set_nonblock socket) (\<lambda>n.
       if n = -1 then err_exit ''fcntl''
       else bind_m get_glob (\<lambda>running. ret (socket, pool_start running junk)))))))))"

end
