(* ===== verification/BlockReverse.thy ===== *)
theory BlockReverse
  imports Posix
begin

text \<open>
  \<open>Lab4/archunix5a.c\<close>: random blocks of a file are read, reversed and written to random
  blocks through asynchronous I/O with three buffers in rotation: while one buffer is being
  written and one is being read, the third is reversed. The global is \<open>work\<close>, which the
  SIGINT handler clears.
\<close>

section \<open>Requests in flight\<close>

definition BLOCKS :: nat where "BLOCKS = 3"

definition SHIFT :: "nat \<Rightarrow> nat \<Rightarrow> nat" where
  "SHIFT counter x = (counter + x) mod BLOCKS"

text \<open>
  The buffers, and for each control block whether a request is in flight: a read (\<open>True\<close>),
  or a write or synchronisation. Using a control block, or the buffer it names, while its
  request is in flight is undefined.
\<close>

record aio =
  buffers :: "byte list list"
  inflight :: "bool option list"

definition aio_error_exit :: "string \<Rightarrow> ('g, 'a) prog" where
  "aio_error_exit msg = err_exit msg"

definition aio_siginthandler :: "nat \<Rightarrow> bool \<Rightarrow> bool \<times> byte list list" where
  "aio_siginthandler sig work = (False, [])"

definition aio_sethandler :: "'g handler \<Rightarrow> nat \<Rightarrow> ('g, unit) prog" where
  "aio_sethandler f sig = bind_m (sys_sigaction sig f) (\<lambda>r.
     if r_val r = -1 then aio_error_exit ''Error setting signal handler'' else ret ())"

text \<open>\<open>fstat\<close> stores the size of the file.\<close>

definition getfilelength :: "int \<Rightarrow> ('g, int) prog" where
  "getfilelength fd = bind_m (sys SYS_fstat [fd] [] (\<lambda>r. status_ok r \<and> (r_val r = 0 \<longrightarrow> length (r_vals r) = 1))) (\<lambda>r.
     if r_val r = -1 then aio_error_exit ''Cannot fstat file'' else ret (r_vals r ! 0))"

text \<open>
  What \<open>aio_return\<close> may answer: -1, or for a read inside a regular file the whole block,
  which is then in the buffer; for the other requests no bytes.
\<close>

definition aio_return_ok :: "bool option \<Rightarrow> nat \<Rightarrow> reply \<Rightarrow> bool" where
  "aio_return_ok op n r \<longleftrightarrow> r_val r = -1 \<or> (0 \<le> r_val r \<and> length (r_data r) = (if op = Some True then n else 0))"

text \<open>\<open>suspend\<close>: it returns early, with the request still in flight, when \<open>work\<close> is 0.\<close>

definition suspend_wait :: "nat \<Rightarrow> (bool, bool) prog" where
  "suspend_wait i = loop_m (\<lambda>_. bind_m (sys SYS_aio_suspend [int i] [] status_ok) (\<lambda>r.
     if r_val r = -1 then
       bind_m get_glob (\<lambda>work. if \<not> work then ret (Inr False)
       else bind_m get_errno (\<lambda>e. if e = EINTR then ret (Inl ()) else aio_error_exit ''Suspend error''))
     else ret (Inr True))) ()"

definition aio_complete :: "nat \<Rightarrow> aio \<Rightarrow> (bool, aio) prog" where
  "aio_complete i st =
     bind_m (sys SYS_aio_error [int i] [] any_ok) (\<lambda>e.
     if r_val e \<noteq> 0 then aio_error_exit ''Suspend error''
     else bind_m (sys SYS_aio_return [int i] [] (aio_return_ok (inflight st ! i) (length (buffers st ! i)))) (\<lambda>r.
     if r_val r = -1 then aio_error_exit ''Return error''
     else ret (st\<lparr>buffers := (if inflight st ! i = Some True then (buffers st)[i := r_data r] else buffers st),
                  inflight := (inflight st)[i := None]\<rparr>)))"

definition suspend :: "nat \<Rightarrow> aio \<Rightarrow> (bool, aio) prog" where
  "suspend i st =
     bind_m get_glob (\<lambda>work. if \<not> work then ret st
     else bind_m (suspend_wait i) (\<lambda>over. if \<not> over then ret st else aio_complete i st))"

definition readdata :: "nat \<Rightarrow> int \<Rightarrow> aio \<Rightarrow> (bool, aio) prog" where
  "readdata i offset st =
     bind_m get_glob (\<lambda>work. if \<not> work then ret st
     else if inflight st ! i \<noteq> None then halt_m Undef
     else bind_m (sys SYS_aio_read [int i, offset] [] status_ok) (\<lambda>r.
     if r_val r = -1 then aio_error_exit ''Cannot read'' else ret (st\<lparr>inflight := (inflight st)[i := Some True]\<rparr>)))"

definition writedata :: "nat \<Rightarrow> int \<Rightarrow> aio \<Rightarrow> (bool, aio) prog" where
  "writedata i offset st =
     bind_m get_glob (\<lambda>work. if \<not> work then ret st
     else if inflight st ! i \<noteq> None then halt_m Undef
     else bind_m (sys SYS_aio_write [int i, offset] (buffers st ! i) status_ok) (\<lambda>r.
     if r_val r = -1 then aio_error_exit ''Cannot write'' else ret (st\<lparr>inflight := (inflight st)[i := Some False]\<rparr>)))"

definition syncdata :: "nat \<Rightarrow> aio \<Rightarrow> (bool, aio) prog" where
  "syncdata i st =
     bind_m get_glob (\<lambda>work. if \<not> work then ret st
     else bind_m (suspend i st) (\<lambda>st.
     if inflight st ! i \<noteq> None then halt_m Undef
     else bind_m (sys SYS_aio_fsync [int i] [] status_ok) (\<lambda>r.
     if r_val r = -1 then aio_error_exit ''Cannot sync''
     else suspend i (st\<lparr>inflight := (inflight st)[i := Some False]\<rparr>))))"

section \<open>Indices and reversal\<close>

text \<open>\<open>rand() % max\<close>; a remainder by zero is undefined.\<close>

definition rand_mod :: "int \<Rightarrow> ('g, int) prog" where
  "rand_mod m = bind_m rand_m (\<lambda>v. case c_mod v m of None \<Rightarrow> halt_m Undef | Some x \<Rightarrow> ret x)"

definition getindexes :: "int \<Rightarrow> ('g, int \<times> int) prog" where
  "getindexes m = bind_m (rand_mod m) (\<lambda>a. bind_m (rand_mod (m - 1)) (\<lambda>b.
     ret (a, if b \<ge> a then b + 1 else b)))"

text \<open>The swapping loop from \<open>k\<close> up to \<open>h\<close>, the half of the size.\<close>

function reverse_loop :: "nat \<Rightarrow> nat \<Rightarrow> byte list \<Rightarrow> byte list" where
  "reverse_loop h k buffer =
     (if k < h then
        let tmp = buffer ! k; b1 = buffer[k := buffer ! (length buffer - k - 1)]
        in reverse_loop h (k + 1) (b1[length buffer - k - 1 := tmp])
      else buffer)"
  by pat_completeness auto
termination by (relation "measure (\<lambda>(h, k, b). h - k)") auto

declare reverse_loop.simps [simp del]

definition reversebuffer :: "bool \<Rightarrow> byte list \<Rightarrow> byte list" where
  "reversebuffer work buffer = (if work then reverse_loop (length buffer div 2) 0 buffer else buffer)"

definition reverse_block :: "nat \<Rightarrow> aio \<Rightarrow> (bool, aio) prog" where
  "reverse_block i st = bind_m get_glob (\<lambda>work.
     if work \<and> inflight st ! i \<noteq> None then halt_m Undef
     else ret (st\<lparr>buffers := (buffers st)[i := reversebuffer work (buffers st ! i)]\<rparr>))"

text \<open>Products of \<open>int\<close>s that overflow are undefined.\<close>

definition at_block :: "int \<Rightarrow> int \<Rightarrow> (int \<Rightarrow> ('g, 'a) prog) \<Rightarrow> ('g, 'a) prog" where
  "at_block bsize i f = (case c_int (bsize * i) of None \<Rightarrow> halt_m Undef | Some offset \<Rightarrow> f offset)"

section \<open>The pipeline\<close>

text \<open>The loop of \<open>processblocks\<close>; its state is \<open>(j, curpos)\<close> and the requests.\<close>

definition processblocks_body ::
  "int \<Rightarrow> int \<Rightarrow> nat \<Rightarrow> (nat \<times> nat) \<times> aio \<Rightarrow> (bool, (nat \<times> nat) \<times> aio + nat \<times> aio) prog" where
  "processblocks_body bcount bsize iterations = (\<lambda>((j, curpos), st).
     bind_m get_glob (\<lambda>work. if \<not> (work \<and> j < iterations) then ret (Inr (curpos, st))
     else bind_m (getindexes bcount) (\<lambda>(i0, i1).
       bind_m (if j > 0 then at_block bsize i0 (\<lambda>off. writedata curpos off st) else ret st) (\<lambda>st.
       bind_m (if Suc j < iterations then at_block bsize i1 (\<lambda>off. readdata (SHIFT curpos 2) off st) else ret st) (\<lambda>st.
       bind_m (reverse_block (SHIFT curpos 1) st) (\<lambda>st.
       bind_m (if j > 0 then syncdata curpos st else ret st) (\<lambda>st.
       bind_m (if Suc j < iterations then suspend (SHIFT curpos 2) st else ret st) (\<lambda>st.
       ret (Inl ((Suc j, SHIFT curpos 1), st))))))))))"

definition processblocks :: "int \<Rightarrow> int \<Rightarrow> nat \<Rightarrow> aio \<Rightarrow> (bool, aio) prog" where
  "processblocks bcount bsize k st =
     (let iterations = k - 1; curpos = (if iterations = 0 then 1 else 0) in
      bind_m (rand_mod bcount) (\<lambda>b. at_block bsize b (\<lambda>off.
      bind_m (readdata 1 off st) (\<lambda>st.
      bind_m (suspend 1 st) (\<lambda>st.
      bind_m (loop_m (processblocks_body bcount bsize iterations) ((0, curpos), st)) (\<lambda>(curpos, st).
      bind_m (if iterations = 0 then reverse_block curpos st else ret st) (\<lambda>st.
      bind_m (rand_mod bcount) (\<lambda>b. at_block bsize b (\<lambda>off.
      bind_m (writedata curpos off st) (\<lambda>st.
      suspend curpos st))))))))))"

definition aio_cleanup :: "int \<Rightarrow> (bool, unit) prog" where
  "aio_cleanup fd =
     bind_m get_glob (\<lambda>work.
     bind_m (if \<not> work then bind_m (sys SYS_aio_cancel [fd] [] any_ok) (\<lambda>c.
         if r_val c = -1 then aio_error_exit ''Cannot cancel async. I/O operations'' else ret ())
       else ret ()) (\<lambda>_.
     bind_m (retry (sys SYS_fsync [fd] [] status_ok)) (\<lambda>s.
     if r_val s = -1 then aio_error_exit ''Error running fsync'' else ret ())))"

text \<open>All requests start idle; the buffers are cleared.\<close>

definition fillaiostructs :: "nat \<Rightarrow> aio" where
  "fillaiostructs blocksize =
     \<lparr>buffers = replicate BLOCKS (replicate blocksize 0), inflight = replicate BLOCKS None\<rparr>"

definition usage_archunix :: "byte list \<Rightarrow> ('g, 'a) prog" where
  "usage_archunix name =
     bind_m (eprintf (name @ str '' workfile blocksize'' @ [10])) (\<lambda>_.
     bind_m (eprintf (str ''workfile - path to the file to work on'' @ [10])) (\<lambda>_.
     bind_m (eprintf (str ''n - number of blocks'' @ [10])) (\<lambda>_.
     bind_m (eprintf (str ''k - number of iterations'' @ [10])) (\<lambda>_. halt_m (Exit 1)))))"

definition archunix_blocks :: "int \<Rightarrow> int \<Rightarrow> int \<Rightarrow> (bool, unit) prog" where
  "archunix_blocks fd n k =
     bind_m (getfilelength fd) (\<lambda>len.
     let blocksize = to_int32 ((len - 1) sdiv n) in
     bind_m (eprintf (str ''Blocksize: '' @ fmt_d blocksize @ [10])) (\<lambda>_.
     if blocksize > 0 then
       bind_m (for_m [0..<BLOCKS] (\<lambda>i _. bind_m (sys SYS_malloc [blocksize] [] any_ok) (\<lambda>m.
         if r_val m = 0 then aio_error_exit ''Cannot allocate memory'' else ret ())) ()) (\<lambda>_.
       bind_m (sys SYS_time [] [] any_ok) (\<lambda>t.
       bind_m (sys SYS_srand [r_val t] [] any_ok) (\<lambda>_.
       bind_m (processblocks n blocksize (nat k) (fillaiostructs (nat blocksize))) (\<lambda>_.
       aio_cleanup fd))))
     else ret ()))"

definition archunix_main :: "byte list list \<Rightarrow> (bool, int) prog" where
  "archunix_main argv =
     bind_m (if length argv \<noteq> 4 then usage_archunix (argv ! 0) else ret ()) (\<lambda>_.
     let n = atoi (argv ! 2); k = atoi (argv ! 3) in
     if n < 2 \<or> k < 1 then ret 0
     else
       bind_m (set_glob True) (\<lambda>_.
       bind_m (aio_sethandler (Handler aio_siginthandler) SIGINT) (\<lambda>_.
       bind_m (retry (sys SYS_open [2] (cstr (argv ! 1)) fd_ok)) (\<lambda>f.
       if r_val f = -1 then aio_error_exit ''Cannot open file''
       else
         bind_m (archunix_blocks (r_val f) n k) (\<lambda>_.
         bind_m (retry (sys_close (r_val f))) (\<lambda>c.
         if r_val c = -1 then aio_error_exit ''Cannot close file'' else ret 0))))))"

section \<open>Reversal\<close>

lemma reverse_loop_length [simp]: "length (reverse_loop h k b) = length b"
  by (induction h k b rule: reverse_loop.induct) (subst reverse_loop.simps, simp add: Let_def)



lemma length_reversebuffer [simp]: "length (reversebuffer work b) = length b"
  by (simp add: reversebuffer_def)

section \<open>What is read and what is written\<close>

fun aio_read1 :: "event \<Rightarrow> byte list list" where
  "aio_read1 (Sys n a p r) = (if n = SYS_aio_return \<and> r_data r \<noteq> [] then [r_data r] else [])"
| "aio_read1 _ = []"

fun aio_write1 :: "event \<Rightarrow> byte list list" where
  "aio_write1 (Sys n a p r) = (if n = SYS_aio_write \<and> r_val r \<noteq> -1 then [p] else [])"
| "aio_write1 _ = []"

definition aio_reads :: "event list \<Rightarrow> byte list list" where
  "aio_reads tr = concat (map aio_read1 tr)"

definition aio_writes :: "event list \<Rightarrow> byte list list" where
  "aio_writes tr = concat (map aio_write1 tr)"

text \<open>An undisturbed process: no handler can run, \<open>work\<close> is set.\<close>

definition calm :: "nat \<Rightarrow> byte list list \<Rightarrow> byte list list \<Rightarrow> bool world \<Rightarrow> bool" where
  "calm L rs ws w \<longleftrightarrow> quiet_sig w \<and> glob w \<and> length (script w) \<le> L \<and>
     aio_reads (trace w) = rs \<and> aio_writes (trace w) = ws"

definition clean_stop :: "halt \<Rightarrow> bool" where
  "clean_stop h \<longleftrightarrow> h \<noteq> Undef \<and> h \<noteq> Spin"

lemma clean_stop_simps [simp]: "clean_stop (Exit c)" "clean_stop Blocked" "clean_stop (Killed s)"
  by (simp_all add: clean_stop_def)



lemma calm_glob [simp]: "calm L rs ws w \<Longrightarrow> glob w"
  by (simp add: calm_def)











section \<open>The loop\<close>



























text \<open>
  When SIGINT arrives while \<open>syncdata\<close> waits for the write, \<open>aio_fsync\<close> is called on the
  control block of the write that is still in flight.
\<close>

lemma syncdata_interrupted:
  "fst (syncdata 0 ((fillaiostructs 3)\<lparr>inflight := [Some False, None, None]\<rparr>)
     ((idle [Reply [SIGINT] (-1) EINTR [] []] True)\<lparr>sigact := (\<lambda>_. SIG_DFL)(SIGINT := Handler aio_siginthandler)\<rparr>))
   = Halt Undef"
  by code_simp

end
