(* ===== verification/GradedServer.thy ===== *)
theory GradedServer
  imports ConnTable Sockets
begin

text \<open>
  \<open>L2_3_Graded/server.c\<close>: a server on a local and a TCP socket that appends what each
  client sends to one array of 128 bytes and prints it; and its table of ten connections,
  whose slots hold addresses of any kind.
\<close>

section \<open>The connection table\<close>

definition GRADED_BACKLOG :: int where "GRADED_BACKLOG = 3"
definition MAX_CON :: nat where "MAX_CON = 10"
definition WAIT_BUF :: nat where "WAIT_BUF = 128"

text \<open>A \<open>struct sockaddr\<close> is its 16 bytes; \<open>len\<close> of them are significant.\<close>

record connection =
  free :: int
  fd :: int
  ctype :: int
  caddr :: "byte list"
  clen :: nat

definition MAX_ADDR :: nat where "MAX_ADDR = 16"

fun find_index_scan :: "byte list \<Rightarrow> nat \<Rightarrow> connection list \<Rightarrow> int \<Rightarrow> int \<Rightarrow> int \<times> int" where
  "find_index_scan addr len [] i emp = (emp, -1)"
| "find_index_scan addr len (c # con) i emp =
     (if free c = 1 then find_index_scan addr len con (i + 1) i
      else if clen c = len \<and> take len addr = take len (caddr c) then (emp, i)
      else find_index_scan addr len con (i + 1) emp)"

definition find_index :: "byte list \<Rightarrow> nat \<Rightarrow> connection list \<Rightarrow> int \<times> connection list" where
  "find_index addr len con =
     (case find_index_scan addr len con 0 (-1) of (emp, pos) \<Rightarrow>
        if pos = -1 \<and> emp \<noteq> -1
        then (emp, con[nat emp := (con ! nat emp)\<lparr>free := 0, caddr := addr, clen := len\<rparr>])
        else (pos, con))"

section \<open>A connection\<close>

text \<open>
  \<open>recvfrom\<close> stores up to \<open>n\<close> bytes; the two integers of the reply are the members
  \<open>sin_addr\<close> and \<open>sin_port\<close> of the local \<open>addr\<close> as the call leaves them.
\<close>

definition from_ok :: "nat \<Rightarrow> reply \<Rightarrow> bool" where
  "from_ok n r \<longleftrightarrow> in_ok n r \<and> length (r_vals r) = 2"

text \<open>
  \<open>client\<close>: \<open>strlen\<close> and the conversion \<open>%s\<close> of an array without a NUL read past its end.
  The result of the call is not looked at.
\<close>

definition graded_client :: "int \<Rightarrow> byte list \<Rightarrow> ('g, byte list) prog" where
  "graded_client cfd buffer =
     (if 0 \<notin> set buffer then halt_m Undef
      else let offset = strlen buffer; n = WAIT_BUF - offset in
        bind_m (sys SYS_recvfrom [cfd] [] (from_ok n)) (\<lambda>r.
        let buffer = put_at offset (stored r) buffer in
        bind_m (printf (fmt_d (r_vals r ! 0) @ str '' : '' @ fmt_d (r_vals r ! 1) @ [10])) (\<lambda>_.
        if 0 \<notin> set buffer then halt_m Undef
        else bind_m (printf (cstr buffer @ [10])) (\<lambda>_. ret buffer))))"

section \<open>The server\<close>

definition graded_sigint_handler :: "nat \<Rightarrow> int \<Rightarrow> int \<times> byte list list" where
  "graded_sigint_handler sig do_work = (0, [])"

definition usage_msg_server :: "byte list \<Rightarrow> ('g, unit) prog" where
  "usage_msg_server name = eprintf (str ''USAGE: '' @ name @ str '' socket port'' @ [10])"

text \<open>
  \<open>add_new_client\<close> of this directory also takes the place for the address of the client, which the
  kernel fills (NULL: \<open>None\<close>).
\<close>

definition graded_add_new_client :: "int \<Rightarrow> byte list option \<Rightarrow> ('g, int \<times> byte list option) prog" where
  "graded_add_new_client sfd addr = bind_m (retry (sys SYS_accept [sfd] [] fd_ok)) (\<lambda>r.
     if r_val r < 0 then bind_m get_errno (\<lambda>e.
       if e = EAGAIN then ret (-1, addr) else err_exit ''accept'')
     else ret (r_val r, map_option (\<lambda>_. r_data r) addr))"

lemma graded_add_new_client_null:
  "graded_add_new_client sfd None = bind_m (add_new_client sfd) (\<lambda>cfd. ret (cfd, None))"
  by (auto simp: graded_add_new_client_def add_new_client_def bind_m_def ret_def err_exit_def halt_m_def fun_eq_iff
      split: prod.splits outcome.splits)

text \<open>The loop of \<open>doServer\<close>; its state is the array.\<close>

definition graded_doServer_body :: "int \<Rightarrow> int \<Rightarrow> nat list \<Rightarrow> byte list \<Rightarrow> (int, byte list + unit) prog" where
  "graded_doServer_body fdL fdT oldmask wait_buf =
     bind_m get_glob (\<lambda>do_work.
     if do_work = 0 then ret (Inr ())
     else
       bind_m (with_mask oldmask (sys SYS_pselect [max fdL fdT + 1] [] fd_ok)) (\<lambda>r.
       if r_val r > 0 then
         bind_m (if fdL \<in> set (r_vals r) then graded_add_new_client fdL None else graded_add_new_client fdT None) (\<lambda>(cfd, addr).
         if cfd \<ge> 0 then bind_m (graded_client cfd wait_buf) (\<lambda>wait_buf. ret (Inl wait_buf))
         else ret (Inl wait_buf))
       else bind_m get_errno (\<lambda>e.
         if e = EINTR then ret (Inl wait_buf) else err_exit ''pselect'')))"

text \<open>The array is not initialised: \<open>junk\<close> is its content.\<close>

definition graded_doServer :: "byte list \<Rightarrow> int \<Rightarrow> int \<Rightarrow> (int, unit) prog" where
  "graded_doServer junk fdL fdT =
     bind_m (sigprocmask_block [SIGINT]) (\<lambda>oldmask.
     bind_m (loop_m (graded_doServer_body fdL fdT oldmask) junk) (\<lambda>_.
     sigprocmask_unblock [SIGINT]))"

definition msg_server_main :: "byte list \<Rightarrow> byte list list \<Rightarrow> (int, int) prog" where
  "msg_server_main junk argv =
     (if length argv \<noteq> 3 then bind_m (usage_msg_server (argv ! 0)) (\<lambda>_. ret 1)
      else
        bind_m (sethandler SIG_IGN SIGPIPE) (\<lambda>a. if a \<noteq> 0 then err_exit ''Seting SIGPIPE:'' else
        bind_m (sethandler (Handler graded_sigint_handler) SIGINT) (\<lambda>b.
        if b \<noteq> 0 then err_exit ''Seting SIGINT:'' else
        bind_m (bind_local_socket (argv ! 1) GRADED_BACKLOG) (\<lambda>fdL.
        bind_m (set_nonblock fdL) (\<lambda>_.
        bind_m (bind_tcp_socket (word_of_int (atoi (argv ! 2))) GRADED_BACKLOG) (\<lambda>fdT.
        bind_m (set_nonblock fdT) (\<lambda>_.
        bind_m (graded_doServer junk fdL fdT) (\<lambda>_.
        bind_m (retry (sys_close fdL)) (\<lambda>c. if r_val c < 0 then err_exit ''close'' else
        bind_m (sys SYS_unlink [] (cstr (argv ! 1)) status_ok) (\<lambda>u.
        if r_val u < 0 then err_exit ''unlink'' else
        bind_m (retry (sys_close fdT)) (\<lambda>d. if r_val d < 0 then err_exit ''close'' else
        bind_m (eprintf (str ''Server has terminated.'' @ [10])) (\<lambda>_.
        ret 0))))))))))))"

section \<open>The table is a connection table\<close>

text \<open>
  The peer of a slot is the length of its address and that many bytes; a query names an
  array and a length.
\<close>

definition query_peer :: "nat \<times> byte list \<Rightarrow> nat \<times> byte list" where
  "query_peer = (\<lambda>(len, addr). (len, take len addr))"

definition slot_peer :: "connection \<Rightarrow> nat \<times> byte list" where
  "slot_peer c = query_peer (clen c, caddr c)"

definition claim_connection :: "nat \<times> byte list \<Rightarrow> connection \<Rightarrow> connection" where
  "claim_connection = (\<lambda>(len, addr) c. c\<lparr>free := 0, caddr := addr, clen := len\<rparr>)"

lemma find_index_scan_eq:
  "find_index_scan addr len con i emp =
   slot_scan (\<lambda>c. free c = 1) (\<lambda>c. slot_peer c = query_peer (len, addr)) con i emp"
  by (induction con arbitrary: i emp) (auto simp: slot_peer_def query_peer_def)

interpretation graded_slots: slot_table MAX_CON "\<lambda>c. free c = 1" slot_peer query_peer claim_connection
    "\<lambda>(len, addr). find_index addr len"
  by unfold_locales
    (auto simp: claim_connection_def slot_peer_def query_peer_def find_index_def find_index_scan_eq split: prod.split)

lemma find_index_separates:
  assumes "slots_ok MAX_CON (\<lambda>c. free c = 1) slot_peer con"
    and "find_index a la con = (i, con1)" "find_index b lb con1 = (j, con2)" "0 \<le> i" "0 \<le> j"
    and "la \<noteq> lb \<or> take la a \<noteq> take lb b"
  shows "i \<noteq> j \<and> find_index a la con2 = (i, con2)"
  using graded_slots.find_separates [OF assms(1), of "(la, a)" i con1 "(lb, b)" j con2] assms(2-6)
  by (auto simp: query_peer_def)

section \<open>How much the array holds\<close>

fun received1 :: "event \<Rightarrow> nat" where
  "received1 (Sys n a p r) = (if n = SYS_recvfrom then length (stored r) else 0)"
| "received1 _ = 0"

definition received :: "event list \<Rightarrow> nat" where
  "received tr = sum_list (map received1 tr)"

lemma received_simps [simp]: "received [] = 0" "received (tr @ tr1) = received tr + received tr1"
  "received (e # tr) = received1 e + received tr"
  by (simp_all add: received_def)

lemma received_outs [simp]: "received (map Out outs) = 0"
  by (induction outs) simp_all






definition array_full :: "nat \<Rightarrow> halt \<Rightarrow> int world \<Rightarrow> bool" where
  "array_full k h w \<longleftrightarrow> h \<noteq> Spin \<and> (h = Undef \<longrightarrow> WAIT_BUF \<le> k + received (trace w))"

lemma array_full_simps [simp]: "array_full k (Exit c) w" "array_full k Blocked w" "array_full k (Killed s) w"
  by (simp_all add: array_full_def)













text \<open>The bound is sharp: 128 bytes without a NUL fill the array and the second \<open>printf\<close> leaves it.\<close>

lemma graded_client_overrun:
  "fst (graded_client 7 (replicate 128 0) (idle [Reply [] 128 ENONE (replicate 128 65) [0, 80]] 1)) = Halt Undef"
  by code_simp

end
