(* ===== verification/Bingo.thy ===== *)
theory Bingo
  imports Threads
begin

text \<open>
  \<open>L2_2/bingo.c\<close>: the parent calls numbers over one message queue, each call taken by one
  of the children; a child whose bingo number is called, or whose life is over, reports
  through a second queue and exits. The parent learns of the reports by the notification of
  the queue, a real-time signal, and of the exits by SIGCHLD. Children, parent, the two
  handlers on the parent's stack and the queues take turns in any order.
\<close>

section \<open>State\<close>

definition LIFE_SPAN :: nat where "LIFE_SPAN = 10"
definition MAX_NUM :: nat where "MAX_NUM = 10"

text \<open>Both queues are created with room for ten messages.\<close>

definition MQ_MAXMSG :: nat where "MQ_MAXMSG = 10"

text \<open>
  A child: its number \<open>n\<close>, its bingo number, the numbers it has received; playing with the
  rest of its \<open>life\<close>, about to send a message (priority and byte), to exit, a zombie, reaped.
\<close>

datatype kid_pc = K_start | K_play nat | K_send nat nat | K_exit | K_dead | K_reaped

record kid =
  kpc :: kid_pc
  knum :: nat
  my_bingo :: nat
  heard :: "nat list"

text \<open>A handler running in the parent: the next call of \<open>mq_handler\<close> or of \<open>sigchld_handler\<close>.\<close>

datatype handler_frame = F_notify | F_receive | F_reap

datatype bingo_pc =
    G_fork nat | G_load nat | G_store nat int | G_setup | G_test | G_send nat | G_sleep | G_close | G_exit int | G_killed

text \<open>
  The message queues (\<open>pin\<close> with priorities, in the order they will be received), whether
  the parent is registered for the notification of \<open>pin\<close>, its pending signals and running
  handlers, the lines \<open>mq_handler\<close> has printed.
\<close>

record bingo =
  kids :: "kid list"
  children_left :: int
  pout :: "nat list"
  pin :: "(nat \<times> nat) list"
  registered :: bool
  rt_pending :: nat
  chld_pending :: bool
  frames :: "handler_frame list"
  caller :: bingo_pc
  mq_lines :: "byte list list"

section \<open>Message queues\<close>

text \<open>A message goes behind all messages of at least its priority.\<close>

fun mq_insert :: "nat \<times> nat \<Rightarrow> (nat \<times> nat) list \<Rightarrow> (nat \<times> nat) list" where
  "mq_insert m [] = [m]"
| "mq_insert m (x # q) = (if fst x \<ge> fst m then x # mq_insert m q else m # x # q)"

text \<open>
  Sending to \<open>pin\<close>: when it was empty and a process is registered, that process is signalled
  and no longer registered.
\<close>

definition arrive :: "nat \<times> nat \<Rightarrow> bingo \<Rightarrow> bingo" where
  "arrive m s =
     (if pin s = [] \<and> registered s
      then s\<lparr>pin := [m], registered := False, rt_pending := rt_pending s + 1\<rparr>
      else s\<lparr>pin := mq_insert m (pin s)\<rparr>)"

section \<open>The child\<close>

definition set_kid :: "nat \<Rightarrow> kid_pc \<Rightarrow> bingo \<Rightarrow> bingo" where
  "set_kid i p s = s\<lparr>kids := (kids s)[i := (kids s ! i)\<lparr>kpc := p\<rparr>]\<rparr>"

text \<open>
  \<open>ERR\<close> kills the process group.
\<close>

definition kill_all :: "bingo \<Rightarrow> bingo" where
  "kill_all s = s\<lparr>caller := G_killed\<rparr>"

text \<open>
  \<open>child_work\<close> of child \<open>i\<close> and its exit; \<open>a\<close> and \<open>b\<close> are the results of \<open>rand\<close>, \<open>ok\<close> is
  whether the call succeeds. The first byte of \<open>n\<close> is \<open>n\<close>. \<open>pin\<close> is non-blocking for the
  children too, so \<open>mq_send\<close> fails when it is full.
\<close>

definition child_work :: "bool \<Rightarrow> nat \<Rightarrow> nat \<Rightarrow> nat \<Rightarrow> bingo \<Rightarrow> bingo option" where
  "child_work ok a b i s =
     (let k = kids s ! i in
      case kpc k of
        K_start \<Rightarrow> Some (s\<lparr>kids := (kids s)[i := k\<lparr>kpc := K_play (a mod LIFE_SPAN + 1), my_bingo := b mod MAX_NUM\<rparr>]\<rparr>)
      | K_play life \<Rightarrow>
          (if life = 0 then Some (set_kid i (K_send 0 (knum k)) s)
           else if \<not> ok then Some (kill_all s)
           else case pout s of
             [] \<Rightarrow> None
           | ni # rest \<Rightarrow> Some (s\<lparr>pout := rest, kids := (kids s)[i := k\<lparr>heard := heard k @ [ni],
               kpc := (if my_bingo k = ni then K_send 1 (my_bingo k) else K_play (life - 1))\<rparr>]\<rparr>))
      | K_send prio v \<Rightarrow>
          Some (if \<not> ok \<or> MQ_MAXMSG \<le> length (pin s) then kill_all s else set_kid i K_exit (arrive (prio, v) s))
      | K_exit \<Rightarrow> Some ((set_kid i K_dead s)\<lparr>chld_pending := True\<rparr>)
      | K_dead \<Rightarrow> None
      | K_reaped \<Rightarrow> None)"

section \<open>The handlers\<close>

definition mq_line :: "nat \<times> nat \<Rightarrow> byte list" where
  "mq_line = (\<lambda>(prio, ni).
     if prio = 0 then str ''MQ: got timeout from '' @ fmt_d (int ni) @ str ''.'' @ [10]
     else str ''MQ: '' @ fmt_d (int ni) @ str '' is a bingo number!'' @ [10])"

text \<open>Delivery of a pending signal that is not masked by its own handler.\<close>

definition deliver_rt :: "bingo \<Rightarrow> bingo option" where
  "deliver_rt s =
     (if 0 < rt_pending s \<and> F_notify \<notin> set (frames s) \<and> F_receive \<notin> set (frames s)
      then Some (s\<lparr>rt_pending := rt_pending s - 1, frames := F_notify # frames s\<rparr>) else None)"

definition deliver_chld :: "bingo \<Rightarrow> bingo option" where
  "deliver_chld s =
     (if chld_pending s \<and> F_reap \<notin> set (frames s)
      then Some (s\<lparr>chld_pending := False, frames := F_reap # frames s\<rparr>) else None)"

text \<open>
  \<open>mq_handler\<close>: registering again fails when the process is still registered; the loop ends
  when the queue is empty.
\<close>

definition mq_handler :: "bool \<Rightarrow> bingo \<Rightarrow> bingo option" where
  "mq_handler ok s =
     (case frames s of
        F_notify # fs \<Rightarrow> Some (
          if \<not> ok \<or> registered s then kill_all s
          else s\<lparr>registered := True, frames := F_receive # fs\<rparr>)
      | F_receive # fs \<Rightarrow> Some (
          if \<not> ok then kill_all s
          else case pin s of
            [] \<Rightarrow> s\<lparr>frames := fs\<rparr>
          | m # q \<Rightarrow> s\<lparr>pin := q, mq_lines := mq_lines s @ [mq_line m]\<rparr>)
      | _ \<Rightarrow> None)"

text \<open>\<open>sigchld_handler\<close> reaps zombies (child \<open>j\<close> next) until there is none.\<close>

definition bingo_sigchld_handler :: "bool \<Rightarrow> nat \<Rightarrow> bingo \<Rightarrow> bingo option" where
  "bingo_sigchld_handler ok j s =
     (case frames s of
        F_reap # fs \<Rightarrow>
          (if \<not> ok then Some (kill_all s)
           else if list_all (\<lambda>k. kpc k \<noteq> K_dead) (kids s) then Some (s\<lparr>frames := fs\<rparr>)
           else if j < length (kids s) \<and> kpc (kids s ! j) = K_dead
           then Some ((set_kid j K_reaped s)\<lparr>children_left := children_left s - 1\<rparr>)
           else None)
      | _ \<Rightarrow> None)"

section \<open>The parent\<close>

text \<open>
  The increment of \<open>children_left\<close> is a load and a store, between which a handler may run.
\<close>

definition create_children_bingo :: "bool \<Rightarrow> bingo \<Rightarrow> bingo option" where
  "create_children_bingo ok s =
     (case caller s of
        G_fork n \<Rightarrow> Some (
          if n = 0 then s\<lparr>caller := G_setup\<rparr>
          else if \<not> ok then s\<lparr>caller := G_exit 1\<rparr>
          else s\<lparr>caller := G_load (n - 1),
                 kids := kids s @ [\<lparr>kpc = K_start, knum = n - 1, my_bingo = 0, heard = []\<rparr>]\<rparr>)
      | G_load n \<Rightarrow> Some (s\<lparr>caller := G_store n (children_left s)\<rparr>)
      | G_store n v \<Rightarrow> Some (s\<lparr>caller := G_fork n, children_left := v + 1\<rparr>)
      | _ \<Rightarrow> None)"

text \<open>\<open>parent_work\<close>; \<open>r\<close> is the result of \<open>rand\<close>. Sending to a full queue blocks.\<close>

definition parent_work_bingo :: "bool \<Rightarrow> nat \<Rightarrow> bingo \<Rightarrow> bingo option" where
  "parent_work_bingo ok r s =
     (case caller s of
        G_test \<Rightarrow> Some (s\<lparr>caller := (if children_left s \<noteq> 0 then G_send (r mod MAX_NUM) else G_close)\<rparr>)
      | G_send ni \<Rightarrow>
          (if \<not> ok then Some (kill_all s)
           else if length (pout s) < MQ_MAXMSG then Some (s\<lparr>caller := G_sleep, pout := pout s @ [ni]\<rparr>)
           else None)
      | G_sleep \<Rightarrow> Some (s\<lparr>caller := G_test\<rparr>)
      | _ \<Rightarrow> None)"

definition bingo_main :: "bool \<Rightarrow> nat \<Rightarrow> bingo \<Rightarrow> bingo option" where
  "bingo_main ok r s =
     (case caller s of
        G_setup \<Rightarrow> Some (if \<not> ok \<or> registered s then kill_all s else s\<lparr>caller := G_test, registered := True\<rparr>)
      | G_close \<Rightarrow> Some (if ok then s\<lparr>caller := G_exit 0\<rparr> else kill_all s)
      | G_exit c \<Rightarrow> None
      | G_killed \<Rightarrow> None
      | _ \<Rightarrow> (case create_children_bingo ok s of Some t \<Rightarrow> Some t | None \<Rightarrow> parent_work_bingo ok r s))"

section \<open>Before and after the game\<close>

definition usage_bingo :: "('g, 'a) prog" where
  "usage_bingo =
     bind_m (eprintf (str ''USAGE: signals n k p l'' @ [10])) (\<lambda>_.
     bind_m (eprintf (str ''100 >n > 0 - number of children'' @ [10])) (\<lambda>_. halt_m (Exit 1)))"

definition bingo_sethandler :: "'g handler \<Rightarrow> nat \<Rightarrow> ('g, unit) prog" where
  "bingo_sethandler f sigNo = bind_m (sys_sigaction sigNo f) (\<lambda>r.
     if r_val r = -1 then err_kill ''sigaction'' else ret ())"

text \<open>
  \<open>main\<close> up to \<open>create_children\<close>: it gives the number of children and the two queues; the
  handlers are those of the game above.
\<close>

definition bingo_setup :: "'g handler \<Rightarrow> 'g handler \<Rightarrow> byte list list \<Rightarrow> ('g, nat \<times> int \<times> int) prog" where
  "bingo_setup on_chld on_mq argv =
     (if length argv \<noteq> 2 then usage_bingo
      else let n = atoi (argv ! 1) in
        if n \<le> 0 \<or> n \<ge> 100 then usage_bingo
        else
          bind_m (retry (sys SYS_mq_open [int MQ_MAXMSG, 1] (str ''/bingo_in'') fd_ok)) (\<lambda>a.
          if r_val a = -1 then err_kill ''mq_open in'' else
          bind_m (retry (sys SYS_mq_open [int MQ_MAXMSG, 1] (str ''/bingo_out'') fd_ok)) (\<lambda>b.
          if r_val b = -1 then err_kill ''mq_open out'' else
          bind_m (bingo_sethandler on_chld SIGCHLD) (\<lambda>_.
          bind_m (bingo_sethandler on_mq SIGRTMIN) (\<lambda>_.
          ret (nat n, r_val a, r_val b))))))"

definition bingo_finish :: "int \<Rightarrow> int \<Rightarrow> ('g, unit) prog" where
  "bingo_finish fd_in fd_out =
     bind_m (sys SYS_mq_close [fd_in] [] status_ok) (\<lambda>_.
     bind_m (sys SYS_mq_close [fd_out] [] status_ok) (\<lambda>_.
     bind_m (sys SYS_mq_unlink [] (str ''/bingo_in'') status_ok) (\<lambda>a.
     if r_val a < 0 then err_kill ''mq_unlink'' else
     bind_m (sys SYS_mq_unlink [] (str ''/bingo_out'') status_ok) (\<lambda>b.
     if r_val b < 0 then err_kill ''mq_unlink'' else ret ()))))"

section \<open>Runs\<close>

definition parent_alive :: "bingo \<Rightarrow> bool" where
  "parent_alive s \<longleftrightarrow> (case caller s of G_exit c \<Rightarrow> False | G_killed \<Rightarrow> False | _ \<Rightarrow> True)"

datatype bingo_action = A_main bool nat | A_rt | A_chld | A_mq bool | A_reap bool nat | A_kid bool nat nat nat

text \<open>The main program stands still while a handler runs; a killed group does nothing.\<close>

definition bingo_act :: "bingo_action \<Rightarrow> bingo \<Rightarrow> bingo option" where
  "bingo_act act s =
     (case act of
        A_main ok r \<Rightarrow> if frames s = [] then bingo_main ok r s else None
      | A_rt \<Rightarrow> if parent_alive s then deliver_rt s else None
      | A_chld \<Rightarrow> if parent_alive s then deliver_chld s else None
      | A_mq ok \<Rightarrow> if parent_alive s then mq_handler ok s else None
      | A_reap ok j \<Rightarrow> if parent_alive s then bingo_sigchld_handler ok j s else None
      | A_kid ok a b i \<Rightarrow> if caller s \<noteq> G_killed \<and> i < length (kids s) then child_work ok a b i s else None)"

definition bingo_step :: "bingo \<Rightarrow> bingo \<Rightarrow> bool" where
  "bingo_step s t \<longleftrightarrow> (\<exists>act. bingo_act act s = Some t)"

text \<open>A queue that exists already keeps its messages: \<open>stale\<close> are the numbers found in it.\<close>

definition bingo_start :: "nat \<Rightarrow> nat list \<Rightarrow> bingo" where
  "bingo_start n stale = \<lparr>kids = [], children_left = 0, pout = stale, pin = [], registered = False, rt_pending = 0,
     chld_pending = False, frames = [], caller = G_fork n, mq_lines = []\<rparr>"

section \<open>The children keep the rules\<close>

text \<open>The message a child owes, from what it has heard.\<close>

definition kid_msg :: "kid \<Rightarrow> nat \<times> nat" where
  "kid_msg k = (if last (heard k) = my_bingo k then (1, my_bingo k) else (0, knum k))"

text \<open>
  A finished game: between one and ten numbers were heard, and only the last can have been
  the bingo number.
\<close>

definition settled_kid :: "kid \<Rightarrow> bool" where
  "settled_kid k \<longleftrightarrow> heard k \<noteq> [] \<and> length (heard k) \<le> LIFE_SPAN \<and> my_bingo k \<notin> set (butlast (heard k)) \<and>
     my_bingo k < MAX_NUM"

definition kid_ok :: "kid \<Rightarrow> bool" where
  "kid_ok k \<longleftrightarrow> (case kpc k of
      K_start \<Rightarrow> heard k = []
    | K_play l \<Rightarrow> my_bingo k < MAX_NUM \<and> my_bingo k \<notin> set (heard k) \<and> length (heard k) + l \<le> LIFE_SPAN \<and>
        0 < length (heard k) + l
    | K_send prio v \<Rightarrow> settled_kid k \<and> (prio, v) = kid_msg k
    | _ \<Rightarrow> settled_kid k)"

definition sent_msg :: "kid \<Rightarrow> bool" where
  "sent_msg k \<longleftrightarrow> kpc k \<in> {K_exit, K_dead, K_reaped}"

definition kids_ok :: "bingo \<Rightarrow> bool" where
  "kids_ok s \<longleftrightarrow> list_all kid_ok (kids s)"

text \<open>Every message sent has been printed or waits in the queue.\<close>

definition messages_kept :: "bingo \<Rightarrow> bool" where
  "messages_kept s \<longleftrightarrow>
     mset (mq_lines s) + mset (map mq_line (pin s)) = mset (map (\<lambda>k. mq_line (kid_msg k)) (filter sent_msg (kids s)))"

lemma mset_mq_insert [simp]: "mset (mq_insert m q) = add_mset m (mset q)"
  by (induction q) auto

lemma arrive_frame [simp]:
  "kids (arrive m s) = kids s" "children_left (arrive m s) = children_left s" "pout (arrive m s) = pout s"
  "chld_pending (arrive m s) = chld_pending s" "frames (arrive m s) = frames s" "caller (arrive m s) = caller s"
  "mq_lines (arrive m s) = mq_lines s" "mset (pin (arrive m s)) = add_mset m (mset (pin s))"
  by (simp_all add: arrive_def)

lemmas bingo_defs = bingo_act_def child_work_def set_kid_def kill_all_def deliver_rt_def deliver_chld_def
  mq_handler_def bingo_sigchld_handler_def bingo_main_def create_children_bingo_def parent_work_bingo_def Let_def

lemmas bingo_splits = bingo_action.splits kid_pc.splits bingo_pc.splits handler_frame.splits list.splits option.splits if_splits

lemma child_work_frame:
  assumes "child_work ok a b i s = Some t"
  shows "\<exists>k. kids t = (kids s)[i := k]" "children_left t = children_left s" "frames t = frames s"
    "mq_lines t = mq_lines s" "caller t = caller s \<or> caller t = G_killed"
  using assms
  by (cases "kpc (kids s ! i)"; auto simp: bingo_defs split: list.splits if_splits
      intro: exI [of _ "kids s ! i"])+

lemma child_work_kids: "child_work ok a b i s = Some t \<Longrightarrow> kids t = (kids s)[i := kids t ! i]"
  using child_work_frame(1) by (metis list_update_beyond linorder_not_le nth_list_update_eq list_update_overwrite)

lemma not_heard: "b \<notin> set h \<Longrightarrow> h \<noteq> [] \<Longrightarrow> last h \<noteq> b \<and> b \<notin> set (butlast h)"
  by (metis in_set_butlastD last_in_set)

lemma kid_ok_child:
  assumes "kid_ok (kids s ! i)" "child_work ok a b i s = Some t" "i < length (kids s)"
  shows "kid_ok (kids t ! i)"
proof -
  have "a mod 10 < 10" "b mod 10 < 10" by simp_all
  then show ?thesis
    using assms not_heard [of "my_bingo (kids s ! i)" "heard (kids s ! i)"]
    by (cases "kpc (kids s ! i)")
      (auto simp: bingo_defs kid_ok_def settled_kid_def kid_msg_def LIFE_SPAN_def MAX_NUM_def Suc_le_eq
        split: list.splits if_splits)
qed

text \<open>What a step of the parent or of a handler does to the children.\<close>

lemma kids_ok_step:
  assumes "kids_ok s" "bingo_act act s = Some t"
  shows "kids_ok t"
proof (cases act)
  case (A_kid ok a b i)
  then have c: "child_work ok a b i s = Some t" "i < length (kids s)" using assms(2) by (auto simp: bingo_act_def split: if_splits)
  then have "kid_ok (kids t ! i)" using assms(1) kid_ok_child [OF _ c] by (simp add: kids_ok_def list_all_length)
  then show ?thesis using assms(1) child_work_kids [OF c(1)] by (metis kids_ok_def list_all_update)
next
  case (A_reap ok j)
  have "kid_ok k \<Longrightarrow> kpc k = K_dead \<Longrightarrow> kid_ok (k\<lparr>kpc := K_reaped\<rparr>)" for k
    by (auto simp: kid_ok_def settled_kid_def)
  then show ?thesis using assms A_reap
    by (auto simp: bingo_defs kids_ok_def list_all_update list_all_nthD split: bingo_splits)
qed (use assms in \<open>auto simp: bingo_defs kids_ok_def kid_ok_def split: bingo_splits\<close>)

lemma messages_child:
  assumes "kid_ok (kids s ! i)" "messages_kept s" "child_work ok a b i s = Some t" "i < length (kids s)"
  shows "messages_kept t"
proof -
  let ?f = "\<lambda>k. mq_line (kid_msg k)"
  have m: "mset (map ?f (filter sent_msg (kids t))) + (if sent_msg (kids s ! i) then {#?f (kids s ! i)#} else {#}) =
      mset (map ?f (filter sent_msg (kids s))) + (if sent_msg (kids t ! i) then {#?f (kids t ! i)#} else {#})"
    using mset_filter_update [OF assms(4), of ?f sent_msg "kids t ! i"] child_work_kids [OF assms(3)] by simp
  show ?thesis
    using assms m child_work_frame(4) [OF assms(3)]
    by (cases "kpc (kids s ! i)")
      (auto simp: bingo_defs messages_kept_def sent_msg_def kid_ok_def kid_msg_def mset_map split: list.splits if_splits)
qed

lemma messages_step:
  assumes "kids_ok s" "messages_kept s" "bingo_act act s = Some t"
  shows "messages_kept t"
proof (cases act)
  case (A_kid ok a b i)
  then show ?thesis using assms messages_child by (auto simp: bingo_act_def kids_ok_def list_all_length split: if_splits)
next
  case (A_reap ok j)
  have "kid_msg (k\<lparr>kpc := p\<rparr>) = kid_msg k" for k p by (simp add: kid_msg_def)
  then show ?thesis using assms A_reap mset_filter_update [of j "kids s" "\<lambda>k. mq_line (kid_msg k)" sent_msg "(kids s ! j)\<lparr>kpc := K_reaped\<rparr>"]
    by (auto simp: bingo_defs messages_kept_def sent_msg_def split: bingo_splits)
qed (use assms in \<open>auto simp: bingo_defs messages_kept_def sent_msg_def split: bingo_splits\<close>)

section \<open>Notification\<close>

definition in_mq_handler :: "bingo \<Rightarrow> bool" where
  "in_mq_handler s \<longleftrightarrow> F_notify \<in> set (frames s) \<or> F_receive \<in> set (frames s)"

fun setting_up :: "bingo_pc \<Rightarrow> bool" where
  "setting_up (G_fork n) = True" | "setting_up (G_load n) = True" | "setting_up (G_store n v) = True"
| "setting_up G_setup = True" | "setting_up _ = False"

text \<open>
  From the set-up on exactly one of three things holds: the parent is registered, or a
  notification is pending, or the handler is about to register again.
\<close>

definition notified :: "bingo \<Rightarrow> bool" where
  "notified s \<longleftrightarrow> (parent_alive s \<longrightarrow>
     distinct (frames s) \<and> \<not> (F_notify \<in> set (frames s) \<and> F_receive \<in> set (frames s)) \<and>
     of_bool (registered s) + rt_pending s + of_bool (F_notify \<in> set (frames s)) =
       (if setting_up (caller s) then 0 else 1 :: nat) \<and>
     (setting_up (caller s) \<longrightarrow> F_receive \<notin> set (frames s)))"

text \<open>A message waits, and nothing will make the parent look.\<close>

definition unnoticed :: "bingo \<Rightarrow> bool" where
  "unnoticed s \<longleftrightarrow> parent_alive s \<and> registered s \<and> pin s \<noteq> [] \<and> rt_pending s = 0 \<and> \<not> in_mq_handler s"

lemma parent_alive_simps [simp]:
  "parent_alive (s\<lparr>frames := f\<rparr>) = parent_alive s" "parent_alive (s\<lparr>rt_pending := r\<rparr>) = parent_alive s"
  "parent_alive (s\<lparr>chld_pending := c\<rparr>) = parent_alive s" "parent_alive (s\<lparr>registered := g\<rparr>) = parent_alive s"
  "parent_alive (s\<lparr>mq_lines := l\<rparr>) = parent_alive s" "parent_alive (s\<lparr>pin := q\<rparr>) = parent_alive s"
  "parent_alive (s\<lparr>kids := ks\<rparr>) = parent_alive s" "parent_alive (s\<lparr>children_left := x\<rparr>) = parent_alive s"
  "\<not> parent_alive (s\<lparr>caller := G_killed\<rparr>)"
  by (simp_all add: parent_alive_def)

lemmas handler_defs = bingo_act_def set_kid_def kill_all_def deliver_rt_def deliver_chld_def
  mq_handler_def bingo_sigchld_handler_def

lemmas handler_splits = handler_frame.splits list.splits if_splits

lemma alive_child:
  "child_work ok a b i s = Some t \<Longrightarrow> parent_alive t \<Longrightarrow> caller t = caller s"
  using child_work_frame(5) by (fastforce simp: parent_alive_def)

lemma child_work_signals:
  "child_work ok a b i s = Some t \<Longrightarrow> of_bool (registered t) + rt_pending t = of_bool (registered s) + rt_pending s"
  by (auto simp: bingo_defs arrive_def split: kid_pc.splits list.splits if_splits)

lemma notified_step:
  assumes "notified s" "bingo_act act s = Some t"
  shows "notified t"
proof (cases act)
  case (A_kid ok a b i)
  then have c: "child_work ok a b i s = Some t" using assms(2) by (auto simp: bingo_act_def split: if_splits)
  show ?thesis
    using assms(1) child_work_frame(3) [OF c] child_work_signals [OF c] alive_child [OF c]
    by (auto simp: notified_def parent_alive_def split: bingo_pc.splits)
next
  case (A_main ok r)
  then show ?thesis using assms
    by (cases "caller s") (auto simp: bingo_defs notified_def parent_alive_def split: if_splits)
qed (use assms in \<open>auto simp: handler_defs notified_def split: handler_splits\<close>)

lemma child_work_notices:
  assumes "child_work ok a b i s = Some t" "unnoticed t"
  shows "unnoticed s"
proof -
  have "caller t = caller s" using assms alive_child by (simp add: unnoticed_def)
  moreover have "frames t = frames s" using assms(1) child_work_frame(3) by blast
  moreover have "registered t \<Longrightarrow> pin t \<noteq> [] \<Longrightarrow> registered s \<and> pin s \<noteq> [] \<and> rt_pending s = rt_pending t"
    using assms(1) by (auto simp: bingo_defs arrive_def split: kid_pc.splits list.splits if_splits)
  ultimately show ?thesis using assms(2) by (simp add: unnoticed_def parent_alive_def in_mq_handler_def)
qed

lemma unnoticed_starts:
  assumes "notified s" "bingo_act act s = Some t" "unnoticed t" "\<not> unnoticed s"
  shows "caller s = G_setup \<and> pin s \<noteq> []"
proof (cases act)
  case (A_kid ok a b i)
  then show ?thesis using assms child_work_notices by (auto simp: bingo_act_def split: if_splits)
next
  case (A_main ok r)
  then show ?thesis using assms
    by (cases "caller s") (auto simp: bingo_defs unnoticed_def in_mq_handler_def parent_alive_def split: if_splits)
next
  case (A_mq ok)
  then show ?thesis using assms
    by (auto simp: handler_defs notified_def unnoticed_def in_mq_handler_def split: handler_splits)
qed (use assms in \<open>auto simp: handler_defs notified_def unnoticed_def in_mq_handler_def split: handler_splits\<close>)

section \<open>Counting the children\<close>

text \<open>What the counter is worth while an increment is under way; nothing is left at the end.\<close>

fun worth :: "bingo_pc \<Rightarrow> int \<Rightarrow> int" where
  "worth (G_load n) c = c + 1" | "worth (G_store n v) c = v + 1" | "worth G_close c = 0"
| "worth (G_exit x) c = 0" | "worth _ c = c"

definition unreaped :: "bingo \<Rightarrow> int" where
  "unreaped s = threads_in (\<lambda>k. kpc k \<noteq> K_reaped) (kids s)"

definition counts_all :: "bingo \<Rightarrow> bool" where
  "counts_all s \<longleftrightarrow> (parent_alive s \<or> caller s = G_exit 0 \<longrightarrow> unreaped s \<le> worth (caller s) (children_left s))"

fun still_to_fork :: "bingo_pc \<Rightarrow> nat" where
  "still_to_fork (G_fork n) = n" | "still_to_fork (G_load n) = n" | "still_to_fork (G_store n v) = n"
| "still_to_fork _ = 0"

definition numbered :: "nat \<Rightarrow> bingo \<Rightarrow> bool" where
  "numbered n s \<longleftrightarrow> (parent_alive s \<or> caller s = G_exit 0 \<longrightarrow>
     still_to_fork (caller s) \<le> n \<and> map knum (kids s) = rev [still_to_fork (caller s)..<n])"

lemma unreaped_child:
  assumes "child_work ok a b i s = Some t" "i < length (kids s)"
  shows "unreaped t = unreaped s" "map knum (kids t) = map knum (kids s)"
proof -
  have "(kpc (kids t ! i) = K_reaped) = (kpc (kids s ! i) = K_reaped) \<and> knum (kids t ! i) = knum (kids s ! i)"
    using assms by (auto simp: bingo_defs arrive_def split: kid_pc.splits list.splits if_splits)
  then obtain y where y: "kids t = (kids s)[i := y]"
      "(kpc y = K_reaped) = (kpc (kids s ! i) = K_reaped)" "knum y = knum (kids s ! i)"
    using child_work_kids [OF assms(1)] by blast
  show "unreaped t = unreaped s" unfolding unreaped_def y(1) using assms(2) y(2) by (simp add: threads_in_update)
  show "map knum (kids t) = map knum (kids s)"
    unfolding y(1) using assms(2) y(3) by (simp add: map_update list_update_same_conv)
qed

lemma counts_all_step:
  assumes "counts_all s" "bingo_act act s = Some t"
  shows "counts_all t"
proof (cases act)
  case (A_kid ok a b i)
  then have c: "child_work ok a b i s = Some t" "i < length (kids s)"
    using assms(2) by (auto simp: bingo_act_def split: if_splits)
  show ?thesis
    using assms(1) unreaped_child(1) [OF c] child_work_frame(2,5) [OF c(1)]
    by (auto simp: counts_all_def parent_alive_def)
next
  case (A_main ok r)
  have "threads_in (\<lambda>k. kpc k \<noteq> K_reaped) (kids s) \<ge> 0" by simp
  then show ?thesis using assms A_main
    by (cases "caller s") (auto simp: bingo_defs counts_all_def unreaped_def parent_alive_def split: if_splits)
next
  case (A_reap ok j)
  then show ?thesis using assms
    by (cases "caller s") (auto simp: handler_defs counts_all_def unreaped_def threads_in_update split: handler_splits)
qed (use assms in \<open>auto simp: handler_defs counts_all_def unreaped_def split: handler_splits\<close>)

lemma numbered_step:
  assumes "numbered n s" "bingo_act act s = Some t"
  shows "numbered n t"
proof (cases act)
  case (A_kid ok a b i)
  then have c: "child_work ok a b i s = Some t" "i < length (kids s)"
    using assms(2) by (auto simp: bingo_act_def split: if_splits)
  show ?thesis
    using assms(1) unreaped_child(2) [OF c] child_work_frame(5) [OF c(1)]
    by (auto simp: numbered_def parent_alive_def)
next
  case (A_main ok r)
  have fork: "0 < k \<Longrightarrow> k \<le> n \<Longrightarrow> rev [k - 1..<n] = rev [k..<n] @ [k - 1]" for k :: nat
    using upt_conv_Cons [of "k - 1" n] by simp
  show ?thesis using assms A_main fork
    by (cases "caller s") (auto simp: bingo_defs numbered_def parent_alive_def split: if_splits)
next
  case (A_reap ok j)
  have "map knum ((kids s)[j := (kids s ! j)\<lparr>kpc := K_reaped\<rparr>]) = map knum (kids s)" if "j < length (kids s)"
    using that by (simp add: map_update list_update_same_conv)
  then show ?thesis using assms A_reap
    by (auto simp: handler_defs numbered_def split: handler_splits)
qed (use assms in \<open>auto simp: handler_defs numbered_def split: handler_splits\<close>)

text \<open>
  When no numbers are left over from an earlier run, nothing happens before the parent calls:
  no child can end its game while the children are being created.
\<close>

fun waiting_kid :: "kid_pc \<Rightarrow> bool" where
  "waiting_kid K_start = True" | "waiting_kid (K_play l) = (0 < l)" | "waiting_kid _ = False"

definition undisturbed :: "bingo \<Rightarrow> bool" where
  "undisturbed s \<longleftrightarrow>
     (setting_up (caller s) \<longrightarrow> pout s = [] \<and> pin s = [] \<and> frames s = [] \<and> \<not> chld_pending s \<and> rt_pending s = 0 \<and>
        list_all (\<lambda>k. waiting_kid (kpc k)) (kids s)) \<and>
     (parent_alive s \<longrightarrow> unreaped s = worth (caller s) (children_left s)) \<and>
     (case caller s of G_store n v \<Rightarrow> v = children_left s | G_close \<Rightarrow> children_left s = 0 | _ \<Rightarrow> True)"

lemma waiting_child:
  assumes "child_work ok a b i s = Some t" "waiting_kid (kpc (kids s ! i))" "pout s = []" "i < length (kids s)"
  shows "caller t = G_killed \<or> waiting_kid (kpc (kids t ! i)) \<and> pout t = [] \<and> pin t = pin s \<and>
    chld_pending t = chld_pending s \<and> rt_pending t = rt_pending s"
  using assms by (cases "kpc (kids s ! i)") (auto simp: bingo_defs split: if_splits)

lemma undisturbed_step:
  assumes "undisturbed s" "bingo_act act s = Some t"
  shows "undisturbed t"
proof (cases act)
  case (A_kid ok a b i)
  then have c: "child_work ok a b i s = Some t" "i < length (kids s)" "caller s \<noteq> G_killed"
    using assms(2) by (auto simp: bingo_act_def split: if_splits)
  show ?thesis
  proof (cases "caller t = G_killed")
    case True
    then show ?thesis by (simp add: undisturbed_def parent_alive_def)
  next
    case False
    then have ct: "caller t = caller s" using child_work_frame(5) [OF c(1)] by blast
    have "setting_up (caller s) \<Longrightarrow> pout t = [] \<and> pin t = [] \<and> frames t = [] \<and> \<not> chld_pending t \<and> rt_pending t = 0 \<and>
        list_all (\<lambda>k. waiting_kid (kpc k)) (kids t)"
    proof -
      assume "setting_up (caller s)"
      then have u: "pout s = []" "pin s = []" "frames s = []" "\<not> chld_pending s" "rt_pending s = 0"
        "list_all (\<lambda>k. waiting_kid (kpc k)) (kids s)"
        using assms(1) by (simp_all add: undisturbed_def)
      then have w: "waiting_kid (kpc (kids t ! i)) \<and> pout t = [] \<and> pin t = [] \<and> \<not> chld_pending t \<and> rt_pending t = 0"
        using waiting_child [OF c(1) _ u(1) c(2)] list_all_nthD [OF u(6) c(2)] False by auto
      have "list_all (\<lambda>k. waiting_kid (kpc k)) ((kids s)[i := kids t ! i])"
        using u(6) w by (simp add: list_all_update)
      then show ?thesis using w u(3) child_work_frame(3) [OF c(1)] child_work_kids [OF c(1)] by simp
    qed
    then show ?thesis
      using assms(1) unreaped_child(1) [OF c(1,2)] child_work_frame(2) [OF c(1)] ct
      by (auto simp: undisturbed_def parent_alive_def split: bingo_pc.splits)
  qed
next
  case (A_main ok r)
  then show ?thesis using assms
    by (cases "caller s") (auto simp: bingo_defs undisturbed_def unreaped_def parent_alive_def split: if_splits)
next
  case (A_reap ok j)
  then show ?thesis using assms threads_in_zeroD [of "\<lambda>k. kpc k \<noteq> K_reaped" "kids s" j]
    by (cases "caller s") (auto simp: handler_defs undisturbed_def unreaped_def threads_in_update split: handler_splits)
qed (use assms in \<open>cases "caller s"; auto simp: handler_defs undisturbed_def unreaped_def split: handler_splits\<close>)+

section \<open>What a reachable state satisfies\<close>

definition bingo_inv :: "nat \<Rightarrow> bool \<Rightarrow> bingo \<Rightarrow> bool" where
  "bingo_inv n clean s \<longleftrightarrow> kids_ok s \<and> messages_kept s \<and> notified s \<and> counts_all s \<and> numbered n s \<and>
     (clean \<longrightarrow> undisturbed s \<and> \<not> unnoticed s)"

interpretation bingo_sys: inv_system "\<lambda>s. s = bingo_start n stale" bingo_step "bingo_inv n (stale = [])"
  for n stale
proof unfold_locales
  fix s assume "s = bingo_start n stale"
  then show "bingo_inv n (stale = []) s"
    by (simp add: bingo_inv_def bingo_start_def kids_ok_def messages_kept_def notified_def counts_all_def numbered_def
        undisturbed_def unnoticed_def unreaped_def parent_alive_def)
next
  fix s t assume inv: "bingo_inv n (stale = []) s" and "bingo_step s t"
  then obtain act where act: "bingo_act act s = Some t" by (auto simp: bingo_step_def)
  have "\<not> unnoticed t" if "stale = []"
  proof
    assume "unnoticed t"
    with inv that act unnoticed_starts [of s act t] have "caller s = G_setup" "pin s \<noteq> []" "undisturbed s"
      by (auto simp: bingo_inv_def)
    then show False by (simp add: undisturbed_def)
  qed
  then show "bingo_inv n (stale = []) t"
    using inv act kids_ok_step messages_step notified_step counts_all_step numbered_step undisturbed_step
    by (auto simp: bingo_inv_def)
qed

text \<open>
  Property C14. In every reachable state of the game with \<open>n\<close> children: each message of a child that
  has left the game has been printed or waits in the queue, none is lost or made up; it says
  truly whether the last number the child heard was its bingo number, after one to ten
  numbers. The parent finishes only when all \<open>n\<close> children have been reaped. And when no
  numbers are left over from an earlier run, the counter is exact and no message waits
  unnoticed.
\<close>

theorem bingo_reports:
  assumes "bingo_step\<^sup>*\<^sup>* (bingo_start n stale) s"
  shows "mset (mq_lines s) + mset (map mq_line (pin s)) =
      mset (map (\<lambda>k. mq_line (kid_msg k)) (filter sent_msg (kids s))) \<and>
    list_all (\<lambda>k. sent_msg k \<longrightarrow> 1 \<le> length (heard k) \<and> length (heard k) \<le> LIFE_SPAN \<and>
      my_bingo k \<notin> set (butlast (heard k))) (kids s) \<and>
    (caller s = G_exit 0 \<longrightarrow> map knum (kids s) = rev [0..<n] \<and> list_all (\<lambda>k. kpc k = K_reaped) (kids s)) \<and>
    (stale = [] \<longrightarrow> \<not> unnoticed s \<and>
      (parent_alive s \<and> \<not> setting_up (caller s) \<longrightarrow> children_left s = unreaped s))"
proof -
  have inv: "bingo_inv n (stale = []) s" using bingo_sys.inv_reachable [OF refl assms] .
  have "sent_msg k \<longrightarrow> 1 \<le> length (heard k) \<and> length (heard k) \<le> LIFE_SPAN \<and> my_bingo k \<notin> set (butlast (heard k))"
    if "kid_ok k" for k
    using that by (auto simp: kid_ok_def sent_msg_def settled_kid_def Suc_le_eq)
  then have kids: "list_all (\<lambda>k. sent_msg k \<longrightarrow> 1 \<le> length (heard k) \<and> length (heard k) \<le> LIFE_SPAN \<and>
      my_bingo k \<notin> set (butlast (heard k))) (kids s)"
    using inv by (auto simp: bingo_inv_def kids_ok_def list_all_iff)
  have reaped: "list_all (\<lambda>k. kpc k = K_reaped) (kids s)" if "unreaped s \<le> 0"
    using that threads_in_pos [of _ "kids s" "\<lambda>k. kpc k \<noteq> K_reaped"] by (fastforce simp: list_all_length unreaped_def)
  show ?thesis
    using inv kids reaped
    by (cases "caller s") (auto simp: bingo_inv_def messages_kept_def counts_all_def numbered_def undisturbed_def parent_alive_def)
qed

lemma bingo_run:
  "run_schedule bingo_act acts s = Some t \<Longrightarrow> bingo_step\<^sup>*\<^sup>* s t"
  by (erule run_schedule_steps) (auto simp: bingo_step_def)

definition one_game :: "bingo_action list" where
  "one_game = [A_main True 0, A_main True 0, A_main True 0, A_main True 0, A_main True 0, A_kid True 0 3 0,
     A_main True 13, A_main True 0, A_kid True 0 0 0, A_kid True 0 0 0, A_rt, A_mq True, A_kid True 0 0 0, A_chld,
     A_reap True 0, A_reap True 0, A_mq True, A_mq True, A_main True 0, A_main True 0, A_main True 0]"

lemma one_game_run:
  "let r = run_schedule bingo_act one_game (bingo_start 1 []) in
   r \<noteq> None \<and> caller (the r) = G_exit 0 \<and> pin (the r) = [] \<and> mq_lines (the r) = [mq_line (1, 3)]"
  by code_simp

theorem bingo_reports_witness:
  "\<exists>s :: bingo. caller s = G_exit 0 \<and> mq_lines s = [mq_line (1, 3)] \<and> map knum (kids s) = [0]"
proof -
  obtain s where "run_schedule bingo_act one_game (bingo_start 1 []) = Some s"
    and s: "caller s = G_exit 0" "mq_lines s = [mq_line (1, 3)]"
    using one_game_run by (auto simp: Let_def)
  then have "bingo_step\<^sup>*\<^sup>* (bingo_start 1 []) s" by (intro bingo_run)
  from bingo_reports [OF this] s show ?thesis by auto
qed

text \<open>
  A number left over in the queue ends the game of a child while the parent is still
  creating it: the report goes unnoticed for ever, and the counter, decremented between the
  load and the store of its increment, never comes back to 0.
\<close>

definition stale_game :: "bingo_action list" where
  "stale_game = [A_main True 0, A_main True 0, A_kid True 0 3 0, A_kid True 0 0 0, A_kid True 0 0 0, A_kid True 0 0 0,
     A_chld, A_reap True 0, A_reap True 0, A_main True 0, A_main True 0, A_main True 0]"

lemma bingo_stale_numbers:
  "\<exists>s. bingo_step\<^sup>*\<^sup>* (bingo_start 1 [3]) s \<and> unnoticed s \<and> unreaped s = 0 \<and> children_left s = 1 \<and> caller s = G_test"
proof -
  have "let r = run_schedule bingo_act stale_game (bingo_start 1 [3]) in
     r \<noteq> None \<and> unnoticed (the r) \<and> unreaped (the r) = 0 \<and> children_left (the r) = 1 \<and> caller (the r) = G_test"
    by code_simp
  then show ?thesis by (auto simp: Let_def intro: bingo_run)
qed

end
