(* ===== verification/Pastry.thy ===== *)
theory Pastry
  imports BulkIO
begin

text \<open>
  The pastry shop of \<open>L2_2\<close>: \<open>pastry_server.c\<close> answers every request in one message queue
  with a random cookie (two bytes) in another, and adds two cookies of a fixed kind per
  SIGUSR1; \<open>pastry_client.c\<close> takes a cookie every second, places a request when there is
  none, and leaves after three such disappointments in a row.
\<close>

definition mq_send :: "int \<Rightarrow> byte list \<Rightarrow> ('g, reply) prog" where
  "mq_send mq msg = retry (sys SYS_mq_send [mq, 1] msg status_ok)"

definition mq_receive :: "int \<Rightarrow> ('g, reply) prog" where
  "mq_receive mq = retry (sys SYS_mq_receive [mq] [] (in_ok 2))"

section \<open>The server\<close>

text \<open>The globals are \<open>sigint_rec\<close> and \<open>sigusr1_rec\<close>.\<close>

type_synonym shop = "int \<times> int"

definition pastry_sigint_handler :: "nat \<Rightarrow> shop \<Rightarrow> shop \<times> byte list list" where
  "pastry_sigint_handler sig g = ((1, snd g), [])"

definition pastry_sigusr1_handler :: "nat \<Rightarrow> shop \<Rightarrow> shop \<times> byte list list" where
  "pastry_sigusr1_handler sig g = ((fst g, snd g + 2), [])"

definition pastry_sethandler :: "'g handler \<Rightarrow> nat \<Rightarrow> ('g, unit) prog" where
  "pastry_sethandler f sigNo = bind_m (sys_sigaction sigNo f) (\<lambda>r.
     if r_val r = -1 then err_kill ''sigaction'' else ret ())"

definition initial_request :: "int \<Rightarrow> ('g, unit) prog" where
  "initial_request request_mq = loop_m (\<lambda>_. bind_m (mq_send request_mq [0, 0]) (\<lambda>r.
     if r_val r < 0 then bind_m get_errno (\<lambda>e. if e = EAGAIN then ret (Inl ()) else err_kill ''mq_send'')
     else ret (Inr ()))) ()"

definition get_rand_cookie :: "('g, byte list) prog" where
  "get_rand_cookie = bind_m rand_m (\<lambda>a. bind_m rand_m (\<lambda>b.
     ret [word_of_int (a mod 11), word_of_int (and b 11)]))"

text \<open>\<open>while (sigusr1_rec--)\<close>: the counter is decremented by the test, also when it ends the loop.\<close>

definition sigusr1_add :: "int \<Rightarrow> (shop, unit) prog" where
  "sigusr1_add cookie_mq = loop_m (\<lambda>_. bind_m get_glob (\<lambda>g. bind_m (set_glob (fst g, snd g - 1)) (\<lambda>_.
     if snd g = 0 then ret (Inr ())
     else bind_m (mq_send cookie_mq [1, 2]) (\<lambda>r.
       if r_val r < 0 then bind_m get_errno (\<lambda>e.
         if e = EAGAIN then bind_m get_glob (\<lambda>g. bind_m (set_glob (fst g, 0)) (\<lambda>_. ret (Inr ())))
         else err_kill ''mq_send'')
       else bind_m (printf (str ''Added SIGUSR1 cookie'' @ [10])) (\<lambda>_. ret (Inl ())))))) ()"

definition random_add :: "int \<Rightarrow> ('g, unit) prog" where
  "random_add cookie_mq = bind_m get_rand_cookie (\<lambda>cookie. bind_m (mq_send cookie_mq cookie) (\<lambda>r.
     if r_val r < 0 then bind_m get_errno (\<lambda>e. if e \<noteq> EAGAIN then err_kill ''mq_send'' else ret ())
     else ret ()))"

definition serve_requests :: "int \<Rightarrow> int \<Rightarrow> ('g, unit) prog" where
  "serve_requests request_mq cookie_mq = loop_m (\<lambda>_. bind_m (mq_receive request_mq) (\<lambda>r.
     if r_val r < 0 then bind_m get_errno (\<lambda>e. if e = EAGAIN then ret (Inr ()) else err_kill ''mq_recieve'')
     else bind_m (random_add cookie_mq) (\<lambda>_. ret (Inl ())))) ()"

definition pastry_open :: "string \<Rightarrow> ('g, int) prog" where
  "pastry_open name = bind_m (retry (sys SYS_mq_open [10, 2] (str name) fd_ok)) (\<lambda>r.
     if r_val r = -1 then err_kill ''mq_open'' else ret (r_val r))"

definition pastry_serve :: "int \<Rightarrow> int \<Rightarrow> (shop, unit) prog" where
  "pastry_serve request_mq cookie_mq = loop_m (\<lambda>_. bind_m get_glob (\<lambda>g.
     if fst g \<noteq> 0 then ret (Inr ())
     else bind_m (if snd g > 0 then sigusr1_add cookie_mq else ret ()) (\<lambda>_.
       bind_m (serve_requests request_mq cookie_mq) (\<lambda>_. ret (Inl ()))))) ()"

definition pastry_server_main :: "(shop, int) prog" where
  "pastry_server_main =
     bind_m (sys SYS_getpid [] [] any_ok) (\<lambda>p. bind_m (sys SYS_time [] [] any_ok) (\<lambda>t.
     bind_m (sys SYS_srand [r_val p * r_val t] [] any_ok) (\<lambda>_.
     bind_m (pastry_sethandler (Handler pastry_sigint_handler) SIGINT) (\<lambda>_.
     bind_m (pastry_sethandler (Handler pastry_sigusr1_handler) SIGUSR1) (\<lambda>_.
     bind_m (pastry_open ''/request_queue'') (\<lambda>request_mq.
     bind_m (pastry_open ''/cookie_queue'') (\<lambda>cookie_mq.
     bind_m (sys SYS_getpid [] [] any_ok) (\<lambda>p.
     bind_m (printf (str ''server active on pid: '' @ fmt_d (r_val p) @ [10])) (\<lambda>_.
     bind_m (initial_request request_mq) (\<lambda>_.
     bind_m (pastry_serve request_mq cookie_mq) (\<lambda>_.
     bind_m (printf ([10] @ str ''Goodbye'' @ [10])) (\<lambda>_.
     bind_m (sys SYS_mq_close [request_mq] [] status_ok) (\<lambda>_.
     bind_m (sys SYS_mq_close [cookie_mq] [] status_ok) (\<lambda>_.
     bind_m (sys SYS_mq_unlink [] (str ''/request_queue'') status_ok) (\<lambda>a.
     if r_val a \<noteq> 0 then err_kill ''mq_unlink'' else
     bind_m (sys SYS_mq_unlink [] (str ''/cookie_queue'') status_ok) (\<lambda>b.
     if r_val b \<noteq> 0 then err_kill ''mq_unlink'' else ret 0))))))))))))))))"

section \<open>The client\<close>

definition add_request :: "int \<Rightarrow> ('g, unit) prog" where
  "add_request request_mq = bind_m (mq_send request_mq [0, 0]) (\<lambda>r.
     if r_val r < 0 then bind_m get_errno (\<lambda>e. if e = EAGAIN then ret () else err_kill ''mq_send'')
     else ret ())"

definition nothing_line :: "int \<Rightarrow> byte list" where
  "nothing_line pid = str ''['' @ fmt_d pid @ str ''] Nichts f'' @ [195, 188] @ str ''r mich'' @ [10]"

text \<open>A plain \<open>char\<close> is signed.\<close>

definition cookie_line :: "int \<Rightarrow> byte list \<Rightarrow> byte list" where
  "cookie_line pid cookie = str ''['' @ fmt_d pid @ str ''] got '' @ fmt_d (sint (cookie ! 0)) @ str '', '' @
     fmt_d (sint (cookie ! 1)) @ [10]"

text \<open>The loop of \<open>main\<close>; its state is \<open>fail_count\<close> and the uninitialised array \<open>cookie\<close>.\<close>

definition client_turn :: "int \<Rightarrow> int \<Rightarrow> int \<Rightarrow> nat \<times> byte list \<Rightarrow> ('g, nat \<times> byte list + unit) prog" where
  "client_turn pid request_mq cookie_mq = (\<lambda>(fail_count, cookie).
     if \<not> fail_count < 3 then ret (Inr ())
     else bind_m (mq_receive cookie_mq) (\<lambda>r.
       bind_m (if r_val r < 0 then bind_m get_errno (\<lambda>e.
           if e = EAGAIN then
             bind_m (printf (nothing_line pid)) (\<lambda>_. bind_m (add_request request_mq) (\<lambda>_.
             ret (fail_count + 1, cookie)))
           else err_kill ''mq_recieve'')
         else let cookie = put_at 0 (r_data r) cookie in
           bind_m (printf (cookie_line pid cookie)) (\<lambda>_. ret (0, cookie))) (\<lambda>s.
       bind_m (sys SYS_sleep [1] [] any_ok) (\<lambda>_. ret (Inl s)))))"

definition pastry_client_open :: "string \<Rightarrow> ('g, int) prog" where
  "pastry_client_open name = bind_m (retry (sys SYS_mq_open [] (str name) fd_ok)) (\<lambda>r.
     if r_val r = -1 then err_kill ''mq_open'' else ret (r_val r))"

definition pastry_client_main :: "byte list \<Rightarrow> ('g, int) prog" where
  "pastry_client_main junk =
     bind_m (sys SYS_getpid [] [] any_ok) (\<lambda>p. let pid = r_val p in
     bind_m (sys SYS_sleep [1] [] any_ok) (\<lambda>_.
     bind_m (pastry_client_open ''/request_queue'') (\<lambda>request_mq.
     bind_m (pastry_client_open ''/cookie_queue'') (\<lambda>cookie_mq.
     bind_m (loop_m (client_turn pid request_mq cookie_mq) (0, junk)) (\<lambda>_.
     bind_m (printf (str ''['' @ fmt_d pid @ str ''] Auf wiedersehen'' @ [10])) (\<lambda>_.
     bind_m (sys SYS_mq_close [request_mq] [] status_ok) (\<lambda>_.
     bind_m (sys SYS_mq_close [cookie_mq] [] status_ok) (\<lambda>_.
     ret 0))))))))"

section \<open>What the client has seen\<close>

text \<open>The answers to its polls (\<open>None\<close>: no cookie), the number of requests it tried to place.\<close>

fun poll1 :: "event \<Rightarrow> byte list option list" where
  "poll1 (Sys n a p r) =
     (if n \<noteq> SYS_mq_receive \<or> r_val r = -1 \<and> r_errno r = EINTR then []
      else if r_val r < 0 then [None] else [Some (r_data r)])"
| "poll1 _ = []"

fun request1 :: "event \<Rightarrow> nat" where
  "request1 (Sys n a p r) = (if n = SYS_mq_send \<and> \<not> (r_val r = -1 \<and> r_errno r = EINTR) then 1 else 0)"
| "request1 _ = 0"

definition polls :: "event list \<Rightarrow> byte list option list" where
  "polls tr = concat (map poll1 tr)"

definition requests :: "event list \<Rightarrow> nat" where
  "requests tr = sum_list (map request1 tr)"

lemma polls_simps [simp]: "polls [] = []" "polls (xs @ ys) = polls xs @ polls ys" "polls (e # xs) = poll1 e @ polls xs"
  by (simp_all add: polls_def)

lemma requests_simps [simp]: "requests [] = 0" "requests (xs @ ys) = requests xs + requests ys"
  "requests (e # xs) = request1 e + requests xs"
  by (simp_all add: requests_def)

text \<open>How many polls at the end found nothing; what is printed for a sequence of polls.\<close>

definition in_a_row :: "'a option list \<Rightarrow> nat" where
  "in_a_row ps = length (takeWhile (\<lambda>x. x = None) (rev ps))"

fun client_text :: "int \<Rightarrow> byte list \<Rightarrow> byte list option list \<Rightarrow> byte list" where
  "client_text pid cookie [] = []"
| "client_text pid cookie (None # ps) = nothing_line pid @ client_text pid cookie ps"
| "client_text pid cookie (Some d # ps) =
     cookie_line pid (put_at 0 d cookie) @ client_text pid (put_at 0 d cookie) ps"

fun cookie_after :: "byte list \<Rightarrow> byte list option list \<Rightarrow> byte list" where
  "cookie_after cookie [] = cookie"
| "cookie_after cookie (None # ps) = cookie_after cookie ps"
| "cookie_after cookie (Some d # ps) = cookie_after (put_at 0 d cookie) ps"

lemma client_text_append: "client_text pid c (ps @ qs) = client_text pid c ps @ client_text pid (cookie_after c ps) qs"
  by (induction pid c ps rule: client_text.induct) simp_all

lemma cookie_after_append: "cookie_after c (ps @ qs) = cookie_after (cookie_after c ps) qs"
  by (induction c ps rule: cookie_after.induct) simp_all

lemma in_a_row_simps [simp]: "in_a_row [] = 0" "in_a_row (ps @ [None]) = Suc (in_a_row ps)" "in_a_row (ps @ [Some d]) = 0"
  by (simp_all add: in_a_row_def)

definition saw :: "byte list option list \<Rightarrow> byte list \<Rightarrow> nat \<Rightarrow> 'g world \<Rightarrow> bool" where
  "saw ps out q w \<longleftrightarrow> quiet_sig w \<and> polls (trace w) = ps \<and> printed (trace w) = out \<and> requests (trace w) = q"

definition decent :: "halt \<Rightarrow> bool" where
  "decent h \<longleftrightarrow> h \<noteq> Undef \<and> h \<noteq> Spin"

lemma decent_simps [simp]: "decent (Exit c)" "decent Blocked" "decent (Killed s)"
  by (simp_all add: decent_def)

lemma wp_saw_sys:
  assumes "saw ps out q w"
    and "\<And>r w1. good r \<Longrightarrow> saw (ps @ poll1 (Sys n args p r)) out (q + request1 (Sys n args p r)) w1 \<Longrightarrow>
      (r_val r = -1 \<longrightarrow> werrno w1 = r_errno r) \<Longrightarrow> length (script w1) < length (script w) \<Longrightarrow> Q r w1"
  shows "wp (sys n args p good) Q (\<lambda>h w1. decent h) w"
  by (rule wp_sys_quiet) (use assms in \<open>auto simp: saw_def\<close>)

lemma saw_printf: "saw ps out q w \<Longrightarrow> saw ps (out @ b) q (w\<lparr>trace := trace w @ [Out b]\<rparr>)"
  by (simp add: saw_def quiet_sig_def)

text \<open>A retried call: its interrupted attempts count for nothing.\<close>

lemma wp_saw_retry:
  assumes "saw ps out q w" "\<And>r. good r \<Longrightarrow> -1 \<le> r_val r" "n = SYS_mq_receive \<or> n = SYS_mq_send \<or> n = SYS_mq_open"
    and "\<And>r w1. good r \<Longrightarrow>
      saw (if n = SYS_mq_receive then ps @ [if r_val r = -1 then None else Some (r_data r)] else ps) out
        (if n = SYS_mq_send then q + 1 else q) w1 \<Longrightarrow>
      (r_val r = -1 \<longrightarrow> werrno w1 = r_errno r) \<Longrightarrow> length (script w1) < length (script w) \<Longrightarrow> Q r w1"
  shows "wp (retry (sys n args p good)) Q (\<lambda>h w1. decent h) w"
proof (rule wp_retry [where I = "\<lambda>v. saw ps out q v \<and> length (script v) \<le> length (script w)"])
  fix v :: "'a world" assume v: "saw ps out q v \<and> length (script v) \<le> length (script w)"
  show "wp (sys n args p good) (\<lambda>r w1. if r_val r = -1 \<and> werrno w1 = EINTR
      then (saw ps out q w1 \<and> length (script w1) \<le> length (script w)) \<and> length (script w1) < length (script v)
      else Q r w1) (\<lambda>h w1. decent h) v"
    by (rule wp_saw_sys [where ps = ps and out = out and q = q])
      (use v assms(2-4) in \<open>force split: if_splits\<close>)+
qed (use assms(1) in simp)

definition client_inv :: "int \<Rightarrow> byte list \<Rightarrow> nat \<times> byte list \<Rightarrow> 'g world \<Rightarrow> bool" where
  "client_inv pid junk = (\<lambda>(f, cookie) w. \<exists>ps. saw ps (client_text pid junk ps) (length (filter (\<lambda>x. x = None) ps)) w \<and>
     f = in_a_row ps \<and> f \<le> 3 \<and> cookie = cookie_after junk ps \<and> (\<forall>k < length ps. in_a_row (take k ps) < 3))"

lemma wp_add_request:
  assumes "saw ps out q w"
    and "\<And>w1. saw ps out (q + 1) w1 \<Longrightarrow> length (script w1) < length (script w) \<Longrightarrow> Q () w1"
  shows "wp (add_request mq) Q (\<lambda>h w1. decent h) w"
proof -
  have "wp (mq_send mq [0, 0]) (\<lambda>r. wp (if r_val r < 0 then bind_m get_errno (\<lambda>e. if e = EAGAIN then ret () else err_kill ''mq_send'')
      else ret ()) Q (\<lambda>h w1. decent h)) (\<lambda>h w1. decent h) w"
    unfolding mq_send_def
    by (rule wp_saw_retry [OF assms(1)]) (use assms(2) in \<open>auto simp: status_ok_def wp_rules\<close>)
  then show ?thesis by (simp add: add_request_def wp_bind)
qed

lemma wp_bind_fun: "wp (bind_m m f) Q E = wp m (\<lambda>a. wp (f a) Q E) E"
  by (rule ext) (rule wp_bind)

lemma wp_client_turn:
  fixes w :: "'g world"
  assumes "client_inv pid junk s w"
  shows "wp (client_turn pid rq cq s) (\<lambda>x w1. case x of
       Inl s1 \<Rightarrow> client_inv pid junk s1 w1 \<and> length (script w1) < length (script w)
     | Inr u \<Rightarrow> client_inv pid junk s w1 \<and> fst s = 3) (\<lambda>h w1. decent h) w"
proof -
  obtain f cookie where s: "s = (f, cookie)" by fastforce
  obtain ps where ps: "saw ps (client_text pid junk ps) (length (filter (\<lambda>x. x = None) ps)) w" "f = in_a_row ps" "f \<le> 3"
    "cookie = cookie_after junk ps" "\<forall>k < length ps. in_a_row (take k ps) < 3"
    using assms by (auto simp: client_inv_def s)
  show ?thesis
  proof (cases "f < 3")
    case False
    then show ?thesis using assms ps(3) by (simp add: client_turn_def s wp_ret)
  next
    case True
    let ?Q = "\<lambda>(x :: nat \<times> byte list + unit) w1. case x of
       Inl s1 \<Rightarrow> client_inv pid junk s1 w1 \<and> length (script w1) < length (script w)
     | Inr u \<Rightarrow> client_inv pid junk s w1 \<and> fst s = 3"
    have earlier: "in_a_row (take k (ps @ [x])) < 3" if "k < length (ps @ [x])" for k x
      using that ps(2,5) True by (cases "k = length ps") auto
    have nap: "wp (bind_m (sys SYS_sleep [1] [] any_ok) (\<lambda>_. ret (Inl s1))) ?Q (\<lambda>h w1. decent h) w1"
      if "saw (ps @ [x]) (client_text pid junk (ps @ [x])) (length (filter (\<lambda>x. x = None) (ps @ [x]))) w1"
        "s1 = (in_a_row (ps @ [x]), cookie_after junk (ps @ [x]))" "length (script w1) < length (script w)" for s1 x w1
      unfolding wp_bind
      apply (rule wp_saw_sys [OF that(1)])
      subgoal premises prems for r w2
      proof -
        have "in_a_row (ps @ [x]) \<le> 3" using ps(2) True by (cases x) simp_all
        then have "client_inv pid junk s1 w2"
          unfolding client_inv_def that(2) using prems(2) earlier by (auto intro!: exI [of _ "ps @ [x]"])
        then show ?thesis using prems(4) that(3) by (simp add: wp_ret)
      qed
      done
    show ?thesis
      unfolding client_turn_def s case_prod_conv mq_receive_def if_not_P [OF not_not [THEN iffD2, OF True]] wp_bind
    proof (rule wp_saw_retry [OF ps(1)], goal_cases)
      case (3 r w1)
      show ?case
      proof (cases "r_val r < 0")
        case True
        then have neg: "r_val r = -1" using 3(1) by (auto simp: in_ok_def)
        then have w1: "saw (ps @ [None]) (client_text pid junk ps) (length (filter (\<lambda>x. x = None) ps)) w1"
          "length (script w1) < length (script w)" using 3 by simp_all
        have asked: "wp (add_request rq) (\<lambda>_. wp (bind_m (sys SYS_sleep [1] [] any_ok) (\<lambda>_. ret (Inl (f + 1, cookie)))) ?Q (\<lambda>h w1. decent h))
            (\<lambda>h w1. decent h) (w1\<lparr>trace := trace w1 @ [Out (nothing_line pid)]\<rparr>)"
          by (rule wp_add_request [OF saw_printf [OF w1(1)]], rule nap [of None])
            (use ps w1(2) in \<open>simp_all add: client_text_append cookie_after_append\<close>)
        show ?thesis using neg asked
          by (simp add: wp_rules wp_ret_fun wp_bind_fun s)
      next
        case False
        then have w1: "saw (ps @ [Some (r_data r)]) (client_text pid junk ps) (length (filter (\<lambda>x. x = None) ps)) w1"
          "length (script w1) < length (script w)" using 3 by (simp_all split: if_splits)
        let ?c = "put_at 0 (r_data r) cookie"
        have "wp (bind_m (sys SYS_sleep [1] [] any_ok) (\<lambda>_. ret (Inl (0, ?c)))) ?Q (\<lambda>h w1. decent h)
            (w1\<lparr>trace := trace w1 @ [Out (cookie_line pid ?c)]\<rparr>)"
          by (rule nap [of "Some (r_data r)"])
            (use saw_printf [OF w1(1)] ps w1(2) in \<open>simp_all add: client_text_append cookie_after_append\<close>)
        then show ?thesis using False by (simp add: wp_rules wp_ret_fun wp_bind_fun s Let_def)
      qed
    qed (auto simp: in_ok_def)
  qed
qed

text \<open>
  Property C40. A client that ends, whatever the server and the other clients do, ends because exactly
  its last three polls found no cookie, three in a row for the first time; it has tried to
  place one request per disappointment; and it has printed, poll by poll, the disappointment
  or the cookie, and the farewell. It has no undefined behaviour.
\<close>

theorem pastry_client_leaves:
  assumes "quiet_sig w" "trace w = []"
  shows "case pastry_client_main junk w of
      (Ret v, w1) \<Rightarrow> v = 0 \<and> (let ps = polls (trace w1) in
        in_a_row ps = 3 \<and> (\<forall>k < length ps. in_a_row (take k ps) < 3) \<and>
        requests (trace w1) = length (filter (\<lambda>p. p = None) ps) \<and>
        (\<exists>pid. printed (trace w1) = client_text pid junk ps @ str ''['' @ fmt_d pid @ str ''] Auf wiedersehen'' @ [10]))
    | (Halt h, w1) \<Rightarrow> h \<noteq> Undef \<and> h \<noteq> Spin"
proof -
  let ?Q = "\<lambda>v w1. v = 0 \<and> (let ps = polls (trace w1) in
        in_a_row ps = 3 \<and> (\<forall>k < length ps. in_a_row (take k ps) < 3) \<and>
        requests (trace w1) = length (filter (\<lambda>p. p = None) ps) \<and>
        (\<exists>pid. printed (trace w1) = client_text pid junk ps @ str ''['' @ fmt_d pid @ str ''] Auf wiedersehen'' @ [10]))"
  have turns: "wp (loop_m (client_turn pid rq cq) (0, junk)) (\<lambda>_ w1. \<exists>c. client_inv pid junk (3, c) w1) (\<lambda>h w1. decent h) w1"
    if "saw [] [] 0 w1" for pid rq cq and w1 :: "'a world"
  proof (rule wp_loop [where I = "client_inv pid junk"])
    show "client_inv pid junk (0, junk) w1" using that
      by (auto simp: client_inv_def intro!: exI [of _ "[]"])
    fix s and w2 :: "'a world" assume "client_inv pid junk s w2"
    from wp_client_turn [OF this]
    show "wp (client_turn pid rq cq s) (\<lambda>x w3. case x of
         Inl s1 \<Rightarrow> client_inv pid junk s1 w3 \<and> length (script w3) < length (script w2)
       | Inr r \<Rightarrow> \<exists>c. client_inv pid junk (3, c) w3) (\<lambda>h w1. decent h) w2"
      by (rule wp_mono) (cases s, auto split: sum.splits)
  qed
  have start: "saw [] [] 0 w" using assms by (simp add: saw_def)
  have opened: "wp (pastry_client_open name) R (\<lambda>h w1. decent h) w1"
    if "saw [] [] 0 w1" "\<And>v w2. saw [] [] 0 w2 \<Longrightarrow> R v w2" for name R and w1 :: "'a world"
  proof -
    have "wp (retry (sys SYS_mq_open [] (str name) fd_ok)) (\<lambda>r. wp (if r_val r = -1 then err_kill ''mq_open'' else ret (r_val r)) R
        (\<lambda>h w1. decent h)) (\<lambda>h w1. decent h) w1"
      by (rule wp_saw_retry [OF that(1)]) (use that(2) in \<open>auto simp: fd_ok_def wp_rules\<close>)
    then show ?thesis by (simp add: pastry_client_open_def wp_bind)
  qed
  have left: "wp (bind_m (printf (str ''['' @ fmt_d pid @ str ''] Auf wiedersehen'' @ [10])) (\<lambda>_.
     bind_m (sys SYS_mq_close [rq] [] status_ok) (\<lambda>_. bind_m (sys SYS_mq_close [cq] [] status_ok) (\<lambda>_. ret 0)))) ?Q
      (\<lambda>h w1. decent h) w1"
    if fin: "client_inv pid junk (3, c) w1" for pid rq cq c and w1 :: "'a world"
  proof -
    obtain ps where ps: "saw ps (client_text pid junk ps) (length (filter (\<lambda>x. x = None) ps)) w1" "3 = in_a_row ps"
      "\<forall>k < length ps. in_a_row (take k ps) < 3"
      using fin by (auto simp: client_inv_def)
    show ?thesis
      unfolding wp_bind wp_printf
      apply (rule wp_saw_sys [OF saw_printf [OF ps(1)]])
      apply (rule wp_saw_sys, assumption)
      using ps(2,3) by (auto simp: saw_def wp_ret Let_def)
  qed
  have "wp (pastry_client_main junk) ?Q (\<lambda>h w1. decent h) w"
    unfolding pastry_client_main_def Let_def
    unfolding wp_bind
    apply (rule wp_saw_sys [OF start])
    apply (rule wp_saw_sys, assumption)
    apply (rule opened, simp)
    apply (rule opened, assumption)
    apply (rule wp_mono, erule turns)
     apply (elim exE)
     apply (erule left [unfolded wp_bind Let_def])
    apply assumption
    done
  then show ?thesis by (auto simp: wp_def decent_def split: prod.splits outcome.splits)
qed

definition pastry_run :: "unit world" where
  "pastry_run = idle
     ([ok_reply 9, ok_reply 0, ok_reply 4, ok_reply 5] @
      [failed_reply EAGAIN, ok_reply 0, ok_reply 0, failed_reply EINTR, data_reply [3, 8], ok_reply 0] @
      concat (replicate 3 [failed_reply EAGAIN, failed_reply EINTR, failed_reply EAGAIN, ok_reply 0]) @
      [ok_reply 0, ok_reply 0]) ()"

lemma pastry_run_returns:
  "(case pastry_client_main [0, 0] pastry_run of
     (Ret v, w1) \<Rightarrow> polls (trace w1) = [None, Some [3, 8], None, None, None] | _ \<Rightarrow> False)"
  by code_simp

theorem pastry_client_leaves_witness:
  "\<exists>w1. pastry_client_main [0, 0] pastry_run = (Ret 0, w1) \<and> requests (trace w1) = 4"
proof -
  obtain v w1 where r: "pastry_client_main [0, 0] pastry_run = (Ret v, w1)"
    "polls (trace w1) = [None, Some [3, 8], None, None, None]"
    using pastry_run_returns by (auto split: prod.splits outcome.splits)
  have "quiet_sig pastry_run" "trace pastry_run = []"
    by (simp_all add: pastry_run_def idle_def quiet_sig_def)
  from pastry_client_leaves [OF this, of "[0, 0]"] r show ?thesis
    by (simp add: Let_def)
qed

section \<open>Cookies\<close>

text \<open>The first byte of a random cookie is a number up to 10, the second misses the bit of value 4.\<close>

lemma rand_cookie_second: "0 \<le> b \<Longrightarrow> and b 11 \<le> (11 :: int) \<and> and (and b 11) 4 = (0 :: int)"
  by (simp add: and.assoc)

text \<open>
  Two cookies are added for the first SIGUSR1, but the test that ends the loop leaves the
  counter at -1, so that a second SIGUSR1 adds one only.
\<close>

lemma sigusr1_counter:
  "(case sigusr1_add 5 (idle [ok_reply 0, ok_reply 0] (0, 2)) of
     (Ret u, w1) \<Rightarrow> glob w1 = (0, -1) \<and>
        (case sigusr1_add 5 (idle [ok_reply 0, ok_reply 0] (fst (pastry_sigusr1_handler SIGUSR1 (glob w1)))) of
           (Ret u, w2) \<Rightarrow> length (script w2) = 1 | _ \<Rightarrow> False)
   | _ \<Rightarrow> False)"
  by code_simp

end
