(* ===== verification/Newspaper.thy ===== *)
theory Newspaper
  imports BulkIO
begin

text \<open>
  The newspaper of \<open>L2_2_Graded\<close>: \<open>reporter.c\<close> sends up to five lines of its input as
  articles of twelve bytes through a message queue that holds three; \<open>editor.c\<close> collects ten
  articles and prints them as a page; SIGUSR1 puts the editor to sleep and wakes it.
\<close>

section \<open>The editor\<close>

text \<open>The globals are \<open>sigint_rec\<close> and \<open>sigusr1_rec\<close>.\<close>

type_synonym newsroom = "int \<times> int"

definition ARTICLE :: nat where "ARTICLE = 12"
definition PAGE :: nat where "PAGE = 12 * 10"

definition mq_close_unlink :: "int \<Rightarrow> byte list \<Rightarrow> ('g, unit) prog" where
  "mq_close_unlink qid name =
     bind_m (sys SYS_mq_close [qid] [] status_ok) (\<lambda>_.
     bind_m (sys SYS_mq_unlink [] (cstr name) status_ok) (\<lambda>u.
     if r_val u \<noteq> 0 then bind_m get_errno (\<lambda>e. if e \<noteq> ENOENT then err_kill ''mq_unlink'' else ret ())
     else ret ()))"

definition editor_sethandler :: "'g handler \<Rightarrow> nat \<Rightarrow> ('g, unit) prog" where
  "editor_sethandler f sigNo = bind_m (sys_sigaction sigNo f) (\<lambda>r.
     if r_val r = -1 then err_kill ''sigaction'' else ret ())"

definition editor_sigint_handler :: "nat \<Rightarrow> newsroom \<Rightarrow> newsroom \<times> byte list list" where
  "editor_sigint_handler sig g = ((1, snd g), [])"

definition editor_sigusr1_handler :: "nat \<Rightarrow> newsroom \<Rightarrow> newsroom \<times> byte list list" where
  "editor_sigusr1_handler sig g =
     (let v = (snd g + 1) smod 2 in
      ((fst g, v), [if v = 1 then str ''editor sleeps'' @ [10] else str ''editor reads'' @ [10]]))"

definition check_input :: "byte list list \<Rightarrow> ('g, unit) prog" where
  "check_input argv =
     (if length argv \<noteq> 2 then bind_m (printf (str ''Improper input'' @ [10])) (\<lambda>_. halt_m (Exit 1)) else ret ())"

definition open_create_queue :: "byte list \<Rightarrow> ('g, int) prog" where
  "open_create_queue name = bind_m (retry (sys SYS_mq_open [3, int ARTICLE] (cstr name) fd_ok)) (\<lambda>r.
     if r_val r = -1 then err_kill ''mq_open'' else ret (r_val r))"

text \<open>
  \<open>recieve_message\<close> into the array at offset \<open>off\<close>; writing outside the array is undefined.
\<close>

definition recieve_message :: "int \<Rightarrow> nat \<Rightarrow> byte list \<Rightarrow> nat \<Rightarrow> ('g, int \<times> byte list) prog" where
  "recieve_message qid off articles len =
     (if length articles < off + len then halt_m Undef
      else bind_m (retry (sys SYS_mq_receive [qid] [] (in_ok len))) (\<lambda>r.
        if r_val r < 0 then bind_m get_errno (\<lambda>e. if e = EAGAIN then ret (-1, articles) else err_kill ''mq_recieve'')
        else ret (0, put_at off (r_data r) articles)))"

definition print_buffer :: "byte list \<Rightarrow> ('g, unit) prog" where
  "print_buffer message = printf (message @ [10])"

text \<open>
  The loop of \<open>main\<close>; its state is \<open>(offset, articles)\<close>. While the editor sleeps the loop spins;
  a tick is the time in which signals may arrive.
\<close>

definition editor_turn :: "int \<Rightarrow> int \<times> byte list \<Rightarrow> (newsroom, int \<times> byte list + unit) prog" where
  "editor_turn qid = (\<lambda>(offset, articles). bind_m get_glob (\<lambda>g.
     if fst g \<noteq> 0 then ret (Inr ())
     else if snd g = 1 then bind_m (sys SYS_tick [] [] any_ok) (\<lambda>_. ret (Inl (offset, articles)))
     else if offset < 0 then halt_m Undef
     else bind_m (recieve_message qid (nat offset * 12) articles ARTICLE) (\<lambda>(res, articles).
       bind_m (if offset \<ge> 9 \<and> res = 0 then bind_m (print_buffer (take PAGE articles)) (\<lambda>_. ret (-1)) else ret offset) (\<lambda>offset.
       ret (Inl (if res = 0 then offset + 1 else offset, articles))))))"

definition editor_main :: "byte list \<Rightarrow> byte list list \<Rightarrow> (newsroom, int) prog" where
  "editor_main junk argv =
     bind_m (check_input argv) (\<lambda>_.
     bind_m (open_create_queue (argv ! 1)) (\<lambda>qid.
     bind_m (sys SYS_getpid [] [] any_ok) (\<lambda>p.
     bind_m (printf (str ''Server stands on: '' @ fmt_d (r_val p) @ [10])) (\<lambda>_.
     bind_m (editor_sethandler (Handler editor_sigint_handler) SIGINT) (\<lambda>_.
     bind_m (editor_sethandler (Handler editor_sigusr1_handler) SIGUSR1) (\<lambda>_.
     bind_m (loop_m (editor_turn qid) (0, junk)) (\<lambda>_.
     bind_m (printf ([10] @ str ''terminating...'' @ [10])) (\<lambda>_.
     bind_m (mq_close_unlink qid (argv ! 1)) (\<lambda>_.
     ret 0)))))))))"

section \<open>The reporter\<close>

text \<open>
  \<open>c = getc(stdin)\<close>: the result is narrowed to a \<open>char\<close>, so the byte 255 looks like the end of
  the input.
\<close>

definition getc :: "byte list \<Rightarrow> byte \<times> byte list" where
  "getc inp = (case inp of [] \<Rightarrow> (255, []) | c # rest \<Rightarrow> (c, rest))"

definition ends_line :: "byte \<Rightarrow> bool" where
  "ends_line c \<longleftrightarrow> c = 255 \<or> c = 10"

fun clear_stdin :: "byte list \<Rightarrow> byte list" where
  "clear_stdin [] = []"
| "clear_stdin (c # inp) = (if ends_line c then inp else clear_stdin inp)"

text \<open>The second loop, from \<open>i\<close> on: it gives the result, the array and the rest of the input.\<close>

function read_article :: "nat \<Rightarrow> byte list \<Rightarrow> byte list \<Rightarrow> int \<times> byte list \<times> byte list" where
  "read_article i message inp =
     (if i < ARTICLE then
        case getc inp of (c, rest) \<Rightarrow>
          if ends_line c then (-1, message, rest) else read_article (i + 1) (message[i := c]) rest
      else (0, message, clear_stdin inp))"
  by pat_completeness auto
termination by (relation "measure (\<lambda>(i, m, inp). ARTICLE - i)") auto

declare read_article.simps [simp del]

definition read_from_stdin :: "byte list \<Rightarrow> int \<times> byte list \<times> byte list" where
  "read_from_stdin inp = read_article 0 (replicate ARTICLE 0) inp"

definition open_queue :: "byte list \<Rightarrow> ('g, int) prog" where
  "open_queue name = bind_m (retry (sys SYS_mq_open [] (cstr name) fd_ok)) (\<lambda>r.
     if r_val r = -1 then bind_m get_errno (\<lambda>e.
       if e = ENOENT then bind_m (printf (str ''No such queue exists, terminating...'' @ [10])) (\<lambda>_. halt_m (Exit 1))
       else err_kill ''mq_open'')
     else ret (r_val r))"

definition send_message :: "int \<Rightarrow> byte list \<Rightarrow> ('g, int) prog" where
  "send_message qid message = bind_m (retry (sys SYS_mq_send [qid, 1] message status_ok)) (\<lambda>r.
     if r_val r < 0 then bind_m get_errno (\<lambda>e. if e = EAGAIN then ret (-1) else err_kill ''mq_send'')
     else ret 0)"

fun reporter_loop :: "nat \<Rightarrow> int \<Rightarrow> byte list \<Rightarrow> ('g, byte list) prog" where
  "reporter_loop 0 qid inp = ret inp"
| "reporter_loop (Suc lines) qid inp =
     (case read_from_stdin inp of (res, message, rest) \<Rightarrow>
        bind_m (printf (str ''Sending to editor: '')) (\<lambda>_.
        bind_m (print_buffer message) (\<lambda>_.
        bind_m (printf [10]) (\<lambda>_.
        bind_m (send_message qid message) (\<lambda>s.
        if s = -1 then bind_m (printf (str ''I am going to antoher newspaper!'' @ [10])) (\<lambda>_. reporter_loop 0 qid rest)
        else reporter_loop lines qid rest)))))"

definition reporter_main :: "byte list list \<Rightarrow> byte list \<Rightarrow> ('g, int) prog" where
  "reporter_main argv inp =
     bind_m (check_input argv) (\<lambda>_.
     bind_m (open_queue (argv ! 1)) (\<lambda>qid.
     bind_m (printf (str ''Connection successful'' @ [10])) (\<lambda>_.
     bind_m (reporter_loop 5 qid inp) (\<lambda>_.
     bind_m (sys SYS_mq_close [qid] [] status_ok) (\<lambda>_.
     ret 0)))))"

section \<open>What is an article\<close>

lemma read_article_length [simp]: "length (fst (snd (read_article i m inp))) = length m"
  by (induction i m inp rule: read_article.induct) (subst read_article.simps, simp split: prod.splits)

lemma clear_stdin_line: "list_all (\<lambda>c. \<not> ends_line c) l \<Longrightarrow> clear_stdin (l @ 10 # rest) = rest"
  by (induction l) (auto simp: ends_line_def)

text \<open>
  A line of the input becomes its first twelve bytes, filled up with zeros, and is consumed
  with its end; the result tells whether it had twelve.
\<close>

lemma read_article_line:
  "list_all (\<lambda>c. \<not> ends_line c) l \<Longrightarrow> i \<le> ARTICLE \<Longrightarrow> length done_part = i \<Longrightarrow>
   read_article i (done_part @ replicate (ARTICLE - i) 0) (l @ 10 # rest) =
     (if ARTICLE - i \<le> length l then 0 else -1,
      done_part @ take (ARTICLE - i) l @ replicate (ARTICLE - i - length l) 0, rest)"
proof (induction l arbitrary: i done_part)
  case Nil
  then show ?case by (subst read_article.simps) (auto simp: getc_def ends_line_def)
next
  case (Cons c l)
  show ?case
  proof (cases "i < ARTICLE")
    case True
    then obtain n where n: "ARTICLE - i = Suc n" "ARTICLE - Suc i = n" by (metis Suc_diff_Suc)
    have "read_article (i + 1) ((done_part @ [c]) @ replicate n 0) (l @ 10 # rest) =
        (if n \<le> length l then 0 else -1, (done_part @ [c]) @ take n l @ replicate (n - length l) 0, rest)"
      using Cons.IH [of "i + 1" "done_part @ [c]"] Cons.prems True n by simp
    moreover have "(done_part @ replicate (Suc n) 0)[i := c] = (done_part @ [c]) @ replicate n 0"
      using Cons.prems(3) by (simp add: list_update_append)
    ultimately show ?thesis using Cons.prems True n
      by (subst read_article.simps) (simp add: getc_def del: replicate_Suc)
  next
    case False
    then show ?thesis using Cons.prems clear_stdin_line [of "c # l" rest]
      by (subst read_article.simps) simp
  qed
qed

lemma read_from_stdin_line:
  "list_all (\<lambda>c. \<not> ends_line c) l \<Longrightarrow>
   read_from_stdin (l @ 10 # rest) =
     (if ARTICLE \<le> length l then 0 else -1, take ARTICLE l @ replicate (ARTICLE - length l) 0, rest)"
  using read_article_line [of l 0 "[]" rest] by (simp add: read_from_stdin_def)

section \<open>Pages\<close>

text \<open>The messages the editor has received, the pages it has printed (the outputs of a page's length).\<close>

fun message1 :: "event \<Rightarrow> byte list list" where
  "message1 (Sys n a p r) = (if n = SYS_mq_receive \<and> 0 \<le> r_val r then [r_data r] else [])"
| "message1 _ = []"

fun page1 :: "event \<Rightarrow> byte list list" where
  "page1 (Out b) = (if length b = PAGE + 1 then [b] else [])"
| "page1 _ = []"

definition messages :: "event list \<Rightarrow> byte list list" where
  "messages tr = concat (map message1 tr)"

definition pages :: "event list \<Rightarrow> byte list list" where
  "pages tr = concat (map page1 tr)"

lemma news_simps [simp]:
  "messages [] = []" "messages (xs @ ys) = messages xs @ messages ys" "messages (e # xs) = message1 e @ messages xs"
  "pages [] = []" "pages (xs @ ys) = pages xs @ pages ys" "pages (e # xs) = page1 e @ pages xs"
  by (simp_all add: messages_def pages_def)

definition no_page :: "byte list \<Rightarrow> bool" where
  "no_page b \<longleftrightarrow> length b \<noteq> PAGE + 1"

lemma handler_news [simp]:
  "messages (map Out outs) = []" "list_all no_page outs \<Longrightarrow> pages (map Out outs) = []"
  by (induction outs) (simp_all add: no_page_def)

text \<open>The pages that a sequence of articles fills.\<close>

definition pages_of :: "byte list list \<Rightarrow> byte list list" where
  "pages_of ms = map (\<lambda>k. concat (take 10 (drop (10 * k) ms))) [0..<length ms div 10]"

definition open_page :: "byte list list \<Rightarrow> byte list list" where
  "open_page ms = drop (10 * (length ms div 10)) ms"

lemma length_open_page: "length (open_page ms) = length ms mod 10"
  by (simp add: open_page_def minus_mult_div_eq_mod)

lemma pages_of_snoc:
  "pages_of (ms @ [m]) =
     (if length ms mod 10 = 9 then pages_of ms @ [concat (open_page ms @ [m])] else pages_of ms)"
  "open_page (ms @ [m]) = (if length ms mod 10 = 9 then [] else open_page ms @ [m])"
proof -
  let ?q = "length ms div 10"
  have old: "take 10 (drop (10 * k) (ms @ [m])) = take 10 (drop (10 * k) ms)" if "k < ?q" for k
  proof -
    have "10 * k + 10 \<le> length ms" using that by linarith
    then show ?thesis by simp
  qed
  have q: "Suc (length ms) div 10 = (if length ms mod 10 = 9 then Suc ?q else ?q)" by presburger
  have "10 * ?q \<le> length ms" by simp
  moreover have "length ms mod 10 = 9 \<Longrightarrow> length ms = 10 * ?q + 9" by presburger
  ultimately show "pages_of (ms @ [m]) =
     (if length ms mod 10 = 9 then pages_of ms @ [concat (open_page ms @ [m])] else pages_of ms)"
    "open_page (ms @ [m]) = (if length ms mod 10 = 9 then [] else open_page ms @ [m])"
    using old by (auto simp: pages_of_def open_page_def q)
qed

definition edition :: "event list \<Rightarrow> bool" where
  "edition tr \<longleftrightarrow> (list_all (\<lambda>m. length m = ARTICLE) (messages tr) \<longrightarrow>
     pages tr = map (\<lambda>p. p @ [10]) (pages_of (messages tr)))"

definition news_halt :: "halt \<Rightarrow> newsroom world \<Rightarrow> bool" where
  "news_halt h w \<longleftrightarrow> h \<noteq> Undef \<and> h \<noteq> Spin \<and> edition (trace w)"

definition at_work :: "newsroom world \<Rightarrow> bool" where
  "at_work w \<longleftrightarrow> handlers_print no_page w \<and> edition (trace w)"

lemma wp_news_sys:
  assumes "at_work w"
    and "\<And>r w1. good r \<Longrightarrow> handlers_print no_page w1 \<Longrightarrow>
      messages (trace w1) = messages (trace w) @ message1 (Sys n args p r) \<Longrightarrow> pages (trace w1) = pages (trace w) \<Longrightarrow>
      (r_val r = -1 \<longrightarrow> werrno w1 = r_errno r) \<Longrightarrow> length (script w1) < length (script w) \<Longrightarrow> Q r w1"
  shows "wp (sys n args p good) Q (\<lambda>h w1. news_halt h w1) w"
  by (rule wp_sys_outs [where P = no_page])
    (use assms in \<open>auto simp: at_work_def news_halt_def edition_def\<close>)

lemma wp_news_other:
  assumes "at_work w" "n \<noteq> SYS_mq_receive"
    and "\<And>r w1. good r \<Longrightarrow> at_work w1 \<Longrightarrow> messages (trace w1) = messages (trace w) \<Longrightarrow>
      length (script w1) < length (script w) \<Longrightarrow> Q r w1"
  shows "wp (sys n args p good) Q (\<lambda>h w1. news_halt h w1) w"
  by (rule wp_news_sys [OF assms(1)]) (use assms in \<open>auto simp: at_work_def edition_def\<close>)

lemma wp_news_retry:
  assumes "at_work w" "\<And>r. good r \<Longrightarrow> -1 \<le> r_val r"
    and "\<And>r w1. good r \<Longrightarrow> handlers_print no_page w1 \<Longrightarrow>
      messages (trace w1) = messages (trace w) @ message1 (Sys n args p r) \<Longrightarrow> pages (trace w1) = pages (trace w) \<Longrightarrow>
      (r_val r = -1 \<longrightarrow> werrno w1 = r_errno r) \<Longrightarrow> length (script w1) < length (script w) \<Longrightarrow> Q r w1"
  shows "wp (retry (sys n args p good)) Q (\<lambda>h w1. news_halt h w1) w"
proof (rule wp_retry [where I = "\<lambda>v. at_work v \<and> messages (trace v) = messages (trace w) \<and>
      pages (trace v) = pages (trace w) \<and> length (script v) \<le> length (script w)"])
  fix v :: "newsroom world"
  assume v: "at_work v \<and> messages (trace v) = messages (trace w) \<and>
      pages (trace v) = pages (trace w) \<and> length (script v) \<le> length (script w)"
  then have "at_work v" by simp
  then show "wp (sys n args p good) (\<lambda>r w1. if r_val r = -1 \<and> werrno w1 = EINTR
      then (at_work w1 \<and> messages (trace w1) = messages (trace w) \<and>
        pages (trace w1) = pages (trace w) \<and> length (script w1) \<le> length (script w)) \<and> length (script w1) < length (script v)
      else Q r w1) (\<lambda>h w1. news_halt h w1) v"
    by (rule wp_news_sys) (use v assms(3) in \<open>auto simp: at_work_def edition_def\<close>)
qed (use assms(1) in simp)

text \<open>
  The articles of the open page stand at the start of the array, as long as all messages
  have the length of an article.
\<close>

definition editor_inv :: "int \<times> byte list \<Rightarrow> newsroom world \<Rightarrow> bool" where
  "editor_inv = (\<lambda>(offset, articles) w. at_work w \<and> 0 \<le> offset \<and> offset \<le> 9 \<and> length articles = PAGE \<and>
     (list_all (\<lambda>m. length m = ARTICLE) (messages (trace w)) \<longrightarrow>
        offset = int (length (messages (trace w)) mod 10) \<and>
        take (nat offset * 12) articles = concat (open_page (messages (trace w)))))"

lemma put_at_length: "off + length d \<le> length m \<Longrightarrow> length (put_at off d m) = length m"
  by (simp add: put_at_def)

lemma put_at_take: "off \<le> length m \<Longrightarrow> take (off + length d) (put_at off d m) = take off m @ d"
  by (simp add: put_at_def min_def)

lemma editor_inv_same:
  "editor_inv s w \<Longrightarrow> handlers_print no_page w1 \<Longrightarrow> messages (trace w1) = messages (trace w) \<Longrightarrow>
   pages (trace w1) = pages (trace w) \<Longrightarrow> editor_inv s w1"
  unfolding editor_inv_def at_work_def edition_def by (cases s) auto

text \<open>A received article extends the open page, or completes and prints it.\<close>

lemma article_arrives:
  assumes inv: "editor_inv (offset, articles) w" and m: "length d \<le> ARTICLE"
    and w1: "handlers_print no_page w1" "messages (trace w1) = messages (trace w) @ [d]" "pages (trace w1) = pages (trace w)"
    and tr: "trace w2 = trace w1 @ (if offset \<ge> 9 then [Out (put_at (nat offset * 12) d articles @ [10])] else [])"
    and w2: "sigact w2 = sigact w1"
  shows "editor_inv (if offset \<ge> 9 then 0 else offset + 1, put_at (nat offset * 12) d articles) w2"
proof -
  let ?ms = "messages (trace w)" let ?new = "put_at (nat offset * 12) d articles"
  have off: "0 \<le> offset" "offset \<le> 9" and len: "length articles = PAGE" and ed: "edition (trace w)"
    using inv by (simp_all add: editor_inv_def at_work_def)
  have fits: "nat offset * 12 + length d \<le> length articles" using off m by (simp add: len PAGE_def ARTICLE_def)
  have new: "length ?new = PAGE" using put_at_length [OF fits] len by simp
  have page: "length (?new @ [10]) = PAGE + 1" by (simp add: new)
  have ms2: "messages (trace w2) = ?ms @ [d]" using w1(2) tr by simp
  have pg2: "pages (trace w2) = pages (trace w) @ (if offset \<ge> 9 then [?new @ [10]] else [])"
    using w1(3) tr page by simp
  have hp: "handlers_print no_page w2" using w1(1) w2 by (simp add: handlers_print_def)
  show ?thesis
  proof (cases "list_all (\<lambda>m. length m = ARTICLE) (?ms @ [d])")
    case False
    then show ?thesis using off new hp ms2 by (auto simp: editor_inv_def at_work_def edition_def)
  next
    case True
    then have o: "offset = int (length ?ms mod 10)" and t: "take (nat offset * 12) articles = concat (open_page ?ms)"
      and d: "length d = 12" and pg: "pages (trace w) = map (\<lambda>p. p @ [10]) (pages_of ?ms)"
      using inv ed by (auto simp: editor_inv_def edition_def ARTICLE_def)
    have t2: "take (nat offset * 12 + 12) ?new = concat (open_page ?ms @ [d])"
      using put_at_take [of "nat offset * 12" articles d] fits d t by simp
    show ?thesis
    proof (cases "length ?ms mod 10 = 9")
      case True
      then have "nat offset * 12 + 12 = length ?new" using o new by (simp add: PAGE_def)
      then have "concat (open_page ?ms @ [d]) = ?new" using t2 by simp
      then have "pages (trace w2) = map (\<lambda>p. p @ [10]) (pages_of (?ms @ [d]))"
        using pg pg2 o True by (simp add: pages_of_snoc(1))
      moreover have "Suc (length ?ms) mod 10 = 0" using True by presburger
      ultimately show ?thesis using True o new hp ms2
        by (simp add: editor_inv_def at_work_def edition_def pages_of_snoc(2))
    next
      case False
      then have "Suc (length ?ms) mod 10 = Suc (length ?ms mod 10)" by presburger
      moreover have "\<not> offset \<ge> 9" using o False by presburger
      moreover have "nat (offset + 1) * 12 = nat offset * 12 + 12" using off by (simp add: nat_add_distrib)
      ultimately show ?thesis using False o off new hp ms2 pg pg2 t2
        by (simp add: editor_inv_def at_work_def edition_def pages_of_snoc)
    qed
  qed
qed

lemma wp_editor_turn:
  assumes "editor_inv s w"
  shows "wp (editor_turn qid s) (\<lambda>x w1. case x of
       Inl s1 \<Rightarrow> editor_inv s1 w1 \<and> length (script w1) < length (script w)
     | Inr u \<Rightarrow> at_work w1) (\<lambda>h w1. news_halt h w1) w"
proof -
  obtain offset articles where s: "s = (offset, articles)" by fastforce
  let ?Q = "\<lambda>(x :: int \<times> byte list + unit) w1. case x of
       Inl s1 \<Rightarrow> editor_inv s1 w1 \<and> length (script w1) < length (script w)
     | Inr u \<Rightarrow> at_work w1"
  have inv: "at_work w" "0 \<le> offset" "offset \<le> 9" "length articles = PAGE"
    using assms by (simp_all add: editor_inv_def s)
  have fits: "\<not> length articles < nat offset * 12 + ARTICLE" using inv by (simp add: PAGE_def ARTICLE_def)
  have sleeping: "wp (sys SYS_tick [] [] any_ok) (\<lambda>_. wp (ret (Inl s)) ?Q (\<lambda>h w1. news_halt h w1)) (\<lambda>h w1. news_halt h w1) w"
    by (rule wp_news_other [OF inv(1)]) (use assms in \<open>auto simp: wp_ret s editor_inv_def\<close>)
  let ?rest = "\<lambda>(res :: int, articles). bind_m (if offset \<ge> 9 \<and> res = 0 then bind_m (print_buffer (take PAGE articles)) (\<lambda>_. ret (-1)) else ret offset) (\<lambda>offset.
       ret (Inl (if res = 0 then offset + 1 else offset, articles)))"
  have receive: "wp (recieve_message qid (nat offset * 12) articles ARTICLE) (\<lambda>a. wp (?rest a) ?Q (\<lambda>h w1. news_halt h w1))
      (\<lambda>h w1. news_halt h w1) w"
    unfolding recieve_message_def if_not_P [OF fits] wp_bind
  proof (rule wp_news_retry [OF inv(1)], goal_cases)
    case (1 r)
    then show ?case by (auto simp: in_ok_def)
  next
    case (2 r w1)
    show ?case
    proof (cases "r_val r < 0")
      case True
      then have "editor_inv s w1"
        using editor_inv_same [OF assms 2(2)] 2(3,4) by simp
      moreover have "news_halt (Killed SIGKILL) (w1\<lparr>trace := trace w1 @ [Perror (str ''mq_recieve'') (werrno w1)]\<rparr>)"
        using \<open>editor_inv s w1\<close> by (simp add: news_halt_def editor_inv_def s at_work_def edition_def)
      ultimately show ?thesis using True 2(6) by (simp add: wp_rules s)
    next
      case False
      let ?new = "put_at (nat offset * 12) (r_data r) articles"
      have d: "length (r_data r) \<le> ARTICLE" using 2(1) False by (auto simp: in_ok_def)
      then have len: "length ?new = PAGE" using put_at_length [of "nat offset * 12" "r_data r" articles] inv(4) fits by simp
      have m: "messages (trace w1) = messages (trace w) @ [r_data r]" using 2(3) False by simp
      show ?thesis
      proof (cases "9 \<le> offset")
        case True
        have "editor_inv (0, ?new) (w1\<lparr>trace := trace w1 @ [Out (?new @ [10])]\<rparr>)"
          using article_arrives [of offset articles w "r_data r" w1 "w1\<lparr>trace := trace w1 @ [Out (?new @ [10])]\<rparr>"]
            assms d 2(2,4) m True by (simp add: s)
        then show ?thesis using False True 2(6) len inv(3) by (simp add: wp_rules print_buffer_def)
      next
        case nine: False
        have "editor_inv (offset + 1, ?new) w1"
          using article_arrives [of offset articles w "r_data r" w1 w1] assms d 2(2,4) m nine by (simp add: s)
        then show ?thesis using False nine 2(6) by (simp add: wp_rules)
      qed
    qed
  qed
  show ?thesis
    using inv sleeping receive
    by (auto simp: editor_turn_def s wp_bind wp_get_glob wp_ret)
qed

lemma at_work_event:
  "at_work w \<Longrightarrow> message1 e = [] \<Longrightarrow> page1 e = [] \<Longrightarrow> at_work (w\<lparr>trace := trace w @ [e]\<rparr>)"
  by (simp add: at_work_def handlers_print_def edition_def)

lemma at_work_halt: "at_work w \<Longrightarrow> h \<noteq> Undef \<Longrightarrow> h \<noteq> Spin \<Longrightarrow> news_halt h w"
  by (simp add: at_work_def news_halt_def)

lemma no_page_short: "length b < PAGE \<Longrightarrow> page1 (Out b) = []" "page1 (Perror s e) = []"
  by simp_all

lemma at_work_err:
  "at_work w \<Longrightarrow> wp (err_kill s) Q (\<lambda>h w1. news_halt h w1) w"
  by (simp add: wp_err_kill at_work_halt at_work_event)

lemma wp_editor_sethandler:
  assumes "at_work w" "\<And>s f g. h = Handler f \<Longrightarrow> list_all no_page (snd (f s g))"
    and "\<And>w1. at_work w1 \<Longrightarrow> messages (trace w1) = messages (trace w) \<Longrightarrow> Q () w1"
  shows "wp (editor_sethandler h s) Q (\<lambda>h w1. news_halt h w1) w"
  unfolding editor_sethandler_def sys_sigaction_def wp_bind
proof (rule wp_news_other [OF assms(1)], simp, goal_cases)
  case (1 r w1)
  have "at_work (w1\<lparr>sigact := (sigact w1)(s := h)\<rparr>)"
    using 1(2) assms(2) by (auto simp: at_work_def handlers_print_def)
  then show ?case using 1 assms(3)
    by (auto simp: wp_def [of "\<lambda>w. (Ret r, _ w)"] wp_ret intro: at_work_err)
qed

lemma editor_handlers_no_page:
  "list_all no_page (snd (editor_sigint_handler s g))" "list_all no_page (snd (editor_sigusr1_handler s g))"
  by (simp_all add: editor_sigint_handler_def editor_sigusr1_handler_def no_page_def PAGE_def str_def Let_def)

text \<open>
  Property C15. Whenever the editor stops or is killed, whatever signals came in between: if all messages
  it received were articles of twelve bytes, as a reporter sends them, then the pages it has
  printed are exactly the groups of ten consecutive messages, in their order. It never
  writes outside its array and never hangs without a system call.
\<close>

theorem editor_prints_pages:
  assumes "\<forall>s f. sigact w s \<noteq> Handler f" "trace w = []" "length junk = PAGE"
  shows "case editor_main junk argv w of (res, w1) \<Rightarrow>
    res \<noteq> Halt Undef \<and> res \<noteq> Halt Spin \<and>
    (list_all (\<lambda>m. length m = ARTICLE) (messages (trace w1)) \<longrightarrow>
       pages (trace w1) = map (\<lambda>p. p @ [10]) (pages_of (messages (trace w1))))"
proof -
  have start: "at_work w"
    using assms(1,2) by (simp add: at_work_def handlers_print_def edition_def pages_of_def)
  have loop: "wp (loop_m (editor_turn qid) (0, junk)) (\<lambda>_ w2. at_work w2) (\<lambda>h w2. news_halt h w2) w1"
    if w1: "at_work w1" "messages (trace w1) = []" for qid w1
  proof (rule wp_loop [where I = editor_inv])
    show "editor_inv (0, junk) w1" using w1 assms(3) by (simp add: editor_inv_def open_page_def)
    fix s and w2 :: "newsroom world" assume "editor_inv s w2"
    from wp_editor_turn [OF this]
    show "wp (editor_turn qid s) (\<lambda>x w3. case x of Inl s1 \<Rightarrow> editor_inv s1 w3 \<and> length (script w3) < length (script w2)
       | Inr r \<Rightarrow> at_work w3) (\<lambda>h w3. news_halt h w3) w2" .
  qed
  have input: "wp (check_input argv) R (\<lambda>h w1. news_halt h w1) w" if "R () w" for R
    using that start by (auto simp: check_input_def wp_rules str_def PAGE_def intro!: at_work_halt at_work_event)
  have queue: "wp (open_create_queue name) R (\<lambda>h w1. news_halt h w1) w"
    if "\<And>q w1. at_work w1 \<Longrightarrow> messages (trace w1) = [] \<Longrightarrow> R q w1" for name R
    unfolding open_create_queue_def wp_bind
    by (rule wp_news_retry [OF start])
      (use that start assms(2) in \<open>auto simp: fd_ok_def wp_ret at_work_def edition_def intro!: at_work_err\<close>)
  have greet: "wp (printf b) R (\<lambda>h w1. news_halt h w1) w1"
    if "at_work w1" "length b < PAGE" "\<And>w2. at_work w2 \<Longrightarrow> messages (trace w2) = messages (trace w1) \<Longrightarrow> R () w2" for b R w1
    using that by (simp add: wp_printf at_work_event)
  have close: "wp (mq_close_unlink qid name) R (\<lambda>h w1. news_halt h w1) w1"
    if "at_work w1" "\<And>w2. at_work w2 \<Longrightarrow> R () w2" for qid name R w1
    unfolding mq_close_unlink_def wp_bind
    by (rule wp_news_other [OF that(1)], simp, rule wp_news_other)
      (use that(2) in \<open>auto simp: wp_bind wp_get_errno wp_ret intro: at_work_err\<close>)
  have pid: "length (str ''Server stands on: '' @ fmt_d (r_val p) @ [10]) < PAGE" if "any_ok p" for p
    using fmt_d_length [of "r_val p"] that by (simp add: str_def any_ok_def PAGE_def)
  have "wp (editor_main junk argv) (\<lambda>_ w1. edition (trace w1)) (\<lambda>h w1. news_halt h w1) w"
    unfolding editor_main_def wp_bind
    apply (rule input)
    apply (rule queue)
    apply (rule wp_news_other, assumption, simp)
    apply (rule greet, assumption, erule pid)
    apply (rule wp_editor_sethandler, assumption, simp add: editor_handlers_no_page)
    apply (rule wp_editor_sethandler, assumption, simp add: editor_handlers_no_page)
    apply (rule wp_mono, rule loop, assumption, simp)
     apply (rule greet, assumption, simp add: str_def PAGE_def)
     apply (rule close, assumption)
     apply (simp add: wp_ret at_work_def)
    apply assumption
    done
  then show ?thesis by (auto simp: wp_def news_halt_def edition_def split: prod.splits outcome.splits)
qed

definition editor_run :: "newsroom world" where
  "editor_run = idle ([ok_reply 3, ok_reply 77, ok_reply 0, ok_reply 0, failed_reply EAGAIN] @
     map (\<lambda>i. data_reply (replicate 12 (of_nat i))) [1..<6] @ [failed_reply EINTR] @
     map (\<lambda>i. data_reply (replicate 12 (of_nat i))) [6..<12]) (0, 0)"

lemma editor_run_messages:
  "messages (trace (snd (editor_main (replicate 120 0) [[101], [47, 113]] editor_run))) =
     map (\<lambda>i. replicate 12 (of_nat i)) [1..<12]"
  by code_simp

theorem editor_prints_pages_witness:
  "pages (trace (snd (editor_main (replicate 120 0) [[101], [47, 113]] editor_run))) =
     [concat (map (\<lambda>i. replicate 12 (of_nat i)) [1..<11]) @ [10]]"
proof -
  obtain res w1 where r: "editor_main (replicate 120 0) [[101], [47, 113]] editor_run = (res, w1)" by fastforce
  have m: "messages (trace w1) = map (\<lambda>i. replicate 12 (of_nat i)) [1..<12]" using editor_run_messages r by simp
  have "\<forall>s f. sigact editor_run s \<noteq> Handler f" "trace editor_run = []" "length (replicate 120 (0 :: byte)) = PAGE"
    by (simp_all add: editor_run_def idle_def PAGE_def)
  from editor_prints_pages [OF this, of "[[101], [47, 113]]"]
  have "pages (trace w1) = map (\<lambda>p. p @ [10]) (pages_of (messages (trace w1)))"
    unfolding r by (simp add: m ARTICLE_def list_all_iff)
  moreover have "pages_of (map (\<lambda>i. replicate 12 (of_nat i :: byte)) [1..<12]) = [concat (map (\<lambda>i. replicate 12 (of_nat i)) [1..<11])]"
    by code_simp
  ultimately show ?thesis using r m by simp
qed

text \<open>The reporter takes the byte 255 for the end of its input: the line is cut there.\<close>

lemma read_from_stdin_255: "read_from_stdin [65, 255, 66, 10, 67] = (-1, 65 # replicate 11 0, [66, 10, 67])"
  by code_simp

end
