(* ===== verification/Championship.thy ===== *)
theory Championship
  imports Sockets Threads
begin

text \<open>
  \<open>L2_4_Graded/server.c\<close>: the server accepts four players, one thread each, and hands out the
  numbers 1 to 4 through one shared variable, a mutex and one condition variable; a barrier
  of five separates registration, hand-over and end. One step is one library call or one
  access to a shared variable.
\<close>

section \<open>State\<close>

definition CHAMP_LIMIT :: nat where "CHAMP_LIMIT = 4"
definition CHAMP_BACKLOG :: int where "CHAMP_BACKLOG = 3"

text \<open>
  The next call of a player's thread and of the main thread. Waiting at the barrier notes
  the generation at arrival; \<open>P_wait\<close> and \<open>A_wait\<close> are in the queue of the condition
  variable, \<open>P_relock\<close> and \<open>A_relock\<close> woken and about to lock the mutex again. The main
  thread carries the index of its loop.
\<close>

datatype player_pc =
    P_arrive1 | P_wait1 nat | P_self | P_lock | P_test | P_wait | P_relock | P_take | P_clear | P_bcast
  | P_unlock | P_arrive2 | P_wait2 nat | P_print | P_send | P_close | P_done

datatype boss_pc =
    A_arrive1 | A_wait1 nat | A_lock nat | A_set nat | A_bcast nat | A_test nat | A_wait nat | A_relock nat
  | A_unlock nat | A_arrive2 | A_wait2 nat | A_close | A_exit

record player =
  ppc :: player_pc
  psocket :: int
  pid :: nat

text \<open>The barrier: how many have arrived, how often it has opened.\<close>

record champ =
  players :: "player list"
  boss :: boss_pc
  id_pass :: nat
  mx :: mutex
  arrived :: nat
  opened :: nat
  announced :: "nat list"
  sent_to :: "int list"

definition set_player :: "nat \<Rightarrow> player_pc \<Rightarrow> champ \<Rightarrow> champ" where
  "set_player i p s = s\<lparr>players := (players s)[i := (players s ! i)\<lparr>ppc := p\<rparr>]\<rparr>"

text \<open>\<open>pthread_barrier_wait\<close>: the last to arrive opens the barrier and goes on at once.\<close>

definition last_arrival :: "champ \<Rightarrow> bool" where
  "last_arrival s \<longleftrightarrow> arrived s = CHAMP_LIMIT"

definition arrive_barrier :: "champ \<Rightarrow> champ" where
  "arrive_barrier s =
     (if last_arrival s then s\<lparr>arrived := 0, opened := opened s + 1\<rparr> else s\<lparr>arrived := arrived s + 1\<rparr>)"

text \<open>\<open>pthread_cond_broadcast\<close> wakes all who wait.\<close>

definition wake_player :: "player \<Rightarrow> player" where
  "wake_player p = (if ppc p = P_wait then p\<lparr>ppc := P_relock\<rparr> else p)"

definition wake_boss :: "boss_pc \<Rightarrow> boss_pc" where
  "wake_boss b = (case b of A_wait i \<Rightarrow> A_relock i | _ \<Rightarrow> b)"

definition broadcast :: "champ \<Rightarrow> champ" where
  "broadcast s = s\<lparr>players := map wake_player (players s), boss := wake_boss (boss s)\<rparr>"

section \<open>The threads\<close>

text \<open>\<open>threadfunc\<close> of player \<open>i\<close>. What \<open>send\<close> and \<open>close\<close> answer is not looked at.\<close>

definition champ_threadfunc :: "nat \<Rightarrow> champ \<Rightarrow> champ option" where
  "champ_threadfunc i s =
     (let p = players s ! i in
      case ppc p of
        P_arrive1 \<Rightarrow> Some (set_player i (if last_arrival s then P_self else P_wait1 (opened s)) (arrive_barrier s))
      | P_wait1 g \<Rightarrow> if opened s \<noteq> g then Some (set_player i P_self s) else None
      | P_self \<Rightarrow> Some (set_player i P_lock s)
      | P_lock \<Rightarrow> map_option (\<lambda>m. (set_player i P_test s)\<lparr>mx := m\<rparr>) (mx_lock i (mx s))
      | P_test \<Rightarrow> Some (if id_pass s = 0 then (set_player i P_wait s)\<lparr>mx := None\<rparr> else set_player i P_take s)
      | P_wait \<Rightarrow> None
      | P_relock \<Rightarrow> map_option (\<lambda>m. (set_player i P_test s)\<lparr>mx := m\<rparr>) (mx_lock i (mx s))
      | P_take \<Rightarrow> Some (s\<lparr>players := (players s)[i := p\<lparr>ppc := P_clear, pid := id_pass s\<rparr>]\<rparr>)
      | P_clear \<Rightarrow> Some ((set_player i P_bcast s)\<lparr>id_pass := 0\<rparr>)
      | P_bcast \<Rightarrow> Some (set_player i P_unlock (broadcast s))
      | P_unlock \<Rightarrow> map_option (\<lambda>m. (set_player i P_arrive2 s)\<lparr>mx := m\<rparr>) (mx_unlock i (mx s))
      | P_arrive2 \<Rightarrow> Some (set_player i (if last_arrival s then P_print else P_wait2 (opened s)) (arrive_barrier s))
      | P_wait2 g \<Rightarrow> if opened s \<noteq> g then Some (set_player i P_print s) else None
      | P_print \<Rightarrow> Some ((set_player i P_send s)\<lparr>announced := announced s @ [pid p]\<rparr>)
      | P_send \<Rightarrow> Some ((set_player i P_close s)\<lparr>sent_to := sent_to s @ [psocket p]\<rparr>)
      | P_close \<Rightarrow> Some (set_player i P_done s)
      | P_done \<Rightarrow> None)"

text \<open>\<open>assign_id\<close>; the main thread owns a mutex under the number after those of the players.\<close>

definition assign_id :: "champ \<Rightarrow> champ option" where
  "assign_id s =
     (let me = CHAMP_LIMIT in
      case boss s of
        A_lock i \<Rightarrow> map_option (\<lambda>m. s\<lparr>boss := A_set i, mx := m\<rparr>) (mx_lock me (mx s))
      | A_set i \<Rightarrow> Some (s\<lparr>boss := A_bcast i, id_pass := i + 1\<rparr>)
      | A_bcast i \<Rightarrow> Some ((broadcast s)\<lparr>boss := A_test i\<rparr>)
      | A_test i \<Rightarrow> Some (if id_pass s \<noteq> 0 then s\<lparr>boss := A_wait i, mx := None\<rparr> else s\<lparr>boss := A_unlock i\<rparr>)
      | A_relock i \<Rightarrow> map_option (\<lambda>m. s\<lparr>boss := A_test i, mx := m\<rparr>) (mx_lock me (mx s))
      | A_unlock i \<Rightarrow> map_option (\<lambda>m. s\<lparr>boss := if i + 1 < CHAMP_LIMIT then A_lock (i + 1) else A_arrive2, mx := m\<rparr>)
          (mx_unlock me (mx s))
      | _ \<Rightarrow> None)"

text \<open>The rest of \<open>main\<close>; its return ends the process with all threads.\<close>

definition champ_main :: "champ \<Rightarrow> champ option" where
  "champ_main s =
     (case boss s of
        A_arrive1 \<Rightarrow> Some ((arrive_barrier s)\<lparr>boss := if last_arrival s then A_lock 0 else A_wait1 (opened s)\<rparr>)
      | A_wait1 g \<Rightarrow> if opened s \<noteq> g then Some (s\<lparr>boss := A_lock 0\<rparr>) else None
      | A_arrive2 \<Rightarrow> Some ((arrive_barrier s)\<lparr>boss := if last_arrival s then A_close else A_wait2 (opened s)\<rparr>)
      | A_wait2 g \<Rightarrow> if opened s \<noteq> g then Some (s\<lparr>boss := A_close\<rparr>) else None
      | A_close \<Rightarrow> Some (s\<lparr>boss := A_exit\<rparr>)
      | A_exit \<Rightarrow> None
      | _ \<Rightarrow> assign_id s)"

section \<open>Runs\<close>

text \<open>
  After \<open>init\<close>: all four threads exist. A thread waiting for the condition variable may also
  wake without a broadcast; the flag of the step relation tells whether it does.
\<close>

definition champ_start :: "int list \<Rightarrow> champ" where
  "champ_start socks = \<lparr>players = map (\<lambda>fd. \<lparr>ppc = P_arrive1, psocket = fd, pid = 0\<rparr>) socks, boss = A_arrive1,
     id_pass = 0, mx = None, arrived = 0, opened = 0, announced = [], sent_to = []\<rparr>"

definition spurious :: "nat \<Rightarrow> champ \<Rightarrow> champ option" where
  "spurious i s =
     (if i < length (players s)
      then if ppc (players s ! i) = P_wait then Some (set_player i P_relock s) else None
      else case boss s of A_wait k \<Rightarrow> Some (s\<lparr>boss := A_relock k\<rparr>) | _ \<Rightarrow> None)"

datatype champ_action = Act_player nat | Act_boss | Act_spurious nat

definition champ_act :: "champ_action \<Rightarrow> champ \<Rightarrow> champ option" where
  "champ_act a s =
     (if boss s = A_exit then None
      else case a of
        Act_player i \<Rightarrow> if i < length (players s) then champ_threadfunc i s else None
      | Act_boss \<Rightarrow> champ_main s
      | Act_spurious i \<Rightarrow> spurious i s)"

definition champ_step :: "champ \<Rightarrow> champ \<Rightarrow> bool" where
  "champ_step s t \<longleftrightarrow> (\<exists>a. champ_act a s = Some t)"

definition regular_step :: "champ \<Rightarrow> champ \<Rightarrow> bool" where
  "regular_step s t \<longleftrightarrow> (\<exists>i. champ_act (Act_player i) s = Some t) \<or> champ_act Act_boss s = Some t"

section \<open>Mutual exclusion\<close>

fun holding :: "player_pc \<Rightarrow> bool" where
  "holding P_test = True" | "holding P_take = True" | "holding P_clear = True" | "holding P_bcast = True"
| "holding P_unlock = True" | "holding _ = False"

fun boss_holds :: "boss_pc \<Rightarrow> bool" where
  "boss_holds (A_set i) = True" | "boss_holds (A_bcast i) = True" | "boss_holds (A_test i) = True"
| "boss_holds (A_unlock i) = True" | "boss_holds _ = False"

definition exclusive :: "champ \<Rightarrow> bool" where
  "exclusive s \<longleftrightarrow> length (players s) = CHAMP_LIMIT \<and> protects (mx s) (\<lambda>p. holding (ppc p)) (players s) \<and>
     (mx s = Some CHAMP_LIMIT \<longleftrightarrow> boss_holds (boss s)) \<and> (\<forall>k. mx s = Some k \<longrightarrow> k \<le> CHAMP_LIMIT)"

lemma wake_player_simps [simp]:
  "holding (ppc (wake_player p)) = holding (ppc p)" "pid (wake_player p) = pid p"
  "psocket (wake_player p) = psocket p" "ppc (wake_player p) \<noteq> P_wait"
  by (auto simp: wake_player_def)

lemma wake_boss_simps [simp]: "boss_holds (wake_boss b) = boss_holds b"
  by (cases b) (simp_all add: wake_boss_def)

lemma protects_map: "(\<And>t. inside (f t) = inside t) \<Longrightarrow> protects m inside (map f ts) = protects m inside ts"
  by (auto simp: protects_def)

lemma protects_wake: "protects m (\<lambda>p. holding (ppc p)) (map wake_player ps) = protects m (\<lambda>p. holding (ppc p)) ps"
  by (rule protects_map) simp

lemma arrive_barrier_simps [simp]:
  "players (arrive_barrier s) = players s" "boss (arrive_barrier s) = boss s" "id_pass (arrive_barrier s) = id_pass s"
  "mx (arrive_barrier s) = mx s" "announced (arrive_barrier s) = announced s" "sent_to (arrive_barrier s) = sent_to s"
  by (simp_all add: arrive_barrier_def)

lemmas champ_defs = champ_threadfunc_def set_player_def broadcast_def assign_id_def champ_main_def spurious_def Let_def

text \<open>How a step is made.\<close>

lemma champ_act_cases [consumes 1, case_names player boss wake_player wake_boss]:
  assumes "champ_act a s = Some t"
  obtains i where "a = Act_player i" "boss s \<noteq> A_exit" "i < length (players s)" "champ_threadfunc i s = Some t"
  | "a = Act_boss" "boss s \<noteq> A_exit" "champ_main s = Some t"
  | i where "a = Act_spurious i" "i < length (players s)" "ppc (players s ! i) = P_wait" "t = set_player i P_relock s"
  | i k where "a = Act_spurious i" "boss s = A_wait k" "t = s\<lparr>boss := A_relock k\<rparr>"
  using assms by (auto simp: champ_act_def spurious_def split: champ_action.splits if_splits boss_pc.splits)

lemma exclusive_player:
  assumes "exclusive s" "i < length (players s)" "champ_threadfunc i s = Some t"
  shows "exclusive t"
proof -
  have i: "i < CHAMP_LIMIT" using assms(1,2) by (simp add: exclusive_def)
  moreover have "holding (ppc (players s ! i)) \<Longrightarrow> mx s = Some i"
    using assms(1,2) protectsD by (fastforce simp: exclusive_def)
  ultimately show ?thesis using assms
    by (cases "ppc (players s ! i)")
      (auto simp: champ_defs exclusive_def protects_rules protects_wake nth_map split: if_splits)
qed

lemma exclusive_boss: "exclusive s \<Longrightarrow> champ_main s = Some t \<Longrightarrow> exclusive t"
  by (cases "boss s")
    (auto simp: champ_defs exclusive_def protects_wake split: if_splits intro: protects_outsider)

lemma exclusive_step:
  assumes "exclusive s" "champ_act a s = Some t"
  shows "exclusive t"
  using assms(2)
proof (cases rule: champ_act_cases)
  case (player i)
  then show ?thesis using assms(1) exclusive_player by blast
next
  case boss
  then show ?thesis using assms(1) exclusive_boss by blast
next
  case (wake_player i)
  then show ?thesis using assms(1) by (simp add: exclusive_def set_player_def protects_rules)
next
  case (wake_boss i k)
  then show ?thesis using assms(1) by (simp add: exclusive_def)
qed

section \<open>The barrier\<close>

fun parked :: "nat \<Rightarrow> player_pc \<Rightarrow> bool" where
  "parked n (P_wait1 g) = (g = n)" | "parked n (P_wait2 g) = (g = n)" | "parked n _ = False"

fun boss_parked :: "nat \<Rightarrow> boss_pc \<Rightarrow> bool" where
  "boss_parked n (A_wait1 g) = (g = n)" | "boss_parked n (A_wait2 g) = (g = n)" | "boss_parked n _ = False"

text \<open>Where a thread can be after the barrier has opened \<open>n\<close> times.\<close>

fun in_stage :: "nat \<Rightarrow> player_pc \<Rightarrow> bool" where
  "in_stage n P_arrive1 = (n = 0)" | "in_stage n (P_wait1 g) = (g = 0 \<and> n \<le> 1)"
| "in_stage n (P_wait2 g) = (g = 1 \<and> 1 \<le> n \<and> n \<le> 2)"
| "in_stage n P_print = (n = 2)" | "in_stage n P_send = (n = 2)" | "in_stage n P_close = (n = 2)" | "in_stage n P_done = (n = 2)"
| "in_stage n _ = (n = 1)"

fun boss_in_stage :: "nat \<Rightarrow> boss_pc \<Rightarrow> bool" where
  "boss_in_stage n A_arrive1 = (n = 0)" | "boss_in_stage n (A_wait1 g) = (g = 0 \<and> n \<le> 1)"
| "boss_in_stage n (A_wait2 g) = (g = 1 \<and> 1 \<le> n \<and> n \<le> 2)" | "boss_in_stage n A_arrive2 = (n = 1)"
| "boss_in_stage n A_close = (n = 2)" | "boss_in_stage n A_exit = (n = 2)"
| "boss_in_stage n (A_lock i) = (n = 1 \<and> i < CHAMP_LIMIT)" | "boss_in_stage n (A_set i) = (n = 1 \<and> i < CHAMP_LIMIT)"
| "boss_in_stage n (A_bcast i) = (n = 1 \<and> i < CHAMP_LIMIT)" | "boss_in_stage n (A_test i) = (n = 1 \<and> i < CHAMP_LIMIT)"
| "boss_in_stage n (A_wait i) = (n = 1 \<and> i < CHAMP_LIMIT)" | "boss_in_stage n (A_relock i) = (n = 1 \<and> i < CHAMP_LIMIT)"
| "boss_in_stage n (A_unlock i) = (n = 1 \<and> i < CHAMP_LIMIT)"

definition in_step :: "champ \<Rightarrow> bool" where
  "in_step s \<longleftrightarrow> length (players s) = CHAMP_LIMIT \<and>
     list_all (\<lambda>p. in_stage (opened s) (ppc p)) (players s) \<and> boss_in_stage (opened s) (boss s) \<and>
     arrived s \<le> CHAMP_LIMIT \<and>
     int (arrived s) = threads_in (\<lambda>p. parked (opened s) (ppc p)) (players s) + of_bool (boss_parked (opened s) (boss s))"

lemma wake_player_stage [simp]:
  "parked n (ppc (wake_player p)) = parked n (ppc p)"
  "in_stage n (ppc (wake_player p)) = in_stage n (ppc p)"
  "boss_parked n (wake_boss b) = boss_parked n b" "boss_in_stage n (wake_boss b) = boss_in_stage n b"
  by (auto simp: wake_player_def wake_boss_def split: boss_pc.splits)

lemma threads_in_comp [simp]: "threads_in P (map f ts) = threads_in (\<lambda>t. P (f t)) ts"
  by (simp add: threads_in_def comp_def filter_map)

lemma threads_in_all: "threads_in P ts = int (length ts) \<Longrightarrow> i < length ts \<Longrightarrow> P (ts ! i)"
  by (simp add: threads_in_def) (metis filter_id_conv length_filter_less less_irrefl nth_mem)

text \<open>When the last thread arrives all others are parked, and the stage is over for them.\<close>

lemma stage_over:
  "in_stage n p \<Longrightarrow> parked n p \<Longrightarrow> in_stage (Suc n) p \<and> \<not> parked (Suc n) p"
  "boss_in_stage n b \<Longrightarrow> boss_parked n b \<Longrightarrow> boss_in_stage (Suc n) b \<and> \<not> boss_parked (Suc n) b"
  by (cases p; auto) (cases b; auto)

lemma last_player:
  assumes s: "in_step s" "last_arrival s" and i: "i < CHAMP_LIMIT" "\<not> parked (opened s) (ppc (players s ! i))"
    and y: "in_stage (Suc (opened s)) (ppc y)" "\<not> parked (Suc (opened s)) (ppc y)"
  shows "in_step ((arrive_barrier s)\<lparr>players := (players s)[i := y]\<rparr>)"
proof -
  let ?P = "\<lambda>p. parked (opened s) (ppc p)" let ?n = "opened s"
  have len: "length (players s) = CHAMP_LIMIT" using s(1) by (simp add: in_step_def)
  let ?z = "y\<lparr>ppc := P_wait1 ?n\<rparr>"
  have "threads_in ?P ((players s)[i := ?z]) = threads_in ?P (players s) + 1"
    using i len by (simp add: threads_in_update)
  moreover have "threads_in ?P ((players s)[i := ?z]) \<le> int (length ((players s)[i := ?z]))" by (rule threads_in_le)
  moreover have "int CHAMP_LIMIT = threads_in ?P (players s) + of_bool (boss_parked ?n (boss s))"
    using s by (simp add: in_step_def last_arrival_def)
  ultimately have all: "threads_in ?P ((players s)[i := ?z]) = int (length ((players s)[i := ?z]))"
    and b: "boss_parked ?n (boss s)" using len by (cases "boss_parked ?n (boss s)"; simp)+
  have others: "?P (players s ! j)" if "j < CHAMP_LIMIT" "j \<noteq> i" for j
    using threads_in_all [OF all, of j] that len by simp
  have stage: "in_stage ?n (ppc (players s ! j))" if "j < CHAMP_LIMIT" for j
    using s(1) that len by (simp add: in_step_def list_all_length)
  have new: "in_stage (Suc ?n) (ppc ((players s)[i := y] ! j)) \<and> \<not> parked (Suc ?n) (ppc ((players s)[i := y] ! j))"
    if "j < CHAMP_LIMIT" for j
    using that y others [of j] stage_over(1) [OF stage] len by (cases "j = i") auto
  then have "threads_in (\<lambda>p. parked (Suc ?n) (ppc p)) ((players s)[i := y]) = 0"
    using len by (intro threads_in_zero) (auto simp: in_set_conv_nth)
  then show ?thesis
    using new len stage_over(2) [OF _ b] s(1)
    by (simp add: in_step_def arrive_barrier_def s(2) list_all_length)
qed

lemma last_boss:
  assumes s: "in_step s" "last_arrival s" and i: "\<not> boss_parked (opened s) (boss s)"
    and y: "boss_in_stage (Suc (opened s)) b" "\<not> boss_parked (Suc (opened s)) b"
  shows "in_step ((arrive_barrier s)\<lparr>boss := b\<rparr>)"
proof -
  let ?P = "\<lambda>p. parked (opened s) (ppc p)" let ?n = "opened s"
  have len: "length (players s) = CHAMP_LIMIT" using s(1) by (simp add: in_step_def)
  have all: "threads_in ?P (players s) = int (length (players s))"
    using s i len by (simp add: in_step_def last_arrival_def)
  have new: "in_stage (Suc ?n) (ppc (players s ! j)) \<and> \<not> parked (Suc ?n) (ppc (players s ! j))" if "j < CHAMP_LIMIT" for j
    using threads_in_all [OF all, of j] stage_over(1) [of ?n "ppc (players s ! j)"] s(1) that len
    by (simp add: in_step_def list_all_length)
  then have "threads_in (\<lambda>p. parked (Suc ?n) (ppc p)) (players s) = 0"
    using len by (intro threads_in_zero) (auto simp: in_set_conv_nth)
  then show ?thesis
    using new len y by (simp add: in_step_def arrive_barrier_def s(2) list_all_length)
qed

lemma in_step_move:
  "in_step s \<Longrightarrow> i < CHAMP_LIMIT \<Longrightarrow> in_stage (opened s) (ppc y) \<Longrightarrow>
   parked (opened s) (ppc y) = parked (opened s) (ppc (players s ! i)) \<Longrightarrow>
   in_step (s\<lparr>players := (players s)[i := y]\<rparr>)"
  by (simp add: in_step_def threads_in_update list_all_update)

lemma in_step_park:
  "in_step s \<Longrightarrow> i < CHAMP_LIMIT \<Longrightarrow> \<not> last_arrival s \<Longrightarrow> in_stage (opened s) (ppc y) \<Longrightarrow>
   parked (opened s) (ppc y) \<Longrightarrow> \<not> parked (opened s) (ppc (players s ! i)) \<Longrightarrow>
   in_step ((arrive_barrier s)\<lparr>players := (players s)[i := y]\<rparr>)"
  by (simp add: in_step_def arrive_barrier_def threads_in_update list_all_update last_arrival_def)

text \<open>The barrier does not look at the mutex, the variable and the output.\<close>

lemma in_step_simps [simp]:
  "in_step (s\<lparr>mx := m\<rparr>) = in_step s" "in_step (s\<lparr>id_pass := d\<rparr>) = in_step s"
  "in_step (s\<lparr>announced := a\<rparr>) = in_step s" "in_step (s\<lparr>sent_to := z\<rparr>) = in_step s"
  "in_step (broadcast s) = in_step s"
  by (simp_all add: in_step_def broadcast_def list.pred_map comp_def)

lemma in_step_player:
  assumes "in_step s" "i < length (players s)" "champ_threadfunc i s = Some t"
  shows "in_step t"
proof -
  have i: "i < CHAMP_LIMIT" and stage: "in_stage (opened s) (ppc (players s ! i))" and len: "length (players s) = CHAMP_LIMIT"
    using assms(1,2) by (simp_all add: in_step_def list_all_length)
  show ?thesis
  proof (cases "ppc (players s ! i) = P_bcast")
    case True
    have "in_step (broadcast s)" using assms(1) by simp
    moreover have "ppc (players (broadcast s) ! i) = P_bcast" using True i len by (simp add: broadcast_def wake_player_def)
    ultimately have "in_step ((broadcast s)\<lparr>players := (players (broadcast s))[i := (players (broadcast s) ! i)\<lparr>ppc := P_unlock\<rparr>]\<rparr>)"
      using stage True i by (intro in_step_move) (simp_all add: broadcast_def)
    then show ?thesis using assms(3) True by (simp add: champ_threadfunc_def set_player_def)
  next
    case False
    then show ?thesis
      using assms stage i in_step_move [OF assms(1) i] in_step_park [OF assms(1) i] last_player [OF assms(1) _ i]
      by (cases "ppc (players s ! i)")
        (auto simp: champ_threadfunc_def set_player_def Let_def split: if_splits)
  qed
qed

lemma in_step_boss:
  assumes "in_step s" "champ_main s = Some t"
  shows "in_step t"
proof -
  have stage: "boss_in_stage (opened s) (boss s)" using assms(1) by (simp add: in_step_def)
  show ?thesis
  proof (cases "last_arrival s \<and> (boss s = A_arrive1 \<or> boss s = A_arrive2)")
    case True
    then show ?thesis
      using assms stage last_boss [OF assms(1), of "A_lock 0"] last_boss [OF assms(1), of A_close]
      by (auto simp: champ_main_def CHAMP_LIMIT_def)
  next
    case False
    then show ?thesis using assms stage
      by (cases "boss s")
        (auto simp: champ_main_def assign_id_def Let_def in_step_def arrive_barrier_def broadcast_def list.pred_map comp_def
          last_arrival_def CHAMP_LIMIT_def split: if_splits)
  qed
qed

lemma in_step_step:
  assumes "in_step s" "champ_act a s = Some t"
  shows "in_step t"
  using assms(2)
proof (cases rule: champ_act_cases)
  case (player i)
  then show ?thesis using assms(1) in_step_player by blast
next
  case boss
  then show ?thesis using assms(1) in_step_boss by blast
next
  case (wake_player i)
  have "in_stage (opened s) (ppc (players s ! i))" using assms(1) wake_player(2) by (simp add: in_step_def list_all_length)
  then show ?thesis using wake_player in_step_move [OF assms(1), of i "(players s ! i)\<lparr>ppc := P_relock\<rparr>"] assms(1)
    by (simp add: set_player_def in_step_def)
next
  case (wake_boss i k)
  then show ?thesis using assms(1) by (auto simp: in_step_def)
qed

section \<open>The numbers\<close>

text \<open>
  The threads that have their number, the number of numbers handed out when the main thread
  is at a point of its loop, and where it is while a number waits in the variable.
\<close>

fun has_id :: "player_pc \<Rightarrow> bool" where
  "has_id P_arrive1 = False" | "has_id (P_wait1 g) = False" | "has_id P_self = False" | "has_id P_lock = False"
| "has_id P_test = False" | "has_id P_wait = False" | "has_id P_relock = False" | "has_id P_take = False"
| "has_id _ = True"

fun handed :: "boss_pc \<Rightarrow> nat" where
  "handed A_arrive1 = 0" | "handed (A_wait1 g) = 0" | "handed (A_lock i) = i" | "handed (A_set i) = i"
| "handed (A_bcast i) = i + 1" | "handed (A_test i) = i + 1" | "handed (A_wait i) = i + 1"
| "handed (A_relock i) = i + 1" | "handed (A_unlock i) = i + 1" | "handed _ = CHAMP_LIMIT"

fun offering :: "boss_pc \<Rightarrow> bool" where
  "offering (A_bcast i) = True" | "offering (A_test i) = True" | "offering (A_wait i) = True"
| "offering (A_relock i) = True" | "offering _ = False"

definition owner_at :: "(player_pc \<Rightarrow> bool) \<Rightarrow> champ \<Rightarrow> bool" where
  "owner_at P s \<longleftrightarrow> (\<exists>k < CHAMP_LIMIT. mx s = Some k \<and> P (ppc (players s ! k)))"

definition unclaimed :: "champ \<Rightarrow> nat multiset" where
  "unclaimed s = (if id_pass s = 0 \<or> owner_at (\<lambda>p. p = P_clear) s then {#} else {#id_pass s#})"

definition given :: "champ \<Rightarrow> nat multiset" where
  "given s = mset (map pid (filter (\<lambda>p. has_id (ppc p)) (players s)))"

definition first_numbers :: "nat \<Rightarrow> nat multiset" where
  "first_numbers n = mset [1..<Suc n]"

lemma first_numbers_Suc: "first_numbers (Suc n) = add_mset (Suc n) (first_numbers n)"
  by (simp add: first_numbers_def del: mset_upt)

definition numbers_ok :: "champ \<Rightarrow> bool" where
  "numbers_ok s \<longleftrightarrow> given s + unclaimed s = first_numbers (handed (boss s))"

definition offered :: "champ \<Rightarrow> bool" where
  "offered s \<longleftrightarrow> (id_pass s \<noteq> 0 \<longrightarrow> offering (boss s)) \<and> (owner_at (\<lambda>p. p = P_take \<or> p = P_clear) s \<longrightarrow> id_pass s \<noteq> 0)"

text \<open>No one sleeps on: who waits for a number has none to take, or is about to be woken.\<close>

definition no_sleeper :: "champ \<Rightarrow> bool" where
  "no_sleeper s \<longleftrightarrow> (id_pass s \<noteq> 0 \<longrightarrow> list_all (\<lambda>p. ppc p \<noteq> P_wait) (players s) \<or> (\<exists>i. boss s = A_bcast i)) \<and>
     ((\<exists>i. boss s = A_wait i) \<longrightarrow> id_pass s \<noteq> 0 \<or> owner_at (\<lambda>p. p = P_bcast) s)"

lemma owner_at_owner:
  "exclusive s \<Longrightarrow> i < CHAMP_LIMIT \<Longrightarrow> mx s = Some i \<longleftrightarrow> holding (ppc (players s ! i))"
  using protectsD [of "mx s" _ "players s" i] by (auto simp: exclusive_def)

lemma owner_at_boss: "mx s = Some CHAMP_LIMIT \<Longrightarrow> \<not> owner_at P s" "mx s = None \<Longrightarrow> \<not> owner_at P s"
  by (simp_all add: owner_at_def)

lemma owner_at_self: "mx s = Some i \<Longrightarrow> i < CHAMP_LIMIT \<Longrightarrow> owner_at P s \<longleftrightarrow> P (ppc (players s ! i))"
  by (auto simp: owner_at_def)

lemma owner_at_wake: 
  "length (players s) = CHAMP_LIMIT \<Longrightarrow> (\<And>p. P (ppc (wake_player p)) = P (ppc p)) \<Longrightarrow> mx t = mx s \<Longrightarrow>
   players t = map wake_player (players s) \<Longrightarrow> owner_at P t = owner_at P s"
  by (auto simp: owner_at_def)

lemma owner_at_same: "mx t = mx s \<Longrightarrow> players t = players s \<Longrightarrow> owner_at P t = owner_at P s"
  by (simp add: owner_at_def)

lemma wake_player_id [simp]:
  "has_id (ppc (wake_player p)) = has_id (ppc p)" "(ppc (wake_player p) = P_clear) = (ppc p = P_clear)"
  "(ppc (wake_player p) = P_take) = (ppc p = P_take)" "(ppc (wake_player p) = P_bcast) = (ppc p = P_bcast)"
  "handed (wake_boss b) = handed b" "offering (wake_boss b) = offering b" "wake_boss b \<noteq> A_wait i"
  by (auto simp: wake_player_def wake_boss_def split: boss_pc.splits)

lemma given_wake: "players t = map wake_player (players s) \<Longrightarrow> given t = given s"
  by (simp add: given_def filter_map comp_def)

lemma given_keep:
  "i < length (players s) \<Longrightarrow> players t = (players s)[i := y] \<Longrightarrow> has_id (ppc y) = has_id (ppc (players s ! i)) \<Longrightarrow>
   pid y = pid (players s ! i) \<Longrightarrow> given t = given s"
  by (simp add: given_def mset_filter_keep del: mset_map)

lemma given_new:
  "i < length (players s) \<Longrightarrow> players t = (players s)[i := y] \<Longrightarrow> has_id (ppc y) \<Longrightarrow> \<not> has_id (ppc (players s ! i)) \<Longrightarrow>
   given t = add_mset (pid y) (given s)"
  by (simp add: given_def mset_filter_new del: mset_map)

lemma numbers_ok_same:
  "given t = given s \<Longrightarrow> unclaimed t = unclaimed s \<Longrightarrow> handed (boss t) = handed (boss s) \<Longrightarrow> numbers_ok t = numbers_ok s"
  by (simp add: numbers_ok_def)

text \<open>What the calls that neither take a number nor wake anyone have in common.\<close>

lemma player_frame:
  assumes "exclusive s" "champ_threadfunc i s = Some t" "i < length (players s)"
    "ppc (players s ! i) \<notin> {P_take, P_clear, P_bcast}"
  obtains y where "players t = (players s)[i := y]" "pid y = pid (players s ! i)"
    "has_id (ppc y) = has_id (ppc (players s ! i))" "id_pass t = id_pass s" "boss t = boss s"
    "ppc y = P_take \<longrightarrow> id_pass s \<noteq> 0" "ppc y \<noteq> P_clear" "ppc y \<noteq> P_bcast" "ppc y = P_wait \<longrightarrow> id_pass s = 0"
    "mx t = mx s \<or> mx s = None \<and> mx t = Some i \<or> mx s = Some i \<and> mx t = None"
proof -
  have len: "length (players s) = CHAMP_LIMIT" using assms(1) by (simp add: exclusive_def)
  have "mx s = Some i \<longleftrightarrow> holding (ppc (players s ! i))"
    using owner_at_owner [OF assms(1)] assms(3) len by simp
  then have "players t = (players s)[i := players t ! i] \<and> pid (players t ! i) = pid (players s ! i) \<and>
    has_id (ppc (players t ! i)) = has_id (ppc (players s ! i)) \<and> id_pass t = id_pass s \<and> boss t = boss s \<and>
    (ppc (players t ! i) = P_take \<longrightarrow> id_pass s \<noteq> 0) \<and> ppc (players t ! i) \<noteq> P_clear \<and> ppc (players t ! i) \<noteq> P_bcast \<and>
    (ppc (players t ! i) = P_wait \<longrightarrow> id_pass s = 0) \<and>
    (mx t = mx s \<or> mx s = None \<and> mx t = Some i \<or> mx s = Some i \<and> mx t = None)"
    using assms(2-4)
    by (cases "ppc (players s ! i)") (auto simp: champ_threadfunc_def set_player_def Let_def split: if_splits)
  then show thesis by (intro that [of "players t ! i"]) simp_all
qed

lemma owner_frame:
  "players t = (players s)[i := y] \<Longrightarrow> i < length (players s) \<Longrightarrow>
   mx t = mx s \<or> mx s = None \<and> mx t = Some i \<or> mx s = Some i \<and> mx t = None \<Longrightarrow>
   \<not> P (ppc y) \<Longrightarrow> \<not> P (ppc (players s ! i)) \<Longrightarrow> owner_at P t = owner_at P s"
  unfolding owner_at_def by (metis nth_list_update_eq nth_list_update_neq option.distinct(1) option.inject)

definition number_inv :: "champ \<Rightarrow> bool" where
  "number_inv s \<longleftrightarrow> numbers_ok s \<and> offered s \<and> no_sleeper s"

lemma number_inv_quiet:
  assumes s: "number_inv s" and t: "exclusive s" "champ_threadfunc i s = Some t" "i < length (players s)"
    "ppc (players s ! i) \<notin> {P_take, P_clear, P_bcast}"
  shows "number_inv t"
  using t
proof (cases rule: player_frame)
  case (1 y)
  have o: "owner_at P t = owner_at P s" if "\<not> P (ppc y)" "\<not> P (ppc (players s ! i))" for P
    using owner_frame [OF 1(1) t(3) 1(10)] that .
  have "unclaimed t = unclaimed s" using 1 t(4) o [of "\<lambda>p. p = P_clear"] by (simp add: unclaimed_def)
  moreover have "given t = given s" using given_keep [OF t(3) 1(1,3,2)] .
  moreover have "offered t" using s 1 t(4) o [of "\<lambda>p. p = P_take \<or> p = P_clear"]
    by (cases "ppc y = P_take") (auto simp: offered_def number_inv_def)
  moreover have "no_sleeper t" using s 1 t(4) o [of "\<lambda>p. p = P_bcast"]
    by (cases "ppc y = P_wait") (auto simp: no_sleeper_def number_inv_def list_all_update)
  ultimately show ?thesis using s 1(5) by (simp add: number_inv_def numbers_ok_def)
qed

lemma number_inv_take:
  assumes s: "exclusive s" "number_inv s" and t: "champ_threadfunc i s = Some t" "i < length (players s)"
    and p: "ppc (players s ! i) = P_take"
  shows "number_inv t"
proof -
  let ?y = "(players s ! i)\<lparr>ppc := P_clear, pid := id_pass s\<rparr>"
  have i: "i < CHAMP_LIMIT" using s(1) t(2) by (simp add: exclusive_def)
  have m: "mx s = Some i" using owner_at_owner [OF s(1) i] p by simp
  have own: "owner_at P s = P P_take" for P using owner_at_self [OF m i] p by simp
  have e: "t = s\<lparr>players := (players s)[i := ?y]\<rparr>" using t(1) p by (simp add: champ_threadfunc_def)
  have ownt: "owner_at P t = P P_clear" for P using owner_at_self [of t i P] m i t(2) e by simp
  have "given t = add_mset (id_pass s) (given s)"
    using given_new [OF t(2), of t ?y] e p by simp
  moreover have "unclaimed t = {#}" "unclaimed s = {#id_pass s#}"
    using s(2) own ownt by (simp_all add: unclaimed_def number_inv_def offered_def)
  ultimately have "numbers_ok t" using s(2) e by (simp add: number_inv_def numbers_ok_def)
  moreover have "offered t" using s(2) own ownt e by (simp add: number_inv_def offered_def)
  moreover have "id_pass s \<noteq> 0" using s(2) own by (simp add: number_inv_def offered_def)
  then have "no_sleeper t" using s(2) e by (auto simp: number_inv_def no_sleeper_def list_all_update)
  ultimately show ?thesis by (simp add: number_inv_def)
qed

lemma number_inv_clear:
  assumes s: "exclusive s" "number_inv s" and t: "champ_threadfunc i s = Some t" "i < length (players s)"
    and p: "ppc (players s ! i) = P_clear"
  shows "number_inv t"
proof -
  let ?y = "(players s ! i)\<lparr>ppc := P_bcast\<rparr>"
  have i: "i < CHAMP_LIMIT" using s(1) t(2) by (simp add: exclusive_def)
  have m: "mx s = Some i" using owner_at_owner [OF s(1) i] p by simp
  have own: "owner_at P s = P P_clear" for P using owner_at_self [OF m i] p by simp
  have e: "t = s\<lparr>players := (players s)[i := ?y], id_pass := 0\<rparr>"
    using t(1) p by (simp add: champ_threadfunc_def set_player_def)
  have ownt: "owner_at P t = P P_bcast" for P using owner_at_self [of t i P] m i t(2) e by simp
  have "given t = given s" using given_keep [OF t(2), of t ?y] e p by simp
  moreover have "unclaimed t = {#}" "unclaimed s = {#}" using own e by (simp_all add: unclaimed_def)
  ultimately have "numbers_ok t" using s(2) e by (simp add: number_inv_def numbers_ok_def)
  moreover have "offered t" using ownt e by (simp add: offered_def)
  moreover have "no_sleeper t" using ownt e by (simp add: no_sleeper_def)
  ultimately show ?thesis by (simp add: number_inv_def)
qed

lemma number_inv_bcast:
  assumes s: "exclusive s" "number_inv s" and t: "champ_threadfunc i s = Some t" "i < length (players s)"
    and p: "ppc (players s ! i) = P_bcast"
  shows "number_inv t"
proof -
  let ?y = "(wake_player (players s ! i))\<lparr>ppc := P_unlock\<rparr>"
  have i: "i < CHAMP_LIMIT" using s(1) t(2) by (simp add: exclusive_def)
  have m: "mx s = Some i" using owner_at_owner [OF s(1) i] p by simp
  have own: "owner_at P s = P P_bcast" for P using owner_at_self [OF m i] p by simp
  have e: "t = (broadcast s)\<lparr>players := (map wake_player (players s))[i := ?y]\<rparr>"
    using t p by (simp add: champ_threadfunc_def set_player_def broadcast_def)
  have ownt: "owner_at P t = P P_unlock" for P using owner_at_self [of t i P] m i t(2) e by (simp add: broadcast_def)
  have "given t = given (broadcast s)" using given_keep [of i "broadcast s" t ?y] t(2) e p by (simp add: broadcast_def)
  then have "given t = given s" using given_wake [of "broadcast s" s] by (simp add: broadcast_def)
  moreover have "unclaimed t = unclaimed s" using own ownt e by (simp add: unclaimed_def broadcast_def)
  ultimately have "numbers_ok t" using s(2) e by (simp add: number_inv_def numbers_ok_def broadcast_def)
  moreover have "offered t" using s(2) ownt e by (simp add: number_inv_def offered_def broadcast_def)
  moreover have "list_all (\<lambda>p. ppc p \<noteq> P_wait) (players t)"
    using e set_update_subset_insert [of "map wake_player (players s)" i ?y] by (fastforce simp: list_all_iff)
  then have "no_sleeper t" using e by (simp add: no_sleeper_def broadcast_def)
  ultimately show ?thesis by (simp add: number_inv_def)
qed

lemma number_inv_player:
  assumes "exclusive s" "number_inv s" "champ_threadfunc i s = Some t" "i < length (players s)"
  shows "number_inv t"
  using number_inv_quiet number_inv_take number_inv_clear number_inv_bcast assms by blast

lemma number_inv_boss:
  assumes s: "exclusive s" "number_inv s" "in_step s" and t: "champ_main s = Some t"
  shows "number_inv t"
proof -
  have m: "mx s = Some CHAMP_LIMIT \<longleftrightarrow> boss_holds (boss s)" using s(1) by (simp add: exclusive_def)
  show ?thesis
  proof (cases "boss_holds (boss s)")
    case True
    then have own: "\<And>P. \<not> owner_at P s" using m owner_at_boss(1) by simp
    have ownt: "\<not> owner_at P t" for P
      using True m t by (cases "boss s") (auto simp: champ_main_def assign_id_def Let_def broadcast_def owner_at_def split: if_splits)
    have "given t = given s"
      using True t by (cases "boss s")
        (auto simp: champ_main_def assign_id_def Let_def broadcast_def given_def filter_map comp_def
          simp del: mset_map mset_filter split: if_splits)
    moreover have "first_numbers (handed (boss t)) + unclaimed s = first_numbers (handed (boss s)) + unclaimed t"
    proof (cases "\<exists>i. boss s = A_set i")
      case True
      then show ?thesis using t s(2) own ownt
        by (auto simp: champ_main_def assign_id_def Let_def unclaimed_def number_inv_def offered_def first_numbers_Suc)
    next
      case False
      then have "handed (boss t) = handed (boss s)" "id_pass t = id_pass s"
        using True t s(3) by (cases "boss s"; auto simp: champ_main_def assign_id_def Let_def in_step_def broadcast_def split: if_splits)+
      then show ?thesis using own ownt by (simp add: unclaimed_def)
    qed
    ultimately have "numbers_ok t"
      using s(2) by (simp add: number_inv_def numbers_ok_def) (metis add.commute add.left_commute add_left_cancel)
    moreover have "offered t" using True t ownt s(2)
      by (cases "boss s") (auto simp: champ_main_def assign_id_def Let_def number_inv_def offered_def broadcast_def split: if_splits)
    moreover have "no_sleeper t" using True t s(2)
      by (cases "boss s")
        (auto simp: champ_main_def assign_id_def Let_def number_inv_def no_sleeper_def offered_def broadcast_def list_all_iff split: if_splits)
    ultimately show ?thesis by (simp add: number_inv_def)
  next
    case False
    then have same: "players t = players s" "id_pass t = id_pass s" "handed (boss t) = handed (boss s)"
      "offering (boss t) = offering (boss s)" "mx t = mx s \<or> mx s = None \<and> mx t = Some CHAMP_LIMIT"
      "(\<forall>i. boss t \<noteq> A_wait i) \<and> (\<forall>i. boss s \<noteq> A_bcast i)"
      using t by (cases "boss s"; auto simp: champ_main_def assign_id_def Let_def CHAMP_LIMIT_def split: if_splits)+
    then have "owner_at P t = owner_at P s" for P by (auto simp: owner_at_def)
    then show ?thesis using s(2) same
      by (auto simp: number_inv_def numbers_ok_def offered_def no_sleeper_def given_def unclaimed_def)
  qed
qed

lemma number_inv_spurious:
  assumes s: "exclusive s" "number_inv s"
  shows "i < length (players s) \<Longrightarrow> ppc (players s ! i) = P_wait \<Longrightarrow> number_inv (set_player i P_relock s)"
    "boss s = A_wait k \<Longrightarrow> number_inv (s\<lparr>boss := A_relock k\<rparr>)"
proof -
  assume i: "i < length (players s)" "ppc (players s ! i) = P_wait"
  let ?t = "set_player i P_relock s"
  have "given ?t = given s" using given_keep [OF i(1), of ?t] i(2) by (simp add: set_player_def)
  moreover have o: "owner_at P ?t = owner_at P s" if "\<not> P P_wait" "\<not> P P_relock" for P
    using owner_frame [OF _ i(1), of ?t] i(2) that by (simp add: set_player_def)
  have "unclaimed ?t = unclaimed s" using o [of "\<lambda>p. p = P_clear"] by (simp add: unclaimed_def) (simp add: set_player_def)
  moreover have "offered ?t" "no_sleeper ?t"
    using s(2) o [of "\<lambda>p. p = P_take \<or> p = P_clear"] o [of "\<lambda>p. p = P_bcast"]
    by (auto simp: number_inv_def offered_def no_sleeper_def set_player_def list_all_update)
  ultimately show "number_inv ?t" using s(2) by (simp add: number_inv_def numbers_ok_def) (simp add: set_player_def)
next
  assume "boss s = A_wait k"
  then show "number_inv (s\<lparr>boss := A_relock k\<rparr>)" using s(2)
    by (simp add: number_inv_def numbers_ok_def offered_def no_sleeper_def given_def unclaimed_def owner_at_def
      cong: if_cong split del: if_split)
qed

lemma number_inv_step:
  assumes s: "exclusive s" "number_inv s" "in_step s" and t: "champ_act a s = Some t"
  shows "number_inv t"
  using t
proof (cases rule: champ_act_cases)
  case (player i)
  then show ?thesis using number_inv_player [OF s(1,2)] by blast
next
  case boss
  then show ?thesis using number_inv_boss [OF s] by blast
next
  case (wake_player i)
  then show ?thesis using number_inv_spurious(1) [OF s(1,2)] by blast
next
  case (wake_boss i k)
  then show ?thesis using number_inv_spurious(2) [OF s(1,2)] by blast
qed

definition champ_inv :: "champ \<Rightarrow> bool" where
  "champ_inv s \<longleftrightarrow> exclusive s \<and> in_step s \<and> number_inv s"

definition champ_init :: "champ \<Rightarrow> bool" where
  "champ_init s \<longleftrightarrow> (\<exists>socks. length socks = CHAMP_LIMIT \<and> s = champ_start socks)"

lemma champ_start_inv: "length socks = CHAMP_LIMIT \<Longrightarrow> champ_inv (champ_start socks)"
  by (simp add: champ_inv_def exclusive_def in_step_def number_inv_def numbers_ok_def offered_def no_sleeper_def given_def
    unclaimed_def owner_at_def champ_start_def protects_def list_all_iff first_numbers_def filter_map comp_def)

interpretation champs: inv_system champ_init champ_step champ_inv
proof unfold_locales
  show "champ_inv s" if "champ_init s" for s using that champ_start_inv by (auto simp: champ_init_def)
  show "champ_inv t" if "champ_inv s" "champ_step s t" for s t
    using that exclusive_step in_step_step number_inv_step unfolding champ_inv_def champ_step_def by blast
qed

text \<open>After the second opening of the barrier every thread has its number.\<close>

lemma all_numbered:
  assumes "champ_inv s" "opened s = 2"
  shows "mset (map pid (players s)) = mset [1..<Suc CHAMP_LIMIT]"
proof -
  have "list_all (\<lambda>p. in_stage 2 (ppc p)) (players s)" "boss_in_stage 2 (boss s)"
    using assms by (simp_all add: champ_inv_def in_step_def)
  moreover have "has_id (ppc p)" if "in_stage 2 (ppc p)" for p using that by (cases "ppc p") auto
  ultimately have "filter (\<lambda>p. has_id (ppc p)) (players s) = players s" "handed (boss s) = CHAMP_LIMIT" "\<not> offering (boss s)"
    by (auto simp: list_all_iff filter_id_conv) (cases "boss s"; auto)+
  then show ?thesis using assms(1)
    by (auto simp: champ_inv_def number_inv_def numbers_ok_def offered_def given_def unclaimed_def first_numbers_def)
qed

section \<open>Termination\<close>

text \<open>
  How far a thread is from its end. A thread that waits rises by three when it is woken; the
  thread that wakes the others falls by more than all of them rise.
\<close>

fun player_rank :: "player_pc \<Rightarrow> nat" where
  "player_rank P_arrive1 = 60" | "player_rank (P_wait1 g) = 59" | "player_rank P_self = 58" | "player_rank P_lock = 54"
| "player_rank P_relock = 53" | "player_rank P_test = 52" | "player_rank P_wait = 50" | "player_rank P_take = 49"
| "player_rank P_clear = 48" | "player_rank P_bcast = 47" | "player_rank P_unlock = 27" | "player_rank P_arrive2 = 26"
| "player_rank (P_wait2 g) = 25" | "player_rank P_print = 24" | "player_rank P_send = 23" | "player_rank P_close = 22"
| "player_rank P_done = 21"

fun boss_rank :: "boss_pc \<Rightarrow> nat" where
  "boss_rank A_arrive1 = 1000" | "boss_rank (A_wait1 g) = 999" | "boss_rank (A_lock i) = 90 + 100 * (CHAMP_LIMIT - i)"
| "boss_rank (A_set i) = 89 + 100 * (CHAMP_LIMIT - i)" | "boss_rank (A_bcast i) = 88 + 100 * (CHAMP_LIMIT - i)"
| "boss_rank (A_relock i) = 63 + 100 * (CHAMP_LIMIT - i)" | "boss_rank (A_test i) = 62 + 100 * (CHAMP_LIMIT - i)"
| "boss_rank (A_wait i) = 60 + 100 * (CHAMP_LIMIT - i)" | "boss_rank (A_unlock i) = 50 + 100 * (CHAMP_LIMIT - i)"
| "boss_rank A_arrive2 = 9" | "boss_rank (A_wait2 g) = 8" | "boss_rank A_close = 7" | "boss_rank A_exit = 0"

definition ranks :: "player list \<Rightarrow> nat" where
  "ranks ps = sum_list (map (\<lambda>p. player_rank (ppc p)) ps)"

definition champ_mu :: "champ \<Rightarrow> nat" where
  "champ_mu s = ranks (players s) + boss_rank (boss s)"

lemma ranks_update: "i < length ps \<Longrightarrow> ranks (ps[i := y]) + player_rank (ppc (ps ! i)) = ranks ps + player_rank (ppc y)"
  unfolding ranks_def by (induction ps arbitrary: i) (auto split: nat.splits)

lemma ranks_wake: "ranks (map wake_player ps) \<le> ranks ps + 3 * length ps"
  unfolding ranks_def by (induction ps) (auto simp: wake_player_def)

lemma boss_rank_wake: "boss_rank (wake_boss b) \<le> boss_rank b + 3"
  by (cases b) (simp_all add: wake_boss_def)

lemma champ_mu_player:
  assumes "champ_threadfunc i s = Some t" "i < length (players s)" "length (players s) = CHAMP_LIMIT"
  shows "champ_mu t < champ_mu s"
proof (cases "ppc (players s ! i) = P_bcast")
  case True
  let ?w = "map wake_player (players s)"
  have "ranks (?w[i := (wake_player (players s ! i))\<lparr>ppc := P_unlock\<rparr>]) + 47 = ranks ?w + 27"
    using ranks_update [of i ?w "(wake_player (players s ! i))\<lparr>ppc := P_unlock\<rparr>"] assms(2) True
    by (simp add: wake_player_def)
  then show ?thesis
    using ranks_wake [of "players s"] boss_rank_wake [of "boss s"] assms True
    by (auto simp: champ_mu_def champ_threadfunc_def set_player_def broadcast_def CHAMP_LIMIT_def)
next
  case False
  then have "players t = (players s)[i := players t ! i] \<and> boss t = boss s \<and>
    player_rank (ppc (players t ! i)) < player_rank (ppc (players s ! i))"
    using assms(1,2) by (cases "ppc (players s ! i)")
      (auto simp: champ_threadfunc_def set_player_def Let_def split: if_splits)
  then show ?thesis using ranks_update [OF assms(2), of "players t ! i"] by (simp add: champ_mu_def)
qed

lemma champ_mu_boss:
  assumes "champ_main s = Some t" "in_step s"
  shows "champ_mu t < champ_mu s"
  using assms ranks_wake [of "players s"]
  by (cases "boss s")
    (auto simp: champ_mu_def champ_main_def assign_id_def Let_def broadcast_def in_step_def CHAMP_LIMIT_def split: if_splits)

section \<open>Progress\<close>

text \<open>The thread that owns the mutex can go on.\<close>

lemma owner_goes_on:
  assumes s: "exclusive s" and m: "mx s = Some k"
  shows "k < CHAMP_LIMIT \<Longrightarrow> \<exists>t. champ_threadfunc k s = Some t" "k = CHAMP_LIMIT \<Longrightarrow> \<exists>t. champ_main s = Some t"
proof -
  show "\<exists>t. champ_threadfunc k s = Some t" if k: "k < CHAMP_LIMIT"
    using owner_at_owner [OF s k] m by (cases "ppc (players s ! k)") (auto simp: champ_threadfunc_def Let_def)
  show "\<exists>t. champ_main s = Some t" if k: "k = CHAMP_LIMIT"
    using s m k by (cases "boss s") (auto simp: exclusive_def champ_main_def assign_id_def Let_def)
qed

text \<open>Who cannot go on while the mutex is free.\<close>

lemma blocked_player:
  "champ_threadfunc i s = None \<Longrightarrow> mx s = None \<Longrightarrow> exclusive s \<Longrightarrow> i < CHAMP_LIMIT \<Longrightarrow>
   ppc (players s ! i) \<in> {P_wait, P_done} \<or> parked (opened s) (ppc (players s ! i))"
  using owner_at_owner [of s i]
  by (cases "ppc (players s ! i)") (auto simp: champ_threadfunc_def Let_def split: if_splits)

lemma blocked_boss:
  "champ_main s = None \<Longrightarrow> mx s = None \<Longrightarrow> exclusive s \<Longrightarrow>
   (\<exists>k. boss s = A_wait k) \<or> boss s = A_exit \<or> boss_parked (opened s) (boss s)"
  by (cases "boss s") (auto simp: champ_main_def assign_id_def Let_def exclusive_def split: if_splits)

lemma not_all_parked:
  assumes "in_step s" "list_all (\<lambda>p. parked (opened s) (ppc p)) (players s)"
  shows "\<not> boss_parked (opened s) (boss s)"
proof -
  have "threads_in (\<lambda>p. parked (opened s) (ppc p)) (players s) = int (length (players s))"
    using assms(2) by (simp add: threads_in_def list_all_iff filter_id_conv)
  then show ?thesis using assms(1) by (auto simp: in_step_def)
qed

lemma all_have:
  assumes "champ_inv s" "size (given s) = CHAMP_LIMIT"
  shows "list_all (\<lambda>p. has_id (ppc p)) (players s)"
proof -
  have "length (filter (\<lambda>p. has_id (ppc p)) (players s)) = length (players s)"
    using assms by (simp add: given_def champ_inv_def exclusive_def flip: mset_filter)
  then show ?thesis by (metis filter_id_conv length_filter_less less_irrefl list_all_iff)
qed

lemma size_first_numbers [simp]: "size (first_numbers n) = n"
  by (simp add: first_numbers_def)

lemma blocked_stage:
  "in_stage 0 p \<Longrightarrow> p \<in> {P_wait, P_done} \<or> parked 0 p \<Longrightarrow> parked 0 p"
  "in_stage 1 p \<Longrightarrow> p \<in> {P_wait, P_done} \<or> parked 1 p \<Longrightarrow> has_id p = parked 1 p \<and> has_id p = (p \<noteq> P_wait)"
  by (cases p; auto)+

lemma not_all_blocked:
  assumes inv: "champ_inv s" and mx: "mx s = None"
    and ps: "\<And>i. i < CHAMP_LIMIT \<Longrightarrow> champ_threadfunc i s = None" and b: "champ_main s = None"
  shows "boss s = A_exit"
proof (rule ccontr)
  assume e: "boss s \<noteq> A_exit"
  have ex: "exclusive s" and st: "in_step s" and nu: "number_inv s" using inv by (simp_all add: champ_inv_def)
  have len: "length (players s) = CHAMP_LIMIT" using ex by (simp add: exclusive_def)
  have stage: "list_all (\<lambda>p. in_stage (opened s) (ppc p)) (players s)" "boss_in_stage (opened s) (boss s)"
    using st by (simp_all add: in_step_def)
  have blocked: "list_all (\<lambda>p. ppc p \<in> {P_wait, P_done} \<or> parked (opened s) (ppc p)) (players s)"
    using blocked_player [OF ps mx ex] len by (simp add: list_all_length)
  have own: "\<not> owner_at P s" for P using mx by (rule owner_at_boss)
  consider k where "boss s = A_wait k" | "boss_parked (opened s) (boss s)" using blocked_boss [OF b mx ex] e by blast
  then show False
  proof cases
    case (1 k)
    then have id: "id_pass s \<noteq> 0" using nu own by (auto simp: number_inv_def no_sleeper_def)
    then have w: "list_all (\<lambda>p. ppc p \<noteq> P_wait) (players s)" using nu 1 by (simp add: number_inv_def no_sleeper_def)
    have n: "opened s = 1" using stage(2) 1 by simp
    have "has_id (ppc p)" if p: "p \<in> set (players s)" for p
    proof -
      have "in_stage 1 (ppc p)" "ppc p \<in> {P_wait, P_done} \<or> parked 1 (ppc p)" "ppc p \<noteq> P_wait"
        using stage(1) blocked w p n unfolding list_all_iff by metis+
      then show ?thesis using blocked_stage(2) by metis
    qed
    then have "list_all (\<lambda>p. has_id (ppc p)) (players s)" by (simp add: list_all_iff)
    then have g: "size (given s) = CHAMP_LIMIT" using len by (simp add: given_def list_all_iff filter_id_conv flip: mset_filter)
    have "add_mset (id_pass s) (given s) = first_numbers (Suc k)"
      using nu 1 id own by (simp add: number_inv_def numbers_ok_def unclaimed_def)
    then have "size (first_numbers (Suc k)) = Suc CHAMP_LIMIT" using g by (metis size_add_mset)
    then show False using stage(2) 1 by simp
  next
    case 2
    have "list_all (\<lambda>p. parked (opened s) (ppc p)) (players s)"
    proof (cases "boss s")
      case (A_wait1 g)
      then have "opened s = 0" using stage(2) 2 by simp
      then show ?thesis using blocked stage(1) blocked_stage(1) unfolding list_all_iff by metis
    next
      case (A_wait2 g)
      then have "opened s = 1" "id_pass s = 0" using stage(2) 2 nu by (auto simp: number_inv_def offered_def)
      moreover have "size (given s) = CHAMP_LIMIT"
        using nu A_wait2 calculation by (simp add: number_inv_def numbers_ok_def unclaimed_def)
      ultimately show ?thesis using blocked stage(1) blocked_stage(2) all_have [OF inv] unfolding list_all_iff by metis
    qed (use 2 in simp_all)
    then show False using not_all_parked [OF st] 2 by simp
  qed
qed

lemma champ_progress:
  assumes inv: "champ_inv s" and e: "boss s \<noteq> A_exit"
  shows "\<exists>t. regular_step s t"
proof (rule ccontr)
  assume none: "\<nexists>t. regular_step s t"
  have ex: "exclusive s" using inv by (simp add: champ_inv_def)
  then have len: "length (players s) = CHAMP_LIMIT" by (simp add: exclusive_def)
  have ps: "champ_threadfunc i s = None" if i: "i < CHAMP_LIMIT" for i
  proof (rule ccontr)
    assume "champ_threadfunc i s \<noteq> None"
    then obtain t where "champ_act (Act_player i) s = Some t" using e i len by (auto simp: champ_act_def)
    then show False using none unfolding regular_step_def by blast
  qed
  have b: "champ_main s = None" using none e by (cases "champ_main s") (auto simp: regular_step_def champ_act_def)
  have "mx s = None"
  proof (cases "mx s")
    case (Some k)
    then have "k \<le> CHAMP_LIMIT" using ex by (simp add: exclusive_def)
    then show ?thesis using owner_goes_on [OF ex Some] ps b by (cases "k = CHAMP_LIMIT") auto
  qed
  then show False using not_all_blocked [OF inv _ ps b] e by blast
qed

lemma regular_is_step: "regular_step s t \<Longrightarrow> champ_step s t"
  by (auto simp: regular_step_def champ_step_def)

interpretation championship: terminating_system champ_init regular_step champ_inv champ_mu "\<lambda>s. boss s = A_exit"
proof unfold_locales
  show "champ_inv s" if "champ_init s" for s using that by (rule champs.inv_init)
  show "champ_inv t" if "champ_inv s" "regular_step s t" for s t
    using that champs.inv_step regular_is_step by blast
  show "champ_mu t < champ_mu s" if "champ_inv s" "regular_step s t" for s t
    using that champ_mu_player champ_mu_boss
    by (auto simp: regular_step_def champ_act_def champ_inv_def exclusive_def split: if_splits)
  show "\<exists>t. regular_step s t" if "champ_inv s" "boss s \<noteq> A_exit" for s using that by (rule champ_progress)
qed

text \<open>
  Property C3. After the second opening of the barrier, in every run and whatever threads
  wake spuriously, the four players hold the four different numbers 1 to 4. The program cannot
  get stuck: from every state of every run the main thread's return can be reached, and a run
  without spurious wakeups has at most 1240 steps.
\<close>

theorem champions_numbered:
  assumes "length socks = CHAMP_LIMIT" "champ_step\<^sup>*\<^sup>* (champ_start socks) s"
  shows "(opened s = 2 \<longrightarrow> mset (map pid (players s)) = mset [1, 2, 3, 4]) \<and>
    (\<exists>t. regular_step\<^sup>*\<^sup>* s t \<and> boss t = A_exit \<and> opened t = 2) \<and>
    (\<forall>n t. (regular_step ^^ n) (champ_start socks) t \<longrightarrow> n \<le> 1240)"
proof (intro conjI allI impI)
  have init: "champ_init (champ_start socks)" using assms(1) by (auto simp: champ_init_def)
  have inv: "champ_inv s" by (rule champs.inv_reachable [OF init assms(2)])
  show "mset (map pid (players s)) = mset [1, 2, 3, 4]" if "opened s = 2"
    using all_numbered [OF inv that] by (simp add: CHAMP_LIMIT_def upt_rec numeral_eq_Suc)
  obtain t where t: "regular_step\<^sup>*\<^sup>* s t" "boss t = A_exit" using championship.reaches_final [OF inv] by blast
  have "champ_inv t" using championship.inv_steps [OF t(1) inv] .
  then have "opened t = 2" using t(2) by (auto simp: champ_inv_def in_step_def)
  with t show "\<exists>t. regular_step\<^sup>*\<^sup>* s t \<and> boss t = A_exit \<and> opened t = 2" by blast
  have "champ_mu (champ_start socks) = 1240"
    using assms(1) by (auto simp: champ_mu_def ranks_def champ_start_def CHAMP_LIMIT_def length_Suc_conv numeral_eq_Suc)
  then show "n \<le> 1240" if "(regular_step ^^ n) (champ_start socks) t" for n t
    using championship.run_length [OF that championship.inv_init [OF init]] by simp
qed

text \<open>
  A run in which player 3 sleeps before there is a number and wakes spuriously, and in which
  the main thread returns when only the first player has printed and answered.
\<close>

definition champ_schedule :: "champ_action list" where
  "champ_schedule = map Act_player [0..<4] @ [Act_boss] @
     concat (map (\<lambda>i. [Act_player i, Act_player i]) [0..<4]) @ [Act_player 3, Act_player 3, Act_spurious 3] @
     concat (map (\<lambda>i. replicate 4 Act_boss @ replicate 6 (Act_player i) @ replicate 3 Act_boss) [0..<4]) @
     map Act_player [0..<4] @ [Act_boss] @ replicate 4 (Act_player 0) @ [Act_boss]"

lemma champ_schedule_run:
  "map_option (\<lambda>s. (boss s, opened s, map pid (players s), announced s, sent_to s))
     (run_schedule champ_act champ_schedule (champ_start [5, 6, 7, 8])) = Some (A_exit, 2, [1, 2, 3, 4], [1], [5])"
  by code_simp

lemma champ_schedule_steps:
  "\<exists>s. champ_step\<^sup>*\<^sup>* (champ_start [5, 6, 7, 8]) s \<and> boss s = A_exit \<and> opened s = 2 \<and> announced s = [1] \<and> sent_to s = [5]"
proof -
  obtain s where s: "run_schedule champ_act champ_schedule (champ_start [5, 6, 7, 8]) = Some s"
    "boss s = A_exit" "opened s = 2" "announced s = [1]" "sent_to s = [5]"
    using champ_schedule_run by (auto split: option.splits)
  then have "champ_step\<^sup>*\<^sup>* (champ_start [5, 6, 7, 8]) s"
    by (intro run_schedule_steps [of champ_act]) (auto simp: champ_step_def)
  with s show ?thesis by blast
qed

lemma champions_numbered_witness:
  "\<exists>s. champ_step\<^sup>*\<^sup>* (champ_start [5, 6, 7, 8]) s \<and> opened s = 2 \<and> mset (map pid (players s)) = mset [1, 2, 3, 4]"
proof -
  obtain s where s: "champ_step\<^sup>*\<^sup>* (champ_start [5, 6, 7, 8]) s" "opened s = 2" using champ_schedule_steps by blast
  then have "mset (map pid (players s)) = mset [1, 2, 3, 4]"
    using champions_numbered [of "[5, 6, 7, 8]" s] by (simp add: CHAMP_LIMIT_def)
  with s show ?thesis by blast
qed

text \<open>The main thread does not wait for the players: the process may end with three of four unanswered.\<close>

lemma champions_unanswered:
  "\<exists>s. champ_step\<^sup>*\<^sup>* (champ_start [5, 6, 7, 8]) s \<and> boss s = A_exit \<and> sent_to s = [5] \<and> (\<forall>t. \<not> champ_step s t)"
proof -
  obtain s where "champ_step\<^sup>*\<^sup>* (champ_start [5, 6, 7, 8]) s" "boss s = A_exit" "sent_to s = [5]"
    using champ_schedule_steps by blast
  then show ?thesis by (intro exI [of _ s]) (simp add: champ_step_def champ_act_def)
qed

section \<open>The set-up\<close>

definition usage_champ :: "byte list \<Rightarrow> ('g, 'a) prog" where
  "usage_champ name = bind_m (eprintf (str ''USAGE: '' @ name @ str '' port'' @ [10])) (\<lambda>_. halt_m (Exit 1))"

definition champ_siginthandler :: "nat \<Rightarrow> bool \<Rightarrow> bool \<times> byte list list" where
  "champ_siginthandler sig work = (False, [])"

abbreviation (input) SYS_pthread_create :: sysno where "SYS_pthread_create \<equiv> 1070"
abbreviation (input) SYS_pthread_detach :: sysno where "SYS_pthread_detach \<equiv> 1071"

text \<open>Accepting on a descriptor that does not block: asked again and again until someone connects.\<close>

definition champ_accept :: "int \<Rightarrow> ('g, int) prog" where
  "champ_accept socket = loop_m (\<lambda>_.
     bind_m (retry (sys SYS_accept [socket] [] fd_ok)) (\<lambda>r.
     if r_val r < 0 then
       bind_m get_errno (\<lambda>e. if e = EAGAIN then ret (Inl ()) else err_exit ''accept'')
     else ret (Inr (r_val r)))) ()"

text \<open>
  \<open>init\<close>: the sockets of the players, in the order of their threads. \<open>pthread_create\<close>
  reports an error by a positive number, which the test below does not see; the handle is
  then not set and detaching it is undefined.
\<close>

definition champ_init_threads :: "int \<Rightarrow> ('g, int list) prog" where
  "champ_init_threads socket = for_m [0..<CHAMP_LIMIT] (\<lambda>i socks.
     bind_m (sys SYS_listen [socket, CHAMP_BACKLOG] [] status_ok) (\<lambda>l.
     if r_val l < 0 then err_exit ''listen''
     else bind_m (champ_accept socket) (\<lambda>con_fd.
     bind_m (sys SYS_pthread_create [int i] [] pthread_ok) (\<lambda>c.
     if r_val c < 0 then err_exit ''pthread_create''
     else if r_val c > 0 then halt_m Undef
     else bind_m (sys SYS_pthread_detach [int i] [] pthread_ok) (\<lambda>_. ret (socks @ [con_fd])))))) []"

text \<open>
  \<open>main\<close> up to its first wait at the barrier. The threads already run then, but they only
  arrive at the barrier, which cannot open without the main thread; \<open>champ_start\<close> begins with
  all of them before it. Waiting at a barrier whose creation failed is undefined.
\<close>

definition champ_setup :: "byte list list \<Rightarrow> (bool, int \<times> champ) prog" where
  "champ_setup argv =
     bind_m (if length argv \<noteq> 2 then usage_champ (argv ! 0) else ret ()) (\<lambda>_.
     bind_m (sys SYS_getpid [] [] any_ok) (\<lambda>p. bind_m (sys SYS_time [] [] any_ok) (\<lambda>t.
     bind_m (sys SYS_srand [r_val p * r_val t] [] any_ok) (\<lambda>_.
     bind_m (sethandler_err SIG_IGN SIGPIPE) (\<lambda>_.
     bind_m (sethandler_err (Handler champ_siginthandler) SIGINT) (\<lambda>_.
     bind_m (sigprocmask_block [SIGINT]) (\<lambda>oldmask.
     bind_m (bind_tcp_socket (word_of_int (atoi (argv ! 1))) CHAMP_BACKLOG) (\<lambda>socket.
     bind_m (set_nonblock socket) (\<lambda>n.
     if n = -1 then err_exit ''fcntl''
     else bind_m (sys SYS_barrier_init [int CHAMP_LIMIT + 1] [] pthread_ok) (\<lambda>b.
     if r_val b < 0 then err_exit ''pthread_barrier_init''
     else bind_m (champ_init_threads socket) (\<lambda>socks.
     if r_val b > 0 then halt_m Undef
     else ret (socket, champ_start socks))))))))))))"

definition champ_stop :: "halt \<Rightarrow> bool" where
  "champ_stop h \<longleftrightarrow> orderly h \<or> h = Undef"

lemma champ_stop_simps [simp]: "champ_stop (Exit 1)" "champ_stop Undef" "orderly h \<Longrightarrow> champ_stop h"
  by (simp_all add: champ_stop_def)

lemma wp_champ_sys:
  "(\<And>r w1. good r \<Longrightarrow> length (script w1) < length (script w) \<Longrightarrow> Q r w1) \<Longrightarrow>
   wp (sys n args p good) Q (\<lambda>h w1. champ_stop h) w"
  by (rule wp_sys) (auto simp: sys_halt_def champ_stop_def orderly_def dest: sys_post_shorter)

lemma wp_champ_accept: "(\<And>fd w1. 0 \<le> fd \<Longrightarrow> Q fd w1) \<Longrightarrow> wp (champ_accept socket) Q (\<lambda>h w1. champ_stop h) w"
  unfolding champ_accept_def
proof (rule wp_loop [where I = "\<lambda>_ _. True"])
  fix s :: unit and w :: "'a world"
  assume Q: "\<And>fd w1. 0 \<le> fd \<Longrightarrow> Q fd w1"
  let ?Q = "\<lambda>x w1. case x of Inl (s1 :: unit) \<Rightarrow> True \<and> length (script w1) < length (script w) | Inr r \<Rightarrow> Q r w1"
  show "wp (bind_m (retry (sys SYS_accept [socket] [] fd_ok)) (\<lambda>r.
     if r_val r < 0 then
       bind_m get_errno (\<lambda>e. if e = EAGAIN then ret (Inl ()) else err_exit ''accept'')
     else ret (Inr (r_val r)))) ?Q (\<lambda>h w1. champ_stop h) w"
    unfolding wp_bind
    by (rule wp_retry [where I = "\<lambda>v. length (script v) \<le> length (script w)"])
      (auto simp: wp_rules Q intro!: wp_champ_sys)
qed simp

lemma wp_champ_init_threads:
  "wp (champ_init_threads socket) (\<lambda>socks w1. length socks = CHAMP_LIMIT \<and> list_all (\<lambda>fd. 0 \<le> fd) socks)
     (\<lambda>h w1. champ_stop h) w"
  unfolding champ_init_threads_def
  by (rule wp_for [where I = "\<lambda>xs socks w. length socks + length xs = CHAMP_LIMIT \<and> list_all (\<lambda>fd. 0 \<le> fd) socks"])
    (auto simp: wp_rules intro!: wp_champ_sys wp_champ_accept)

lemma champ_setup_init:
  "wp (champ_setup argv) (\<lambda>(fd, s) w1. champ_init s \<and> list_all (\<lambda>p. 0 \<le> psocket p) (players s))
     (\<lambda>h w1. champ_stop h) w"
proof -
  have tcp: "wp (bind_tcp_socket port backlog) Q (\<lambda>h w1. champ_stop h) v"
    if "\<And>fd w1. Q fd w1" for port backlog Q and v :: "bool world"
    unfolding bind_tcp_socket_def make_socket_def by (auto simp: wp_rules that intro!: wp_champ_sys)
  have threads: "wp (champ_init_threads socket) Q (\<lambda>h w1. champ_stop h) v"
    if "\<And>socks w1. length socks = CHAMP_LIMIT \<Longrightarrow> list_all (\<lambda>fd. 0 \<le> fd) socks \<Longrightarrow> Q socks w1"
    for socket Q and v :: "bool world"
    by (rule wp_mono [OF wp_champ_init_threads]) (use that in auto)
  have start: "champ_init (champ_start socks) \<and> list_all (\<lambda>p. 0 \<le> psocket p) (players (champ_start socks))"
    if "length socks = CHAMP_LIMIT" "list_all (\<lambda>fd. 0 \<le> fd) socks" for socks
    using that by (auto simp: champ_init_def champ_start_def list.pred_map comp_def)
  show ?thesis
    unfolding champ_setup_def usage_champ_def sethandler_err_def sys_sigaction_def set_nonblock_def sigprocmask_block_def
    by (auto simp: wp_rules wp_pure start intro!: wp_champ_sys tcp threads)
qed

end
