(* ===== verification/Children.thy ===== *)
theory Children
  imports Posix Threads
begin

text \<open>
  \<open>Lab2/prog13a.c\<close> and \<open>prog13b.c\<close>: a parent forks \<open>n\<close> children that sleep a while, print and
  exit. In the second program the parent wakes up every three seconds, reaps the children
  that have ended and prints how many remain. Parent and children are interleaved; the kernel
  keeps an ended child until it is reaped.
\<close>

section \<open>State\<close>

text \<open>
  A child: the next call of \<open>child_work\<close> (\<open>K_sleep t\<close> with the seconds drawn), then ended, then
  reaped. \<open>D_fork k\<close> is the parent in \<open>create_children\<close> with \<open>n = k\<close>; \<open>D_killed\<close> is the group
  killed by \<open>ERR\<close>.
\<close>

datatype young_pc = K_seed | K_rand | K_sleep int | K_print | K_zombie | K_reaped

datatype parent_pc = D_fork int | D_test | D_sleep | D_wait | D_print | D_return | D_killed

record family =
  kin :: "young_pc list"
  dad :: parent_pc
  left_n :: int
  remains :: "int list"

definition nap :: "int \<Rightarrow> int" where
  "nap r = 5 + r mod (10 - 5 + 1)"

text \<open>\<open>child_work\<close>; \<open>r\<close> is what \<open>rand\<close> answers.\<close>

definition family_child_work :: "int \<Rightarrow> nat \<Rightarrow> family \<Rightarrow> family option" where
  "family_child_work r i s =
     (let go = (\<lambda>p. s\<lparr>kin := (kin s)[i := p]\<rparr>) in
      case kin s ! i of
        K_seed \<Rightarrow> Some (go K_rand)
      | K_rand \<Rightarrow> Some (go (K_sleep (nap r)))
      | K_sleep t \<Rightarrow> Some (go K_print)
      | K_print \<Rightarrow> Some (go K_zombie)
      | K_zombie \<Rightarrow> None
      | K_reaped \<Rightarrow> None)"

text \<open>
  \<open>create_children\<close> of the parent: the loop counts \<open>n\<close> down and forks while it is not negative;
  \<open>next\<close> is where \<open>main\<close> goes on.
\<close>

definition create_children :: "parent_pc \<Rightarrow> bool \<Rightarrow> int \<Rightarrow> family \<Rightarrow> family" where
  "create_children next ok n s =
     (if n - 1 < 0 then s\<lparr>dad := next\<rparr>
      else if \<not> ok then s\<lparr>dad := D_killed\<rparr>
      else s\<lparr>kin := kin s @ [K_seed], dad := D_fork (n - 1)\<rparr>)"

text \<open>
  \<open>waitpid(0, NULL, WNOHANG)\<close>: a child that has ended is reaped (the kernel chooses \<open>i\<close>), 0 when
  there are children but none has ended, -1 with ECHILD when there is none.
\<close>

definition wait_nohang :: "nat \<Rightarrow> family \<Rightarrow> (int \<times> family) option" where
  "wait_nohang i s =
     (if \<exists>k \<in> set (kin s). k = K_zombie then
        (if i < length (kin s) \<and> kin s ! i = K_zombie then Some (1, s\<lparr>kin := (kin s)[i := K_reaped]\<rparr>) else None)
      else if \<exists>k \<in> set (kin s). k \<noteq> K_reaped then Some (0, s)
      else Some (-1, s))"

text \<open>\<open>main\<close> of \<open>prog13b\<close>: \<open>D_wait\<close> is the call in the inner loop.\<close>

definition parent_main :: "bool \<Rightarrow> nat \<Rightarrow> family \<Rightarrow> family option" where
  "parent_main ok i s =
     (case dad s of
        D_fork n \<Rightarrow> Some (create_children D_test ok n s)
      | D_test \<Rightarrow> Some (if left_n s > 0 then s\<lparr>dad := D_sleep\<rparr> else s\<lparr>dad := D_return\<rparr>)
      | D_sleep \<Rightarrow> Some (s\<lparr>dad := D_wait\<rparr>)
      | D_wait \<Rightarrow> map_option (\<lambda>(pid, t).
          if pid > 0 then t\<lparr>left_n := left_n t - 1\<rparr> else t\<lparr>dad := D_print\<rparr>) (wait_nohang i s)
      | D_print \<Rightarrow> Some (s\<lparr>dad := D_test, remains := remains s @ [left_n s]\<rparr>)
      | D_return \<Rightarrow> None
      | D_killed \<Rightarrow> None)"

text \<open>\<open>main\<close> of \<open>prog13a\<close> returns after the forks.\<close>

definition orphan_main :: "bool \<Rightarrow> family \<Rightarrow> family option" where
  "orphan_main ok s = (case dad s of D_fork n \<Rightarrow> Some (create_children D_return ok n s) | _ \<Rightarrow> None)"

definition family_start :: "int \<Rightarrow> family" where
  "family_start n = \<lparr>kin = [], dad = D_fork n, left_n = n, remains = []\<rparr>"

text \<open>The arguments.\<close>

definition usage13 :: "byte list \<Rightarrow> ('g, 'a) prog" where
  "usage13 name = bind_m (eprintf (str ''USAGE: '' @ name @ str '' 0<n'' @ [10])) (\<lambda>_. halt_m (Exit 1))"

definition children_args :: "byte list list \<Rightarrow> ('g, int) prog" where
  "children_args argv =
     bind_m (if length argv < 2 then usage13 (argv ! 0) else ret ()) (\<lambda>_.
     let n = atoi (argv ! 1) in
     if n \<le> 0 then usage13 (argv ! 0) else ret n)"

section \<open>Runs\<close>

text \<open>
  An action: the parent, with whether \<open>fork\<close> succeeds and which child \<open>waitpid\<close> reaps, or a
  child with what \<open>rand\<close> answers. When the group is killed nothing moves; children of a parent
  that has returned go on.
\<close>

datatype family_action = Act_parent bool nat | Act_child int nat

definition family_act :: "family_action \<Rightarrow> family \<Rightarrow> family option" where
  "family_act a s =
     (if dad s = D_killed then None
      else case a of
        Act_parent ok i \<Rightarrow> parent_main ok i s
      | Act_child r i \<Rightarrow> if i < length (kin s) then family_child_work r i s else None)"

definition family_step :: "family \<Rightarrow> family \<Rightarrow> bool" where
  "family_step s t \<longleftrightarrow> (\<exists>a. family_act a s = Some t)"

definition asleep :: "young_pc \<Rightarrow> bool" where
  "asleep k \<longleftrightarrow> k \<notin> {K_zombie, K_reaped}"

text \<open>
  Runs in which the parent looks only when every child has ended: sleeping takes at most ten
  seconds, so this is the case from some round on.
\<close>

definition patient_step :: "family \<Rightarrow> family \<Rightarrow> bool" where
  "patient_step s t \<longleftrightarrow>
     (\<exists>r i. family_act (Act_child r i) s = Some t) \<or>
     ((\<exists>i. family_act (Act_parent True i) s = Some t) \<and> ((\<exists>n. dad s = D_fork n) \<or> (\<forall>k \<in> set (kin s). \<not> asleep k)))"

section \<open>The count\<close>

definition unreaped :: "family \<Rightarrow> int" where
  "unreaped s = threads_in (\<lambda>k. k \<noteq> K_reaped) (kin s)"

definition counted :: "int \<Rightarrow> family \<Rightarrow> bool" where
  "counted n s \<longleftrightarrow> (case dad s of
       D_fork k \<Rightarrow> 0 \<le> k \<and> k + int (length (kin s)) = n \<and> left_n s = n \<and> remains s = [] \<and> unreaped s = int (length (kin s))
     | D_killed \<Rightarrow> True
     | D_sleep \<Rightarrow> int (length (kin s)) = n \<and> left_n s = unreaped s \<and> 0 < left_n s
     | D_return \<Rightarrow> int (length (kin s)) = n \<and> left_n s = unreaped s \<and> left_n s = 0
     | _ \<Rightarrow> int (length (kin s)) = n \<and> left_n s = unreaped s)"

definition reports_fall :: "family \<Rightarrow> bool" where
  "reports_fall s \<longleftrightarrow> sorted_wrt (\<ge>) (remains s) \<and> (dad s \<noteq> D_killed \<longrightarrow> (\<forall>r \<in> set (remains s). left_n s \<le> r))"

definition naps_ok :: "family \<Rightarrow> bool" where
  "naps_ok s \<longleftrightarrow> list_all (\<lambda>k. case k of K_sleep t \<Rightarrow> 5 \<le> t \<and> t \<le> 10 | _ \<Rightarrow> True) (kin s)"

definition family_inv :: "int \<Rightarrow> family \<Rightarrow> bool" where
  "family_inv n s \<longleftrightarrow> counted n s \<and> reports_fall s \<and> naps_ok s"

lemma nap_range: "5 \<le> nap r \<and> nap r \<le> 10"
  using pos_mod_sign [of 6 r] pos_mod_bound [of 6 r] by (simp add: nap_def)

lemma child_frame:
  assumes "family_child_work r i s = Some t" "i < length (kin s)"
  shows "length (kin t) = length (kin s)" "unreaped t = unreaped s" "dad t = dad s" "left_n t = left_n s" "remains t = remains s"
  using assms by (cases "kin s ! i"; auto simp: family_child_work_def Let_def unreaped_def threads_in_update)+

lemma child_inv:
  assumes "family_inv n s" "family_child_work r i s = Some t" "i < length (kin s)"
  shows "family_inv n t"
proof -
  have "naps_ok t" using assms nap_range
    by (cases "kin s ! i") (auto simp: family_inv_def naps_ok_def family_child_work_def Let_def list_all_update)
  moreover have "counted n t" using assms child_frame [OF assms(2,3)]
    by (auto simp: family_inv_def counted_def split: parent_pc.splits)
  moreover have "reports_fall t" using assms child_frame [OF assms(2,3)] by (simp add: family_inv_def reports_fall_def)
  ultimately show ?thesis by (simp add: family_inv_def)
qed

lemma wait_nohang_cases:
  assumes "wait_nohang i s = Some (pid, t)"
  shows "(pid = 1 \<and> i < length (kin s) \<and> kin s ! i = K_zombie \<and> t = s\<lparr>kin := (kin s)[i := K_reaped]\<rparr>) \<or>
    (pid \<le> 0 \<and> t = s \<and> K_zombie \<notin> set (kin s))"
  using assms by (auto simp: wait_nohang_def split: if_splits)

lemma parent_inv:
  assumes inv: "family_inv n s" and t: "parent_main ok i s = Some t"
  shows "family_inv n t"
proof (cases "dad s = D_wait")
  case True
  then obtain pid u where w: "wait_nohang i s = Some (pid, u)"
    and t: "t = (if pid > 0 then u\<lparr>left_n := left_n u - 1\<rparr> else u\<lparr>dad := D_print\<rparr>)"
    using t by (auto simp: parent_main_def)
  show ?thesis
    using wait_nohang_cases [OF w] inv t True
    by (auto simp: family_inv_def counted_def reports_fall_def naps_ok_def unreaped_def threads_in_update list_all_update)
      (smt (verit))
next
  case False
  have "0 \<le> unreaped s" by (simp add: unreaped_def)
  then have "0 < unreaped s \<or> unreaped s = 0" by linarith
  with False show ?thesis using inv t
    by (cases "dad s")
      (auto simp: family_inv_def counted_def reports_fall_def naps_ok_def unreaped_def parent_main_def create_children_def
        sorted_wrt_append split: if_splits)
qed

lemma family_act_cases [consumes 1, case_names dad kid]:
  assumes "family_act a s = Some t"
  obtains ok i where "a = Act_parent ok i" "dad s \<noteq> D_killed" "parent_main ok i s = Some t"
  | r i where "a = Act_child r i" "dad s \<noteq> D_killed" "i < length (kin s)" "family_child_work r i s = Some t"
  using assms by (auto simp: family_act_def split: family_action.splits if_splits)

lemma family_step_inv: "family_inv n s \<Longrightarrow> family_step s t \<Longrightarrow> family_inv n t"
  unfolding family_step_def by (elim exE) (auto elim!: family_act_cases intro: child_inv parent_inv)

lemma family_start_inv: "0 < n \<Longrightarrow> family_inv n (family_start n)"
  by (simp add: family_start_def family_inv_def counted_def reports_fall_def naps_ok_def unreaped_def)

definition family_init :: "int \<Rightarrow> family \<Rightarrow> bool" where
  "family_init n s \<longleftrightarrow> 0 < n \<and> s = family_start n"

interpretation families: inv_system "family_init n" family_step "family_inv n" for n
  by unfold_locales
    (auto simp: family_init_def intro: family_start_inv family_step_inv)

section \<open>Termination\<close>

fun kid_rank :: "young_pc \<Rightarrow> nat" where
  "kid_rank K_seed = 5" | "kid_rank K_rand = 4" | "kid_rank (K_sleep t) = 3" | "kid_rank K_print = 2"
| "kid_rank K_zombie = 1" | "kid_rank K_reaped = 0"

definition dad_rank :: "family \<Rightarrow> nat" where
  "dad_rank s = (case dad s of
       D_fork k \<Rightarrow> 60 * nat k + 7
     | D_print \<Rightarrow> if 0 < left_n s then 6 else 2
     | D_test \<Rightarrow> if 0 < left_n s then 5 else 1
     | D_sleep \<Rightarrow> 4
     | D_wait \<Rightarrow> 3
     | _ \<Rightarrow> 0)"

definition family_mu :: "family \<Rightarrow> nat" where
  "family_mu s = 10 * sum_list (map kid_rank (kin s)) + dad_rank s"

lemma family_mu_child:
  assumes "family_child_work r i s = Some t" "i < length (kin s)"
  shows "family_mu t < family_mu s"
proof -
  have "kin t = (kin s)[i := kin t ! i] \<and> kid_rank (kin t ! i) < kid_rank (kin s ! i)"
    using assms by (cases "kin s ! i") (auto simp: family_child_work_def Let_def)
  then obtain y where y: "kin t = (kin s)[i := y]" "kid_rank y < kid_rank (kin s ! i)" by blast
  show ?thesis using sum_list_map_update_nat [OF assms(2), of kid_rank y] y child_frame [OF assms]
    by (simp add: family_mu_def dad_rank_def)
qed

lemma nothing_left:
  "\<forall>k \<in> set ks. \<not> asleep k \<Longrightarrow> K_zombie \<notin> set ks \<Longrightarrow> threads_in (\<lambda>k. k \<noteq> K_reaped) ks = 0"
  by (rule threads_in_zero) (auto simp: asleep_def)

lemma family_mu_parent:
  assumes inv: "family_inv n s" and t: "parent_main True i s = Some t"
    and patient: "(\<exists>n. dad s = D_fork n) \<or> (\<forall>k \<in> set (kin s). \<not> asleep k)"
  shows "family_mu t < family_mu s"
proof (cases "dad s = D_wait")
  case True
  then obtain pid u where w: "wait_nohang i s = Some (pid, u)"
    and t: "t = (if pid > 0 then u\<lparr>left_n := left_n u - 1\<rparr> else u\<lparr>dad := D_print\<rparr>)"
    using t by (auto simp: parent_main_def)
  from wait_nohang_cases [OF w] show ?thesis
  proof
    assume r: "pid = 1 \<and> i < length (kin s) \<and> kin s ! i = K_zombie \<and> u = s\<lparr>kin := (kin s)[i := K_reaped]\<rparr>"
    then show ?thesis using sum_list_map_update_nat [of i "kin s" kid_rank K_reaped] t True
      by (auto simp: family_mu_def dad_rank_def)
  next
    assume r: "pid \<le> 0 \<and> u = s \<and> K_zombie \<notin> set (kin s)"
    then have "left_n s = 0"
      using inv True patient nothing_left [of "kin s"] by (auto simp: family_inv_def counted_def unreaped_def)
    then show ?thesis using r t True by (auto simp: family_mu_def dad_rank_def)
  qed
next
  case False
  then show ?thesis using inv t
    by (cases "dad s")
      (auto simp: family_mu_def dad_rank_def parent_main_def create_children_def family_inv_def counted_def nat_diff_distrib
        split: if_splits)
qed

lemma family_progress:
  assumes inv: "family_inv n s" and run: "dad s \<notin> {D_return, D_killed}"
  shows "\<exists>t. patient_step s t"
proof (cases "(\<exists>n. dad s = D_fork n) \<or> (\<forall>k \<in> set (kin s). \<not> asleep k)")
  case True
  have "\<exists>i t. family_act (Act_parent True i) s = Some t"
  proof (cases "dad s = D_wait \<and> K_zombie \<in> set (kin s)")
    case True
    then obtain i where "i < length (kin s)" "kin s ! i = K_zombie" by (auto simp: in_set_conv_nth)
    then show ?thesis using True by (intro exI [of _ i]) (auto simp: family_act_def parent_main_def wait_nohang_def)
  next
    case False
    then show ?thesis using run
      by (cases "dad s") (auto simp: family_act_def parent_main_def wait_nohang_def)
  qed
  then show ?thesis using True unfolding patient_step_def by blast
next
  case False
  then obtain i where "i < length (kin s)" "asleep (kin s ! i)" by (auto simp: in_set_conv_nth)
  then have "family_act (Act_child 0 i) s \<noteq> None"
    using run by (cases "kin s ! i") (auto simp: asleep_def family_act_def family_child_work_def Let_def)
  then show ?thesis unfolding patient_step_def by blast
qed

lemma patient_is_step: "patient_step s t \<Longrightarrow> family_step s t"
  by (auto simp: patient_step_def family_step_def)

interpretation patient: terminating_system "family_init n" patient_step "family_inv n" family_mu
    "\<lambda>s. dad s \<in> {D_return, D_killed}" for n
proof unfold_locales
  show "family_inv n s" if "family_init n s" for s using that by (rule families.inv_init)
  show "family_inv n t" if "family_inv n s" "patient_step s t" for s t
    using that patient_is_step family_step_inv by blast
  show "family_mu t < family_mu s" if "family_inv n s" "patient_step s t" for s t
    using that(2) family_mu_child family_mu_parent [OF that(1)] unfolding patient_step_def
    by (auto simp: family_act_def split: if_splits)
  show "\<exists>t. patient_step s t" if "family_inv n s" "dad s \<notin> {D_return, D_killed}" for s using that by (rule family_progress)
qed

lemma patient_alive: "patient_step\<^sup>*\<^sup>* s t \<Longrightarrow> dad s \<noteq> D_killed \<Longrightarrow> dad t \<noteq> D_killed"
proof (induction rule: rtranclp_induct)
  case (step u v)
  then have u: "dad u \<noteq> D_killed" "patient_step u v" by blast+
  then consider r i where "family_act (Act_child r i) u = Some v" | i where "parent_main True i u = Some v"
    by (auto simp: patient_step_def family_act_def)
  then show ?case
  proof cases
    case (1 r i)
    then show ?thesis using u child_frame(3) by (auto simp: family_act_def split: if_splits)
  next
    case (2 i)
    then show ?thesis using u(1)
      by (cases "dad u") (auto simp: parent_main_def create_children_def wait_nohang_def split: if_splits)
  qed
qed

text \<open>
  Property C33. In every run of \<open>prog13b\<close> with \<open>n\<close> children, the number the parent prints next is
  the number of children it has not reaped, the numbers printed never rise, and when it
  returns all \<open>n\<close> children have ended and been reaped. Unless a fork fails, it can always still
  return, which it does after boundedly many steps once it looks at ended children only.
\<close>

theorem children_are_counted:
  assumes "0 < n" "family_step\<^sup>*\<^sup>* (family_start n) s"
  shows "(dad s = D_print \<longrightarrow> left_n s = unreaped s) \<and> sorted_wrt (\<ge>) (remains s) \<and>
    (dad s = D_return \<longrightarrow> kin s = replicate (nat n) K_reaped) \<and>
    (dad s \<noteq> D_killed \<longrightarrow> (\<exists>t. patient_step\<^sup>*\<^sup>* s t \<and> dad t = D_return)) \<and>
    (\<forall>m t. (patient_step ^^ m) s t \<longrightarrow> m \<le> family_mu s)"
proof (intro conjI impI allI)
  have inv: "family_inv n s"
    by (rule families.inv_reachable [of n "family_start n"]) (use assms in \<open>simp_all add: family_init_def\<close>)
  show "left_n s = unreaped s" if "dad s = D_print" using inv that by (simp add: family_inv_def counted_def)
  show "sorted_wrt (\<ge>) (remains s)" using inv by (simp add: family_inv_def reports_fall_def)
  show "kin s = replicate (nat n) K_reaped" if "dad s = D_return"
  proof (rule nth_equalityI)
    show "length (kin s) = length (replicate (nat n) K_reaped)" using inv that by (auto simp: family_inv_def counted_def)
    fix i assume "i < length (kin s)"
    then show "kin s ! i = replicate (nat n) K_reaped ! i"
      using inv that threads_in_zeroD [of "\<lambda>k. k \<noteq> K_reaped" "kin s" i] by (auto simp: family_inv_def counted_def unreaped_def)
  qed
  show "\<exists>t. patient_step\<^sup>*\<^sup>* s t \<and> dad t = D_return" if "dad s \<noteq> D_killed"
    using patient.reaches_final [OF inv] patient_alive that by blast
  show "m \<le> family_mu s" if "(patient_step ^^ m) s t" for m t
    using patient.run_length [OF that inv] by simp
qed

text \<open>Two children; the first ends before the parent looks for the first time.\<close>

definition family_schedule :: "family_action list" where
  "family_schedule = replicate 3 (Act_parent True 0) @ [Act_parent True 0] @ replicate 4 (Act_child 7 0) @ [Act_child 9 1] @
     replicate 5 (Act_parent True 0) @ replicate 3 (Act_child 9 1) @ replicate 5 (Act_parent True 1)"

lemma family_schedule_run:
  "map_option (\<lambda>s. (dad s, kin s, remains s)) (run_schedule family_act family_schedule (family_start 2)) =
     Some (D_return, [K_reaped, K_reaped], [1, 0])"
  by code_simp

theorem children_are_counted_witness:
  "\<exists>s. family_step\<^sup>*\<^sup>* (family_start 2) s \<and> kin s = replicate 2 K_reaped \<and> remains s = [1, 0]"
proof -
  obtain s where s: "run_schedule family_act family_schedule (family_start 2) = Some s" "dad s = D_return" "remains s = [1, 0]"
    using family_schedule_run by auto
  then have "family_step\<^sup>*\<^sup>* (family_start 2) s"
    by (intro run_schedule_steps [of family_act]) (auto simp: family_step_def)
  moreover from this have "kin s = replicate 2 K_reaped" using children_are_counted [of 2 s] s(2) by simp
  ultimately show ?thesis using s(3) by blast
qed

section \<open>prog13a\<close>

text \<open>The parent returns while its children run; no one reaps them for it.\<close>

definition orphan_act :: "family_action \<Rightarrow> family \<Rightarrow> family option" where
  "orphan_act a s =
     (if dad s = D_killed then None
      else case a of
        Act_parent ok i \<Rightarrow> orphan_main ok s
      | Act_child r i \<Rightarrow> if i < length (kin s) then family_child_work r i s else None)"

lemma orphans_left:
  "map_option (\<lambda>s. (dad s, kin s)) (run_schedule orphan_act (replicate 3 (Act_parent True 0)) (family_start 2)) =
     Some (D_return, [K_seed, K_seed])"
  by code_simp

lemma children_args_positive: "wp (children_args argv) (\<lambda>n w1. 0 < n) (\<lambda>h w1. h = Exit 1) w"
  by (simp add: children_args_def usage13_def wp_rules Let_def)

end
