(* ===== verification/SignalRounds.thy ===== *)
theory SignalRounds
  imports Posix
begin

text \<open>
  \<open>Lab2/prog14.c\<close>: a parent sends its process group SIGUSR1 and SIGUSR2 in turn until an alarm;
  its children note the last signal they received and report after each of \<open>l\<close> sleeps whether
  it was SIGUSR1. The global is \<open>last_signal\<close>.
\<close>

section \<open>Handlers\<close>

definition rounds_sethandler :: "'g handler \<Rightarrow> nat \<Rightarrow> ('g, unit) prog" where
  "rounds_sethandler f sigNo = bind_m (sys_sigaction sigNo f) (\<lambda>r.
     if r_val r = -1 then err_kill ''sigaction'' else ret ())"

definition signal_line :: "int \<Rightarrow> nat \<Rightarrow> byte list" where
  "signal_line pid sig = str ''['' @ fmt_d pid @ str ''] received signal '' @ fmt_d (int sig) @ [10]"

text \<open>\<open>sig_handler\<close>; \<open>pid\<close> is what \<open>getpid\<close> answers in the process, the same at every call.\<close>

definition rounds_sig_handler :: "int \<Rightarrow> nat \<Rightarrow> int \<Rightarrow> int \<times> byte list list" where
  "rounds_sig_handler pid sig last_sig = (int sig, [signal_line pid sig])"

text \<open>\<open>sigchld_handler\<close>: it reaps what has ended; as a handler it leaves the globals alone.\<close>

definition rounds_sigchld_handler :: "('g, unit) prog" where
  "rounds_sigchld_handler = loop_m (\<lambda>_. bind_m (sys SYS_waitpid [0, 1] [] fd_ok) (\<lambda>r.
     if r_val r = 0 then ret (Inr ())
     else if r_val r \<le> 0 then
       bind_m get_errno (\<lambda>e. if e = ECHILD then ret (Inr ()) else err_kill ''waitpid'')
     else ret (Inl ()))) ()"

definition rounds_reaps :: "nat \<Rightarrow> 'g \<Rightarrow> 'g \<times> byte list list" where
  "rounds_reaps sig g = (g, [])"

section \<open>The child\<close>

definition verdict_line :: "int \<Rightarrow> int \<Rightarrow> byte list" where
  "verdict_line pid last_sig =
     (if last_sig = int SIGUSR1 then str ''Success ['' else str ''Failed ['') @ fmt_d pid @ str '']'' @ [10]"

definition farewell_line :: "int \<Rightarrow> byte list" where
  "farewell_line pid = str ''['' @ fmt_d pid @ str ''] Terminates '' @ [10]"

text \<open>\<open>sleep\<close> answers the seconds that were left when a signal interrupted it.\<close>

definition sleep_ok :: "int \<Rightarrow> reply \<Rightarrow> bool" where
  "sleep_ok tt r \<longleftrightarrow> 0 \<le> r_val r \<and> r_val r \<le> tt"

definition sleep_out :: "int \<Rightarrow> ('g, unit) prog" where
  "sleep_out = loop_m (\<lambda>tt. if tt > 0 then bind_m (sys SYS_sleep [tt] [] (sleep_ok tt)) (\<lambda>r. ret (Inl (r_val r)))
     else ret (Inr ()))"

definition rounds_child_work :: "int \<Rightarrow> int \<Rightarrow> (int, unit) prog" where
  "rounds_child_work pid l =
     bind_m (sys SYS_srand [pid] [] any_ok) (\<lambda>_.
     bind_m rand_m (\<lambda>v.
     let t = v mod 6 + 5 in
     bind_m (for_m [0..<nat l] (\<lambda>_ _.
       bind_m (sleep_out t) (\<lambda>_.
       bind_m get_glob (\<lambda>last_sig.
       printf (verdict_line pid last_sig)))) ()) (\<lambda>_.
     printf (farewell_line pid))))"

section \<open>The parent\<close>

text \<open>A turn of the loop; the seconds of the alarm are computed in \<open>int\<close>.\<close>

definition rounds_turn :: "int \<Rightarrow> int \<Rightarrow> unit \<Rightarrow> (int, unit + unit) prog" where
  "rounds_turn k p = (\<lambda>_. bind_m get_glob (\<lambda>last_sig.
     if last_sig = int SIGALRM then ret (Inr ())
     else bind_m (sys SYS_nanosleep [k, 0] [] status_ok) (\<lambda>_.
     bind_m (sys SYS_kill [0, int SIGUSR1] [] status_ok) (\<lambda>a.
     if r_val a < 0 then err_kill ''kill''
     else bind_m (sys SYS_nanosleep [p, 0] [] status_ok) (\<lambda>_.
     bind_m (sys SYS_kill [0, int SIGUSR2] [] status_ok) (\<lambda>b.
     if r_val b < 0 then err_kill ''kill'' else ret (Inl ())))))))"

definition rounds_parent_work :: "int \<Rightarrow> int \<Rightarrow> int \<Rightarrow> int \<Rightarrow> (int, unit) prog" where
  "rounds_parent_work pid k p l =
     bind_m (rounds_sethandler (Handler (rounds_sig_handler pid)) SIGALRM) (\<lambda>_.
     if in_int (l * 10) then
       bind_m (sys SYS_alarm [l * 10] [] any_ok) (\<lambda>_.
       bind_m (loop_m (rounds_turn k p) ()) (\<lambda>_.
       printf (str ''[PARENT] Terminates '' @ [10])))
     else halt_m Undef)"

text \<open>\<open>child\<close> and \<open>pid\<close> are the process ids of a child and of the parent.\<close>

definition rounds_create_children :: "int \<Rightarrow> int \<Rightarrow> int \<Rightarrow> (int, unit) prog" where
  "rounds_create_children child n l = for_m [0..<nat n] (\<lambda>_ _.
     bind_m (sys SYS_fork [] [] fd_ok) (\<lambda>f.
     if r_val f = 0 then
       bind_m (rounds_sethandler (Handler (rounds_sig_handler child)) SIGUSR1) (\<lambda>_.
       bind_m (rounds_sethandler (Handler (rounds_sig_handler child)) SIGUSR2) (\<lambda>_.
       bind_m (rounds_child_work child l) (\<lambda>_. halt_m (Exit 0))))
     else if r_val f = -1 then err_exit ''Fork:''
     else ret ())) ()"

definition rounds_usage :: "('g, 'a) prog" where
  "rounds_usage =
     bind_m (eprintf (str ''USAGE: signals n k p l'' @ [10])) (\<lambda>_.
     bind_m (eprintf (str ''n - number of children'' @ [10])) (\<lambda>_.
     bind_m (eprintf (str ''k - Interval before SIGUSR1'' @ [10])) (\<lambda>_.
     bind_m (eprintf (str ''p - Interval before SIGUSR2'' @ [10])) (\<lambda>_.
     bind_m (eprintf (str ''l - lifetime of child in cycles'' @ [10])) (\<lambda>_. halt_m (Exit 1))))))"

definition rounds_main :: "int \<Rightarrow> int \<Rightarrow> byte list list \<Rightarrow> (int, int) prog" where
  "rounds_main pid child argv =
     bind_m (if length argv \<noteq> 5 then rounds_usage else ret ()) (\<lambda>_.
     let n = atoi (argv ! 1); k = atoi (argv ! 2); p = atoi (argv ! 3); l = atoi (argv ! 4) in
     bind_m (if n \<le> 0 \<or> k \<le> 0 \<or> p \<le> 0 \<or> l \<le> 0 then rounds_usage else ret ()) (\<lambda>_.
     bind_m (rounds_sethandler (Handler rounds_reaps) SIGCHLD) (\<lambda>_.
     bind_m (rounds_sethandler SIG_IGN SIGUSR1) (\<lambda>_.
     bind_m (rounds_sethandler SIG_IGN SIGUSR2) (\<lambda>_.
     bind_m (rounds_create_children child n l) (\<lambda>_.
     bind_m (rounds_parent_work pid k p l) (\<lambda>_.
     bind_m (loop_m (\<lambda>_. bind_m (sys SYS_wait [] [] fd_ok) (\<lambda>r.
       if 0 < r_val r then ret (Inl ()) else ret (Inr ()))) ()) (\<lambda>_. ret 0))))))))"

section \<open>What a child prints\<close>




















section \<open>What the parent sends\<close>

definition kills :: "event list \<Rightarrow> int list list" where
  "kills tr = map (\<lambda>(n, args, p, v). args) (filter (\<lambda>(n, args, p, v). n = SYS_kill) (syscalls tr))"

fun signal_rounds :: "nat \<Rightarrow> int list list" where
  "signal_rounds 0 = []"
| "signal_rounds (Suc m) = signal_rounds m @ [[0, int SIGUSR1], [0, int SIGUSR2]]"

lemma wp_kills:
  assumes "\<And>r w1. good r \<Longrightarrow> kills (trace w1) = kills (trace w) @ (if n = SYS_kill then [args] else []) \<Longrightarrow>
      length (script w1) < length (script w) \<Longrightarrow> Q r w1"
  shows "wp (sys n args p good) Q (\<lambda>h w1. True) w"
proof (rule wp_sys)
  fix r w1 assume "good r" "sys_post n args p r w w1"
  then show "Q r w1" using sys_post_traces(4) [of n args p r w w1] sys_post_shorter [of n args p r w w1]
    by (intro assms) (simp_all add: kills_def)
qed simp

lemma wp_rounds_turn:
  assumes m: "kills (trace v) = kills (trace w) @ signal_rounds m"
  shows "wp (rounds_turn k p ()) (\<lambda>x w1.
      (\<exists>m. kills (trace w1) = kills (trace w) @ signal_rounds m) \<and>
      (case x of Inl s1 \<Rightarrow> length (script w1) < length (script v) | Inr r \<Rightarrow> True)) (\<lambda>h w1. True) v"
proof -
  show ?thesis unfolding rounds_turn_def
    using m by (auto simp: wp_rules intro!: wp_kills) (rule exI [of _ "Suc m"], simp)
qed

text \<open>The parent sends both signals in every round it begins, in this order.\<close>

lemma rounds_parent_pairs:
  "wp (rounds_parent_work pid k p l) (\<lambda>_ w1. \<exists>m. kills (trace w1) = kills (trace w) @ signal_rounds m) (\<lambda>h w1. True) w"
proof -
  have loop: "wp (loop_m (rounds_turn k p) ())
      (\<lambda>_ w1. \<exists>m. kills (trace w1) = kills (trace w) @ signal_rounds m) (\<lambda>h w1. True) v"
    if "kills (trace v) = kills (trace w)" for v :: "int world"
  proof (rule wp_loop [where I = "\<lambda>_ v. \<exists>m. kills (trace v) = kills (trace w) @ signal_rounds m"])
    show "\<exists>m. kills (trace v) = kills (trace w) @ signal_rounds m" using that by (intro exI [of _ 0]) simp
  next
    fix u :: unit and v2 :: "int world" assume "\<exists>m. kills (trace v2) = kills (trace w) @ signal_rounds m"
    then obtain m where "kills (trace v2) = kills (trace w) @ signal_rounds m" by blast
    from wp_rounds_turn [OF this, of k p]
    show "wp (rounds_turn k p u) (\<lambda>x w1. case x of
        Inl s1 \<Rightarrow> (\<exists>m. kills (trace w1) = kills (trace w) @ signal_rounds m) \<and> length (script w1) < length (script v2)
      | Inr r \<Rightarrow> \<exists>m. kills (trace w1) = kills (trace w) @ signal_rounds m) (\<lambda>h w1. True) v2"
      by (simp, elim wp_mono) (auto split: sum.splits)
  qed
  have outs: "kills (tr @ [Out x]) = kills tr" for tr x by (simp add: kills_def)
  show ?thesis
    unfolding rounds_parent_work_def rounds_sethandler_def sys_sigaction_def
    by (auto simp: wp_rules wp_pure outs intro!: wp_kills wp_mono [OF loop]) (rule exI, rule refl)+
qed

text \<open>A lifetime above 214748364 rounds makes the computation of the alarm overflow.\<close>

lemma rounds_alarm_overflow:
  "fst (rounds_parent_work 6 1 1 214748365 (idle [ok_reply 0] 0)) = Halt Undef"
  by code_simp

end
