(* ===== verification/SignalCount.thy ===== *)
theory SignalCount
  imports Threads SignalRounds
begin

text \<open>
  \<open>Lab2/prog15.c\<close>: a child sends its parent \<open>p\<close> times SIGUSR1 and then one SIGUSR2, again and
  again; the parent, which has both signals blocked outside \<open>sigsuspend\<close>, counts the SIGUSR2 it
  receives through the variable \<open>last_signal\<close>. The two processes are interleaved; of each kind
  at most one signal is pending.
\<close>

section \<open>State\<close>

text \<open>
  The next call of each process. \<open>C_sleep i\<close> is the \<open>nanosleep\<close> before the \<open>i\<close>-th signal of a
  round; \<open>B_killed\<close> is the group killed by \<open>ERR\<close>. The handler of SIGCHLD changes nothing here, as
  the child never ends by itself.
\<close>

datatype sender_pc = C_sleep nat | C_usr1 nat | C_usr2 | C_print

datatype receiver_pc = B_reset | B_suspend | B_count | B_report | B_killed

record exchange =
  sender :: sender_pc
  csent :: nat
  receiver :: receiver_pc
  last_signal :: nat
  pending :: "nat list"
  bcount :: nat
  sent_lines :: "nat list"
  received_lines :: "nat list"

definition last_handler :: "nat \<Rightarrow> nat \<Rightarrow> nat" where
  "last_handler sig last_sig = sig"

text \<open>A signal to the parent, which has it blocked: it becomes pending unless it is already.\<close>

definition send_signal :: "nat \<Rightarrow> exchange \<Rightarrow> exchange" where
  "send_signal sig s = s\<lparr>pending := List.insert sig (pending s)\<rparr>"

text \<open>\<open>child_work\<close>; \<open>ok\<close> is whether \<open>kill\<close> succeeds.\<close>

definition sender_work :: "nat \<Rightarrow> bool \<Rightarrow> exchange \<Rightarrow> exchange" where
  "sender_work p ok s =
     (case sender s of
        C_sleep i \<Rightarrow> s\<lparr>sender := if i < p then C_usr1 i else C_usr2\<rparr>
      | C_usr1 i \<Rightarrow> if ok then (send_signal SIGUSR1 s)\<lparr>sender := C_sleep (i + 1)\<rparr> else s\<lparr>receiver := B_killed\<rparr>
      | C_usr2 \<Rightarrow> if ok then (send_signal SIGUSR2 s)\<lparr>sender := C_print, csent := csent s + 1\<rparr> else s\<lparr>receiver := B_killed\<rparr>
      | C_print \<Rightarrow> s\<lparr>sender := C_sleep 0, sent_lines := sent_lines s @ [csent s]\<rparr>)"

text \<open>
  \<open>parent_work\<close>. \<open>sigsuspend\<close> returns after the handlers of all pending signals have run;
  \<open>order\<close> is the order in which they run.
\<close>

definition receiver_work :: "nat list \<Rightarrow> exchange \<Rightarrow> exchange option" where
  "receiver_work order s =
     (case receiver s of
        B_reset \<Rightarrow> Some (s\<lparr>last_signal := 0, receiver := B_suspend\<rparr>)
      | B_suspend \<Rightarrow>
          if last_signal s = SIGUSR2 then Some (s\<lparr>receiver := B_count\<rparr>)
          else if pending s \<noteq> [] \<and> set order = set (pending s) \<and> distinct order
          then Some (s\<lparr>last_signal := fold last_handler order (last_signal s), pending := []\<rparr>)
          else None
      | B_count \<Rightarrow> Some (s\<lparr>bcount := bcount s + 1, receiver := B_report\<rparr>)
      | B_report \<Rightarrow> Some (s\<lparr>received_lines := received_lines s @ [bcount s], receiver := B_reset\<rparr>)
      | B_killed \<Rightarrow> None)"

definition exchange_start :: exchange where
  "exchange_start = \<lparr>sender = C_sleep 0, csent = 0, receiver = B_reset, last_signal = 0, pending = [], bcount = 0,
     sent_lines = [], received_lines = []\<rparr>"

datatype exchange_action = Act_send bool | Act_receive "nat list"

definition exchange_act :: "nat \<Rightarrow> exchange_action \<Rightarrow> exchange \<Rightarrow> exchange option" where
  "exchange_act p a s =
     (if receiver s = B_killed then None
      else case a of Act_send ok \<Rightarrow> Some (sender_work p ok s) | Act_receive order \<Rightarrow> receiver_work order s)"

definition exchange_step :: "nat \<Rightarrow> exchange \<Rightarrow> exchange \<Rightarrow> bool" where
  "exchange_step p s t \<longleftrightarrow> (\<exists>a. exchange_act p a s = Some t)"

text \<open>
  The parent keeps up: the child sends only while the parent waits in \<open>sigsuspend\<close> with no
  signal pending.
\<close>

definition waiting :: "exchange \<Rightarrow> bool" where
  "waiting s \<longleftrightarrow> receiver s = B_suspend \<and> last_signal s \<noteq> SIGUSR2 \<and> pending s = []"

definition lockstep :: "nat \<Rightarrow> exchange \<Rightarrow> exchange \<Rightarrow> bool" where
  "lockstep p s t \<longleftrightarrow> (\<exists>order. exchange_act p (Act_receive order) s = Some t) \<or>
     (exchange_act p (Act_send True) s = Some t \<and> (waiting s \<or> (\<exists>i. sender s = C_sleep i) \<or> sender s = C_print))"

section \<open>What is counted\<close>

text \<open>SIGUSR2 on its way: pending, or received and not yet counted.\<close>

definition in_flight :: "exchange \<Rightarrow> nat" where
  "in_flight s = of_bool (SIGUSR2 \<in> set (pending s)) +
     of_bool (receiver s \<in> {B_suspend, B_count} \<and> last_signal s = SIGUSR2)"

definition lines_to :: "nat \<Rightarrow> nat list" where
  "lines_to n = [1..<Suc n]"

lemma lines_to_simps: "lines_to 0 = []" "lines_to (Suc n) = lines_to n @ [Suc n]"
  by (simp_all add: lines_to_def)

definition exchange_inv :: "exchange \<Rightarrow> bool" where
  "exchange_inv s \<longleftrightarrow> bcount s + in_flight s \<le> csent s \<and> (receiver s = B_count \<longrightarrow> last_signal s = SIGUSR2) \<and>
     (if receiver s = B_report then \<exists>m. bcount s = Suc m \<and> received_lines s = lines_to m
      else receiver s = B_killed \<or> received_lines s = lines_to (bcount s)) \<and>
     (\<exists>m \<le> bcount s. received_lines s = lines_to m)"

definition exact_inv :: "exchange \<Rightarrow> bool" where
  "exact_inv s \<longleftrightarrow> bcount s + in_flight s = csent s \<and> (pending s = [] \<or> (\<exists>x. pending s = [x])) \<and>
     (pending s \<noteq> [] \<longrightarrow> receiver s = B_suspend \<and> last_signal s \<noteq> SIGUSR2) \<and>
     (receiver s = B_count \<longrightarrow> last_signal s = SIGUSR2) \<and> receiver s \<noteq> B_killed"

lemma fold_last_handler: "fold last_handler order l = (if order = [] then l else last order)"
  by (induction order arbitrary: l) (auto simp: last_handler_def)

lemma sender_inv: "exchange_inv s \<Longrightarrow> receiver s \<noteq> B_killed \<Longrightarrow> exchange_inv (sender_work p ok s)"
  by (cases "sender s")
    (auto simp: exchange_inv_def sender_work_def send_signal_def in_flight_def insert_absorb split: if_splits)

lemma receiver_inv:
  assumes inv: "exchange_inv s" and t: "receiver_work order s = Some t"
  shows "exchange_inv t"
proof (cases "receiver s")
  case B_suspend
  show ?thesis
  proof (cases "last_signal s = SIGUSR2")
    case True
    then show ?thesis using inv t B_suspend by (auto simp: exchange_inv_def receiver_work_def in_flight_def)
  next
    case False
    then have o: "order \<noteq> []" "set order = set (pending s)"
      and t: "t = s\<lparr>last_signal := last order, pending := []\<rparr>"
      using t B_suspend by (auto simp: receiver_work_def fold_last_handler split: if_splits)
    then have "last order = SIGUSR2 \<Longrightarrow> SIGUSR2 \<in> set (pending s)" using last_in_set by metis
    then have "in_flight t \<le> in_flight s" using False B_suspend t by (auto simp: in_flight_def)
    then show ?thesis using inv B_suspend t by (auto simp: exchange_inv_def)
  qed
next
  case B_count
  then show ?thesis using inv t
    by (auto simp: exchange_inv_def receiver_work_def in_flight_def intro: exI [of _ "bcount s"])
next
  case B_report
  then obtain m where "bcount s = Suc m" "received_lines s = lines_to m" using inv by (auto simp: exchange_inv_def)
  then show ?thesis using inv t B_report
    by (auto simp: exchange_inv_def receiver_work_def in_flight_def lines_to_simps intro!: exI [of _ "Suc m"])
qed (use inv t in \<open>auto simp: exchange_inv_def receiver_work_def in_flight_def\<close>)

lemma exchange_step_inv:
  assumes "exchange_inv s" "exchange_step p s t"
  shows "exchange_inv t"
proof -
  obtain a where "exchange_act p a s = Some t" using assms(2) by (auto simp: exchange_step_def)
  then show ?thesis using assms(1) sender_inv receiver_inv
    by (cases a) (auto simp: exchange_act_def split: if_splits)
qed

lemma distinct_one: "distinct xs \<Longrightarrow> set xs = {x} \<Longrightarrow> xs = [x]"
  by (cases xs; cases "tl xs") auto

lemma exact_receiver:
  assumes inv: "exact_inv s" and t: "receiver_work order s = Some t"
  shows "exact_inv t"
proof (cases "receiver s = B_suspend \<and> last_signal s \<noteq> SIGUSR2")
  case True
  then obtain x where x: "pending s = [x]" "set order = {x}" "distinct order"
    and t: "t = s\<lparr>last_signal := fold last_handler order (last_signal s), pending := []\<rparr>"
    using inv t by (auto simp: exact_inv_def receiver_work_def split: if_splits)
  then show ?thesis using inv True distinct_one [of order x] by (auto simp: exact_inv_def in_flight_def last_handler_def)
next
  case False
  then show ?thesis using inv t
    by (cases "receiver s") (auto simp: exact_inv_def receiver_work_def in_flight_def)
qed

lemma exact_sender:
  assumes inv: "exact_inv s" and w: "waiting s \<or> (\<exists>i. sender s = C_sleep i) \<or> sender s = C_print"
  shows "exact_inv (sender_work p True s)"
proof (cases "sender s = C_usr2 \<or> (\<exists>i. sender s = C_usr1 i)")
  case True
  then have "waiting s" using w by auto
  then show ?thesis using inv True
    by (auto simp: exact_inv_def sender_work_def send_signal_def in_flight_def waiting_def)
next
  case False
  then show ?thesis using inv
    by (cases "sender s") (auto simp: exact_inv_def sender_work_def in_flight_def)
qed

lemma exact_step: "exact_inv s \<Longrightarrow> lockstep p s t \<Longrightarrow> exact_inv t"
  unfolding lockstep_def exchange_act_def using exact_receiver exact_sender by (auto split: if_splits)

lemma exchange_start_inv: "exchange_inv exchange_start" "exact_inv exchange_start"
  by (simp_all add: exchange_start_def exchange_inv_def exact_inv_def in_flight_def lines_to_simps)

interpretation exchanges: inv_system "\<lambda>s. s = exchange_start" "exchange_step p" exchange_inv for p
  by unfold_locales (use exchange_start_inv exchange_step_inv in blast)+

interpretation exact_exchanges: inv_system "\<lambda>s. s = exchange_start" "lockstep p" exact_inv for p
  by unfold_locales (use exchange_start_inv exact_step in blast)+

text \<open>
  Property C34. In every run of \<open>prog15\<close> the parent reports the numbers 1, 2, 3 and so on, each
  once, and never more SIGUSR2 than the child has sent. While the child sends only when the
  parent waits, every SIGUSR2 is counted: what is not counted yet is on its way.
\<close>

theorem usr2_counted:
  "((exchange_step p)\<^sup>*\<^sup>* exchange_start s \<longrightarrow>
     (\<exists>m. received_lines s = [1..<Suc m] \<and> m \<le> bcount s \<and> bcount s \<le> csent s)) \<and>
   ((lockstep p)\<^sup>*\<^sup>* exchange_start s \<longrightarrow> bcount s + in_flight s = csent s)"
proof (intro conjI impI)
  assume "(exchange_step p)\<^sup>*\<^sup>* exchange_start s"
  then have "exchange_inv s" using exchanges.inv_reachable by blast
  then show "\<exists>m. received_lines s = [1..<Suc m] \<and> m \<le> bcount s \<and> bcount s \<le> csent s"
    unfolding exchange_inv_def lines_to_def by (metis add_leD1)
next
  assume "(lockstep p)\<^sup>*\<^sup>* exchange_start s"
  then have "exact_inv s" using exact_exchanges.inv_reachable by blast
  then show "bcount s + in_flight s = csent s" by (simp add: exact_inv_def)
qed

text \<open>One SIGUSR1 per SIGUSR2, the parent keeps up: one round is counted and reported.\<close>

definition one_round :: "exchange_action list" where
  "one_round = [Act_receive [], Act_send True, Act_send True, Act_receive [SIGUSR1], Act_send True, Act_send True,
     Act_receive [SIGUSR2], Act_send True, Act_receive [], Act_receive [], Act_receive []]"

lemma one_round_run:
  "map_option (\<lambda>s. (received_lines s, bcount s, in_flight s)) (run_schedule (exchange_act 1) one_round exchange_start) =
     Some ([1], 1, 0)"
  by code_simp

theorem usr2_counted_witness:
  "\<exists>s. (exchange_step 1)\<^sup>*\<^sup>* exchange_start s \<and> received_lines s = [1] \<and> 1 \<le> csent s"
proof -
  obtain s where s: "run_schedule (exchange_act 1) one_round exchange_start = Some s" "received_lines s = [1]" "bcount s = 1"
    using one_round_run by auto
  then have "(exchange_step 1)\<^sup>*\<^sup>* exchange_start s"
    by (intro run_schedule_steps [of "exchange_act 1"]) (auto simp: exchange_step_def)
  moreover from this have "1 \<le> csent s" using usr2_counted [of 1 s] s(3) by auto
  ultimately show ?thesis using s(2) by blast
qed

text \<open>
  When both signals are pending their handlers run one after the other before \<open>sigsuspend\<close>
  returns; if the one for SIGUSR1 is last, the SIGUSR2 is never counted. Two SIGUSR2 pending at
  once are one.
\<close>

lemma usr2_lost:
  "map_option (\<lambda>s. (csent s, bcount s, waiting s)) (run_schedule (exchange_act 1)
     [Act_receive [], Act_send True, Act_send True, Act_send True, Act_send True, Act_receive [SIGUSR2, SIGUSR1]] exchange_start) =
     Some (1, 0, True)"
  "map_option (\<lambda>s. (csent s, pending s)) (run_schedule (exchange_act 0) (replicate 6 (Act_send True)) exchange_start) =
     Some (2, [SIGUSR2])"
  by code_simp+

section \<open>The set-up\<close>

definition usage15 :: "byte list \<Rightarrow> ('g, 'a) prog" where
  "usage15 name =
     bind_m (eprintf (str ''USAGE: '' @ name @ str '' m  p'' @ [10])) (\<lambda>_.
     bind_m (eprintf (str ''m - number of 1/1000 milliseconds between signals [1,999], i.e. one milisecond maximum'' @ [10])) (\<lambda>_.
     bind_m (eprintf (str ''p - after p SIGUSR1 send one SIGUSER2  [1,999]'' @ [10])) (\<lambda>_. halt_m (Exit 1))))"

definition args15 :: "byte list list \<Rightarrow> ('g, int \<times> int) prog" where
  "args15 argv =
     bind_m (if length argv \<noteq> 3 then usage15 (argv ! 0) else ret ()) (\<lambda>_.
     let m = atoi (argv ! 1); p = atoi (argv ! 2) in
     if m \<le> 0 \<or> m > 999 \<or> p \<le> 0 \<or> p > 999 then usage15 (argv ! 0) else ret (m, p))"

lemma args15_range: "wp (args15 argv) (\<lambda>(m, p) w1. m \<in> {1..999} \<and> p \<in> {1..999}) (\<lambda>h w1. h = Exit 1) w"
  by (simp add: args15_def usage15_def wp_rules Let_def)

text \<open>
  \<open>main\<close> up to the \<open>fork\<close>, whose result tells the two processes apart. Both signals are blocked
  from here on, except in \<open>sigsuspend\<close>.
\<close>

definition count_sig_handler :: "nat \<Rightarrow> int \<Rightarrow> int \<times> byte list list" where
  "count_sig_handler sig last_sig = (int sig, [])"

definition setup15 :: "byte list list \<Rightarrow> (int, int \<times> int \<times> int) prog" where
  "setup15 argv =
     bind_m (args15 argv) (\<lambda>(m, p).
     bind_m (rounds_sethandler (Handler rounds_reaps) SIGCHLD) (\<lambda>_.
     bind_m (rounds_sethandler (Handler count_sig_handler) SIGUSR1) (\<lambda>_.
     bind_m (rounds_sethandler (Handler count_sig_handler) SIGUSR2) (\<lambda>_.
     bind_m (sigprocmask_block [SIGUSR1, SIGUSR2]) (\<lambda>oldmask.
     bind_m (sys SYS_fork [] [] fd_ok) (\<lambda>f.
     if r_val f < 0 then err_kill ''fork'' else ret (m, p, r_val f)))))))"

lemma setup15_blocks:
  "wp (setup15 argv) (\<lambda>(m, p, f) w1. p \<in> {1..999} \<and> {SIGUSR1, SIGUSR2} \<subseteq> set (sigmask w1)) (\<lambda>h w1. True) w"
proof -
  have call: "wp (sys n a p good) Q (\<lambda>h w1. True) v"
    if "\<And>r w1. good r \<Longrightarrow> sigmask w1 = sigmask v \<Longrightarrow> Q r w1" for n a p good Q and v :: "int world"
    by (rule wp_sys) (use that in \<open>auto simp: sys_post_def same_sig_def\<close>)
  show ?thesis
    unfolding setup15_def wp_bind
    by (rule wp_mono [OF args15_range])
      (auto simp: wp_rules wp_pure rounds_sethandler_def sys_sigaction_def sigprocmask_block_def intro!: call)
qed

end
