(* ===== verification/BlockCopy.thy ===== *)
theory BlockCopy
  imports BulkIO
begin

text \<open>
  \<open>Lab2/prog16a.c\<close> and \<open>prog16b.c\<close>: a parent copies blocks of megabytes from \<open>/dev/urandom\<close> to a
  file while its child sends it SIGUSR1 all the time. The first program uses bare \<open>read\<close> and
  \<open>write\<close>; the second repeats interrupted calls and completes short ones with \<open>bulk_read\<close> and
  \<open>bulk_write\<close>. The global is \<open>sig_count\<close>.
\<close>

section \<open>What both programs share\<close>

definition copy_sig_handler :: "nat \<Rightarrow> int \<Rightarrow> int \<times> byte list list" where
  "copy_sig_handler sig sig_count = (to_int32 (sig_count + 1), [])"

definition copy_sethandler :: "'g handler \<Rightarrow> nat \<Rightarrow> ('g, unit) prog" where
  "copy_sethandler f sigNo = bind_m (sys_sigaction sigNo f) (\<lambda>r.
     if r_val r = -1 then err_kill ''sigaction'' else ret ())"

text \<open>The child never leaves its loop; it ends by the signal the parent sends to the group.\<close>

definition copy_child :: "int \<Rightarrow> (int, int) prog" where
  "copy_child m =
     bind_m (copy_sethandler SIG_DFL SIGUSR1) (\<lambda>_.
     loop_m (\<lambda>_ :: unit.
       bind_m (sys SYS_nanosleep [0, m * 10000] [] status_ok) (\<lambda>_.
       bind_m (sys SYS_getppid [] [] any_ok) (\<lambda>p.
       bind_m (sys SYS_kill [r_val p, int SIGUSR1] [] status_ok) (\<lambda>k.
       if r_val k \<noteq> 0 then err_kill ''kill'' else ret (Inl ()))))) ())"

definition copy_usage :: "byte list \<Rightarrow> ('g, 'a) prog" where
  "copy_usage name =
     bind_m (eprintf (str ''USAGE: '' @ name @ str '' m b s '' @ [10])) (\<lambda>_.
     bind_m (eprintf (str ''m - number of 1/1000 milliseconds between signals [1,999], i.e. one milisecond maximum'' @ [10])) (\<lambda>_.
     bind_m (eprintf (str ''b - number of blocks [1,999]'' @ [10])) (\<lambda>_.
     bind_m (eprintf (str ''s - size of of blocks [1,999] in MB'' @ [10])) (\<lambda>_.
     bind_m (eprintf (str ''name of the output file'' @ [10])) (\<lambda>_. halt_m (Exit 1))))))"

text \<open>\<open>fprintf\<close> to the unbuffered standard error: a call that may fail or be interrupted.\<close>

abbreviation (input) SYS_fprintf :: sysno where "SYS_fprintf \<equiv> 1072"

definition block_line :: "int \<Rightarrow> int \<Rightarrow> byte list" where
  "block_line count sig_count =
     str ''Block of '' @ fmt_d count @ str '' bytes transfered. Signals RX:'' @ fmt_d sig_count @ [10]"

definition O_OUT :: int where "O_OUT = 1 + 64 + 512 + 1024"

section \<open>prog16b\<close>

text \<open>The loop over the blocks: the macro evaluates \<open>sig_count\<close> again at each attempt to print.\<close>

definition copy_block :: "int \<Rightarrow> int \<Rightarrow> nat \<Rightarrow> (int, unit) prog" where
  "copy_block inn out s =
     bind_m (bulk_read_ss inn s) (\<lambda>(count, buf).
     if count < 0 then err_kill ''read''
     else bind_m (bulk_write_ss out (take (nat count) buf)) (\<lambda>count1.
     if count1 < 0 then err_kill ''read''
     else bind_m (retry (bind_m get_glob (\<lambda>g. sys SYS_fprintf [2] (block_line count1 g) any_ok))) (\<lambda>r.
     if r_val r < 0 then err_kill ''fprintf'' else ret ())))"

definition copy_blocks :: "int \<Rightarrow> int \<Rightarrow> nat \<Rightarrow> nat \<Rightarrow> (int, unit) prog" where
  "copy_blocks inn out b s = for_m [0..<b] (\<lambda>i _. copy_block inn out s) ()"

definition copy_parent :: "int \<Rightarrow> int \<Rightarrow> byte list \<Rightarrow> (int, unit) prog" where
  "copy_parent b s name =
     bind_m (sys SYS_malloc [s] [] any_ok) (\<lambda>m.
     if r_val m = 0 then err_kill ''malloc''
     else bind_m (retry (sys SYS_open [O_OUT, 511] (cstr name) fd_ok)) (\<lambda>ro.
     if r_val ro < 0 then err_kill ''open''
     else bind_m (retry (sys SYS_open [0] (str ''/dev/urandom'') fd_ok)) (\<lambda>ri.
     if r_val ri < 0 then err_kill ''open''
     else bind_m (copy_blocks (r_val ri) (r_val ro) (nat b) (nat s)) (\<lambda>_.
     bind_m (retry (sys_close (r_val ri))) (\<lambda>c.
     if r_val c \<noteq> 0 then err_kill ''close''
     else bind_m (retry (sys_close (r_val ro))) (\<lambda>d.
     if r_val d \<noteq> 0 then err_kill ''close''
     else bind_m (sys SYS_kill [0, int SIGUSR1] [] status_ok) (\<lambda>k.
     if r_val k \<noteq> 0 then err_kill ''kill'' else ret ())))))))"

text \<open>\<open>while (wait(NULL) > 0) ;\<close>\<close>

definition copy_wait_all :: "('g, unit) prog" where
  "copy_wait_all = loop_m (\<lambda>_. bind_m (sys SYS_wait [] [] fd_ok) (\<lambda>r.
     if 0 < r_val r then ret (Inl ()) else ret (Inr ()))) ()"

text \<open>\<open>main\<close> of both programs, with \<open>parent_work\<close> as a parameter.\<close>

definition copy_main :: "(int \<Rightarrow> int \<Rightarrow> byte list \<Rightarrow> (int, unit) prog) \<Rightarrow> byte list list \<Rightarrow> (int, int) prog" where
  "copy_main parent_work argv =
     bind_m (if length argv \<noteq> 5 then copy_usage (argv ! 0) else ret ()) (\<lambda>_.
     let m = atoi (argv ! 1); b = atoi (argv ! 2); s = atoi (argv ! 3) in
     bind_m (if m \<le> 0 \<or> m > 999 \<or> b \<le> 0 \<or> b > 999 \<or> s \<le> 0 \<or> s > 999 then copy_usage (argv ! 0) else ret ()) (\<lambda>_.
     bind_m (copy_sethandler (Handler copy_sig_handler) SIGUSR1) (\<lambda>_.
     bind_m (sys SYS_fork [] [] fd_ok) (\<lambda>f.
     if r_val f < 0 then err_kill ''fork''
     else if r_val f = 0 then bind_m (copy_child m) (\<lambda>_. ret 0)
     else bind_m (parent_work b (s * 1024 * 1024) (argv ! 4)) (\<lambda>_.
     bind_m copy_wait_all (\<lambda>_. ret 0))))))"

definition prog16b_main :: "byte list list \<Rightarrow> (int, int) prog" where
  "prog16b_main = copy_main copy_parent"

section \<open>prog16a\<close>

definition bare_block :: "int \<Rightarrow> int \<Rightarrow> nat \<Rightarrow> (int, unit) prog" where
  "bare_block inn out s =
     bind_m (sys_read inn s) (\<lambda>r.
     if r_val r < 0 then err_kill ''read''
     else bind_m (sys_write out (r_data r)) (\<lambda>w.
     if r_val w < 0 then err_kill ''read''
     else bind_m get_glob (\<lambda>g.
     bind_m (sys SYS_fprintf [2] (block_line (r_val w) g) any_ok) (\<lambda>p.
     if r_val p < 0 then err_kill ''fprintf'' else ret ()))))"

definition bare_parent :: "int \<Rightarrow> int \<Rightarrow> byte list \<Rightarrow> (int, unit) prog" where
  "bare_parent b s name =
     bind_m (sys SYS_malloc [s] [] any_ok) (\<lambda>m.
     if r_val m = 0 then err_kill ''malloc''
     else bind_m (sys SYS_open [O_OUT, 511] (cstr name) fd_ok) (\<lambda>ro.
     if r_val ro < 0 then err_kill ''open''
     else bind_m (sys SYS_open [0] (str ''/dev/urandom'') fd_ok) (\<lambda>ri.
     if r_val ri < 0 then err_kill ''open''
     else bind_m (for_m [0..<nat b] (\<lambda>i _. bare_block (r_val ri) (r_val ro) (nat s)) ()) (\<lambda>_.
     bind_m (sys_close (r_val ri)) (\<lambda>c.
     if r_val c \<noteq> 0 then err_kill ''close''
     else bind_m (sys_close (r_val ro)) (\<lambda>d.
     if r_val d \<noteq> 0 then err_kill ''close''
     else bind_m (sys SYS_kill [0, int SIGUSR1] [] status_ok) (\<lambda>k.
     if r_val k \<noteq> 0 then err_kill ''kill'' else ret ())))))))"

definition prog16a_main :: "byte list list \<Rightarrow> (int, int) prog" where
  "prog16a_main = copy_main bare_parent"

section \<open>What prog16b copies\<close>

text \<open>
  After \<open>i\<close> blocks: what was read since the start has been written, and it is \<open>i\<close> full blocks
  unless a read has reported the end of the input.
\<close>

definition eof_seen :: "int \<Rightarrow> event list \<Rightarrow> bool" where
  "eof_seen inn tr \<longleftrightarrow> (\<exists>r. Sys SYS_read [inn] [] r \<in> set tr \<and> r_val r = 0)"

definition block_inv :: "int \<Rightarrow> int \<Rightarrow> nat \<Rightarrow> 'g world \<Rightarrow> nat \<Rightarrow> 'g world \<Rightarrow> bool" where
  "block_inv inn out s w i v \<longleftrightarrow> (\<exists>bytes.
     got inn (trace v) = got inn (trace w) @ bytes \<and> sent out (trace v) = sent out (trace w) @ bytes \<and>
     length bytes \<le> i * s \<and> (length bytes < i * s \<longrightarrow> eof_seen inn (trace v)))"

lemma eof_seen_extends: "extends P tr tr1 \<Longrightarrow> eof_seen inn tr \<Longrightarrow> eof_seen inn tr1"
  by (auto simp: extends_def eof_seen_def)

lemma wp_fprintf_quiet:
  assumes "\<And>r w1. sent out (trace w1) = sent out (trace v) \<Longrightarrow> got inn (trace w1) = got inn (trace v) \<Longrightarrow>
     (eof_seen inn (trace v) \<Longrightarrow> eof_seen inn (trace w1)) \<Longrightarrow> Q r w1"
  shows "wp (retry (bind_m get_glob (\<lambda>g. sys SYS_fprintf [2] (line g) any_ok))) Q (\<lambda>h w1. True) (v :: int world)"
proof (rule wp_retry [where I = "\<lambda>v1. sent out (trace v1) = sent out (trace v) \<and> got inn (trace v1) = got inn (trace v) \<and>
    (eof_seen inn (trace v) \<longrightarrow> eof_seen inn (trace v1))"])
  fix v1 :: "int world" assume I: "sent out (trace v1) = sent out (trace v) \<and> got inn (trace v1) = got inn (trace v) \<and>
    (eof_seen inn (trace v) \<longrightarrow> eof_seen inn (trace v1))"
  show "wp (bind_m get_glob (\<lambda>g. sys SYS_fprintf [2] (line g) any_ok))
     (\<lambda>r w1. if r_val r = -1 \<and> werrno w1 = EINTR
        then (sent out (trace w1) = sent out (trace v) \<and> got inn (trace w1) = got inn (trace v) \<and>
          (eof_seen inn (trace v) \<longrightarrow> eof_seen inn (trace w1))) \<and> length (script w1) < length (script v1)
        else Q r w1) (\<lambda>h w1. True) v1"
    unfolding wp_bind wp_get_glob
  proof (rule wp_sys)
    fix r w1 assume p: "sys_post SYS_fprintf [2] (line (glob v1)) r v1 w1"
    have "\<exists>evs. trace w1 = trace v1 @ evs" using p by (auto simp: sys_post_def outs_after_def)
    then have "eof_seen inn (trace v1) \<longrightarrow> eof_seen inn (trace w1)" by (auto simp: eof_seen_def)
    then show "if r_val r = -1 \<and> werrno w1 = EINTR
        then (sent out (trace w1) = sent out (trace v) \<and> got inn (trace w1) = got inn (trace v) \<and>
          (eof_seen inn (trace v) \<longrightarrow> eof_seen inn (trace w1))) \<and> length (script w1) < length (script v1)
        else Q r w1"
      using I sys_post_traces(1,2) [OF p] sys_post_shorter [OF p] assms by auto
  qed simp
qed simp

lemma wp_copy_block:
  assumes inv: "block_inv inn out s w i v"
  shows "wp (copy_block inn out s) (\<lambda>_. block_inv inn out s w (Suc i)) (\<lambda>h w1. True) v"
  unfolding copy_block_def wp_bind
proof (rule wp_bulk_read_ss, simp)
  fix res and v1 :: "int world" assume r: "read_result inn s v res v1"
  obtain count buf where res: "res = (count, buf)" by (cases res)
  show "wp (case res of (count, buf) \<Rightarrow>
      if count < 0 then err_kill ''read''
      else bind_m (bulk_write_ss out (take (nat count) buf)) (\<lambda>count1.
        if count1 < 0 then err_kill ''read''
        else bind_m (retry (bind_m get_glob (\<lambda>g. sys SYS_fprintf [2] (block_line count1 g) any_ok))) (\<lambda>r.
          if r_val r < 0 then err_kill ''fprintf'' else ret ())))
     (\<lambda>_. block_inv inn out s w (Suc i)) (\<lambda>h w1. True) v1"
  proof (cases "count < 0")
    case True
    then show ?thesis by (simp add: res wp_rules)
  next
    case False
    have buf: "got inn (trace v1) = got inn (trace v) @ buf" "take (nat count) buf = buf" "length buf \<le> s"
      and e1: "extends (io_event SYS_read inn) (trace v) (trace v1)"
      and eof: "length buf < s \<Longrightarrow> eof_seen inn (trace v1)"
      using r False by (auto simp: read_result_def res eof_seen_def)
    have "wp (bulk_write_ss out buf) (\<lambda>count1. wp (if count1 < 0 then err_kill ''read''
        else bind_m (retry (bind_m get_glob (\<lambda>g. sys SYS_fprintf [2] (block_line count1 g) any_ok))) (\<lambda>r.
          if r_val r < 0 then err_kill ''fprintf'' else ret ()))
       (\<lambda>_. block_inv inn out s w (Suc i)) (\<lambda>h w1. True)) (\<lambda>h w1. True) v1"
    proof (rule wp_bulk_write_ss, simp)
      fix n and v2 :: "int world" assume wr: "write_result out buf v1 n v2"
      show "wp (if n < 0 then err_kill ''read''
        else bind_m (retry (bind_m get_glob (\<lambda>g. sys SYS_fprintf [2] (block_line n g) any_ok))) (\<lambda>r.
          if r_val r < 0 then err_kill ''fprintf'' else ret ()))
       (\<lambda>_. block_inv inn out s w (Suc i)) (\<lambda>h w1. True) v2"
      proof (cases "n < 0")
        case True
        then show ?thesis by (simp add: wp_rules)
      next
        case n: False
        then have e2: "extends (io_event SYS_write out) (trace v1) (trace v2)"
          and s2: "sent out (trace v2) = sent out (trace v1) @ buf"
          using wr by (auto simp: write_result_def)
        have "block_inv inn out s w (Suc i) v2"
        proof -
          obtain bytes where b: "got inn (trace v) = got inn (trace w) @ bytes" "sent out (trace v) = sent out (trace w) @ bytes"
            "length bytes \<le> i * s" "length bytes < i * s \<longrightarrow> eof_seen inn (trace v)"
            using inv by (auto simp: block_inv_def)
          have "got inn (trace v2) = got inn (trace w) @ (bytes @ buf)" "sent out (trace v2) = sent out (trace w) @ (bytes @ buf)"
            using b buf s2 extends_frame(1) [OF e1, of out] extends_frame(2) [OF e2, of inn] by simp_all
          moreover have "eof_seen inn (trace v2)" if "length (bytes @ buf) < Suc i * s"
          proof -
            have "length bytes < i * s \<or> length buf < s" using that by auto
            then have "eof_seen inn (trace v1)" using b(4) eof eof_seen_extends [OF e1] by blast
            then show ?thesis by (rule eof_seen_extends [OF e2])
          qed
          moreover have "length (bytes @ buf) \<le> Suc i * s" using b buf by simp
          ultimately show ?thesis unfolding block_inv_def by blast
        qed
        then have "block_inv inn out s w (Suc i) w1"
          if "sent out (trace w1) = sent out (trace v2)" "got inn (trace w1) = got inn (trace v2)"
            "eof_seen inn (trace v2) \<Longrightarrow> eof_seen inn (trace w1)" for w1
          using that unfolding block_inv_def by metis
        then show ?thesis using n
          by (auto simp: wp_rules intro!: wp_fprintf_quiet [where out = out and inn = inn])
      qed
    qed
    then show ?thesis using False by (simp add: res buf(2) wp_bind)
  qed
qed

lemma wp_copy_blocks: "wp (copy_blocks inn out b s) (\<lambda>_. block_inv inn out s w b) (\<lambda>h w1. True) w"
  unfolding copy_blocks_def
proof (rule wp_for [where I = "\<lambda>xs _ v. \<exists>i. i + length xs = b \<and> block_inv inn out s w i v"])
  show "\<exists>i. i + length [0..<b] = b \<and> block_inv inn out s w i w" by (simp add: block_inv_def)
next
  fix x xs and u :: unit and v :: "int world" assume "\<exists>i. i + length (x # xs) = b \<and> block_inv inn out s w i v"
  then obtain i where i: "i + length (x # xs) = b" "block_inv inn out s w i v" by blast
  show "wp (copy_block inn out s) (\<lambda>_ v. \<exists>i. i + length xs = b \<and> block_inv inn out s w i v) (\<lambda>h w1. True) v"
    by (rule wp_mono [OF wp_copy_block [OF i(2)]]) (use i(1) in \<open>auto intro!: exI [of _ "Suc i"]\<close>)
qed auto

section \<open>The loop returns\<close>

text \<open>
  Replies for one block: reads that deliver \<open>s\<close> bytes, writes that take them, both cut and
  interrupted in any way, and a successful print.
\<close>

definition block_replies :: "nat \<Rightarrow> reply list \<Rightarrow> bool" where
  "block_replies s rs \<longleftrightarrow> (\<exists>reads bs writes p. rs = reads @ writes @ [p] \<and> feeds s reads bs \<and> drains s writes \<and>
     any_ok p \<and> 0 \<le> r_val p \<and> r_sigs p = [])"

lemma feeds_length: "feeds n rs bs \<Longrightarrow> length bs = n"
proof (induction n rs bs rule: feeds.induct)
  case (2 n r rs bs)
  show ?case
  proof (cases "interrupted r")
    case False
    then have d: "length (r_data r) \<le> n" "take (length (r_data r)) bs = r_data r"
      "length (drop (length (r_data r)) bs) = n - length (r_data r)"
      using 2 by (auto simp: in_ok_def)
    then have "length (r_data r) \<le> length bs" by (metis length_take min.cobounded1)
    then show ?thesis using d by simp
  qed (use 2 in auto)
qed simp

lemma eof_seen_io_events: "feeds n rs bs \<Longrightarrow> \<not> eof_seen inn (io_events SYS_read inn rs)"
  by (induction n rs bs rule: feeds.induct) (auto simp: io_events_def eof_seen_def interrupted_def split: if_splits)

lemma copy_block_returns:
  assumes "block_replies s rs" "0 < s" "script w = rs @ rest"
  shows "\<exists>w1. copy_block inn out s w = (Ret (), w1) \<and> script w1 = rest"
proof -
  obtain reads bs writes p where rs: "rs = reads @ writes @ [p]" and f: "feeds s reads bs" and d: "drains s writes"
    and p: "any_ok p" "0 \<le> r_val p" "r_sigs p = []"
    using assms(1) by (auto simp: block_replies_def)
  have len: "length bs = s" by (rule feeds_length [OF f])
  obtain w1 where w1: "bulk_read_ss inn s w = (Ret (int s, bs), w1)" "script w1 = writes @ p # rest"
    using bulk_read_feeds [OF f assms(2), of 0 "[]" id w "writes @ p # rest" inn] assms(3) rs
    by (auto simp: bulk_read_ss_def)
  obtain w2 where w2: "bulk_write_ss out bs w1 = (Ret (int s), w2)" "script w2 = p # rest"
    using bulk_write_drains [of bs writes id w1 "p # rest" out 0] d len assms(2) w1(2)
    by (auto simp: bulk_write_ss_def)
  let ?m = "bind_m get_glob (\<lambda>g. sys SYS_fprintf [2] (block_line (int s) g) any_ok)"
  have "?m w2 = (Ret p, adv SYS_fprintf [2] (block_line (int s) (glob w2)) p w2)"
    using w2(2) p by (simp add: bind_m_def get_glob_def sys_quiet)
  then have "retry ?m w2 = (Ret p, adv SYS_fprintf [2] (block_line (int s) (glob w2)) p w2)"
    using p by (simp add: retry_def loop_m.simps [of _ _ w2] bind_m_def get_errno_def ret_def)
  then show ?thesis
    using w1 w2 len p(2) by (simp add: copy_block_def bind_m_def ret_def)
qed

lemma copy_blocks_return:
  assumes "\<forall>rs \<in> set rss. block_replies s rs" "0 < s" "script w = concat rss @ rest"
  shows "\<exists>w1. copy_blocks inn out (length rss) s w = (Ret (), w1)"
proof -
  have "\<exists>w1. for_m xs (\<lambda>i _. copy_block inn out s) u w = (Ret (), w1)"
    if "length xs = length rss" "\<forall>rs \<in> set rss. block_replies s rs" "script w = concat rss @ rest" for xs :: "nat list" and u w rss
    using that
  proof (induction xs arbitrary: rss w u)
    case (Cons x xs)
    then obtain rs rss1 where rss: "rss = rs # rss1" by (cases rss) auto
    then obtain w1 where w1: "copy_block inn out s w = (Ret (), w1)" "script w1 = concat rss1 @ rest"
      using copy_block_returns [of s rs w "concat rss1 @ rest" inn out] Cons.prems assms(2) by auto
    then show ?case using Cons.IH [of rss1 w1 "()"] Cons.prems rss by (simp add: bind_m_def)
  qed (simp add: ret_def)
  then show ?thesis using assms unfolding copy_blocks_def by simp
qed

text \<open>
  Property C16. However the kernel cuts and interrupts the reads and writes, when the loop of
  \<open>prog16b\<close> returns the bytes written to the file are exactly the bytes read, in order, and
  they are \<open>b\<close> full blocks of \<open>s\<close> bytes unless a read has reported the end of the input. It does
  return when the kernel delivers and takes that many bytes.
\<close>

theorem prog16b_copies:
  shows "(case copy_blocks inn out b s w of
        (Ret _, w1) \<Rightarrow> \<exists>bytes.
          got inn (trace w1) = got inn (trace w) @ bytes \<and> sent out (trace w1) = sent out (trace w) @ bytes \<and>
          length bytes \<le> b * s \<and> (length bytes < b * s \<longrightarrow> eof_seen inn (trace w1))
      | (Halt h, w1) \<Rightarrow> True) \<and>
    (\<forall>rss rest. length rss = b \<and> 0 < s \<and> (\<forall>rs \<in> set rss. block_replies s rs) \<and> script w = concat rss @ rest \<longrightarrow>
       fst (copy_blocks inn out b s w) = Ret ())"
proof (intro conjI allI impI)
  show "case copy_blocks inn out b s w of
        (Ret _, w1) \<Rightarrow> \<exists>bytes.
          got inn (trace w1) = got inn (trace w) @ bytes \<and> sent out (trace w1) = sent out (trace w) @ bytes \<and>
          length bytes \<le> b * s \<and> (length bytes < b * s \<longrightarrow> eof_seen inn (trace w1))
      | (Halt h, w1) \<Rightarrow> True"
    using wp_copy_blocks [of inn out b s w] unfolding wp_def block_inv_def by (auto split: prod.splits outcome.splits)
next
  fix rss rest
  assume "length rss = b \<and> 0 < s \<and> (\<forall>rs \<in> set rss. block_replies s rs) \<and> script w = concat rss @ rest"
  then show "fst (copy_blocks inn out b s w) = Ret ()"
    using copy_blocks_return [of rss s w rest inn out] by auto
qed

text \<open>Two blocks of three bytes, the first read in two pieces with an interruption between them.\<close>

definition copier :: "int world" where
  "copier = idle [data_reply [1, 2], failed_reply EINTR, data_reply [3], ok_reply 3, ok_reply 9,
     data_reply [4, 5, 6], failed_reply EINTR, ok_reply 1, ok_reply 2, ok_reply 9] 0"

theorem prog16b_copies_witness:
  "fst (copy_blocks 4 3 2 3 copier) = Ret () \<and> sent 3 (trace (snd (copy_blocks 4 3 2 3 copier))) = [1, 2, 3, 4, 5, 6]"
proof -
  let ?rss = "[[data_reply [1, 2], failed_reply EINTR, data_reply [3], ok_reply 3, ok_reply 9],
     [data_reply [4, 5, 6], failed_reply EINTR, ok_reply 1, ok_reply 2, ok_reply 9]]"
  have "block_replies 3 (?rss ! 0)"
    unfolding block_replies_def
    by (rule exI [of _ "[data_reply [1, 2], failed_reply EINTR, data_reply [3]]"], rule exI [of _ "[1, 2, 3]"],
        rule exI [of _ "[ok_reply 3]"], rule exI [of _ "ok_reply 9"])
      (simp add: data_reply_def failed_reply_def ok_reply_def interrupted_def in_ok_def out_ok_def any_ok_def in_int_iff)
  moreover have "block_replies 3 (?rss ! 1)"
    unfolding block_replies_def
    by (rule exI [of _ "[data_reply [4, 5, 6]]"], rule exI [of _ "[4, 5, 6]"],
        rule exI [of _ "[failed_reply EINTR, ok_reply 1, ok_reply 2]"], rule exI [of _ "ok_reply 9"])
      (simp add: data_reply_def failed_reply_def ok_reply_def interrupted_def in_ok_def out_ok_def any_ok_def in_int_iff)
  ultimately have "length ?rss = 2 \<and> 0 < (3 :: nat) \<and> (\<forall>rs \<in> set ?rss. block_replies 3 rs) \<and>
      script copier = concat ?rss @ []"
    by (simp add: copier_def idle_def)
  then have ret: "fst (copy_blocks 4 3 2 3 copier) = Ret ()"
    using prog16b_copies [where inn = 4 and out = 3 and b = 2 and s = 3 and w = copier] by blast
  have "got 4 (trace (snd (copy_blocks 4 3 2 3 copier))) = [1, 2, 3, 4, 5, 6]" by code_simp
  moreover have "trace copier = []" by (simp add: copier_def idle_def)
  ultimately show ?thesis using prog16b_copies [where inn = 4 and out = 3 and b = 2 and s = 3 and w = copier] ret
    by (cases "copy_blocks 4 3 2 3 copier") auto
qed

section \<open>What prog16a loses\<close>

text \<open>
  A write that takes only a part of the block is not continued; an interrupted call ends the
  program.
\<close>

lemma prog16a_loses:
  "let w1 = snd (bare_block 4 3 3 (idle [data_reply [1, 2, 3], ok_reply 2, ok_reply 9] 0)) in
     got 4 (trace w1) = [1, 2, 3] \<and> sent 3 (trace w1) = [1, 2]"
  by code_simp

lemma prog16a_interrupted:
  "fst (bare_block 4 3 3 (idle [failed_reply EINTR] 0)) = Halt (Killed SIGKILL)"
  by code_simp

end
