(* ===== verification/RootThreads.thy ===== *)
theory RootThreads
  imports PiEstimation
begin

text \<open>
  \<open>Lab3/test2.c\<close>: each of \<open>n\<close> threads picks one element of a shared array at random and
  replaces it by its square root, under one mutex for the whole array; the main thread prints
  the array before and after. Doubles are the record of operations of \<open>PiEstimation\<close>, the
  conversion \<open>%lf\<close> is a parameter.
\<close>

section \<open>The main thread's helpers\<close>

definition read_args_roots :: "byte list list \<Rightarrow> ('g, int \<times> int) prog" where
  "read_args_roots argv =
     (let n = (if length argv \<ge> 2 then atoi (argv ! 1) else 3) in
      if length argv \<ge> 2 \<and> n \<le> 0 then
        bind_m (printf (str ''Invalid value for '' @ [39] @ str ''n'' @ [39])) (\<lambda>_. halt_m (Exit 1))
      else
        let k = (if length argv \<ge> 3 then atoi (argv ! 2) else 7) in
        if length argv \<ge> 3 \<and> k \<le> 0 then
          bind_m (printf (str ''Invalid value for '' @ [39] @ str ''k'' @ [39])) (\<lambda>_. halt_m (Exit 1))
        else ret (n, k))"

definition init_arr :: "int \<Rightarrow> ('g, unit) prog" where
  "init_arr k = bind_m (sys SYS_malloc [8 * k] [] any_ok) (\<lambda>m. if r_val m = 0 then err_exit ''malloc'' else ret ())"

definition MAX_RAND_FLOAT :: int where "MAX_RAND_FLOAT = 60"

definition fill_arr_rand :: "'d doubles \<Rightarrow> int \<Rightarrow> ('g, 'd list) prog" where
  "fill_arr_rand fl k = for_m [0..<nat k] (\<lambda>i arr. bind_m rand_m (\<lambda>v.
     ret (arr @ [d_mul fl (d_div fl (d_of_int fl v) (d_of_int fl RAND_MAX)) (d_of_int fl MAX_RAND_FLOAT)]))) []"

definition print_arr :: "('d \<Rightarrow> byte list) \<Rightarrow> 'd list \<Rightarrow> byte list" where
  "print_arr lf arr = str ''[ '' @ concat (map (\<lambda>x. lf x @ [32]) arr) @ str '']'' @ [10]"

text \<open>
  Up to the creation of the threads: the array, filled and printed, and the seeds. The result
  of the second \<open>malloc\<close> is not tested; storing into a block that was not got is undefined.
\<close>

definition roots_setup :: "'d doubles \<Rightarrow> ('d \<Rightarrow> byte list) \<Rightarrow> byte list list \<Rightarrow> ('g, 'd list \<times> 32 word list) prog" where
  "roots_setup fl lf argv =
     bind_m (read_args_roots argv) (\<lambda>(n, k).
     bind_m (sys SYS_getpid [] [] any_ok) (\<lambda>p. bind_m (sys SYS_time [] [] any_ok) (\<lambda>t.
     bind_m (sys SYS_srand [r_val p * r_val t] [] any_ok) (\<lambda>_.
     bind_m (init_arr k) (\<lambda>_.
     bind_m (fill_arr_rand fl k) (\<lambda>arr.
     bind_m (printf (print_arr lf arr)) (\<lambda>_.
     bind_m (sys SYS_malloc [40 * n] [] any_ok) (\<lambda>m.
     if r_val m = 0 then halt_m Undef
     else bind_m (for_m [0..<nat n] (\<lambda>i seeds. bind_m rand_m (\<lambda>v. ret (seeds @ [word_of_int v]))) []) (\<lambda>seeds.
     ret (arr, seeds))))))))))"

section \<open>The threads\<close>

text \<open>
  \<open>thread_work\<close> with the index it has drawn; reading an element, storing its root and reading
  it again for the output are three accesses.
\<close>

datatype 'd root_pc = R_absent | R_rand | R_lock nat | R_load nat | R_store nat 'd | R_show nat | R_unlock nat | R_done nat

datatype roots_pc = X_create nat | X_join nat | X_print | X_exit int

record 'd root_thread =
  rpc :: "'d root_pc"
  rseed :: "32 word"

record 'd roots =
  rarr :: "'d list"
  mx_arr :: mutex
  workers :: "'d root_thread list"
  xmain :: roots_pc
  rout :: "byte list list"

definition root_index :: "rng \<Rightarrow> nat \<Rightarrow> 32 word \<Rightarrow> nat" where
  "root_index rand_r k seed = nat (fst (rand_r seed) mod int k)"

definition thread_work :: "'d doubles \<Rightarrow> ('d \<Rightarrow> byte list) \<Rightarrow> rng \<Rightarrow> nat \<Rightarrow> 'd roots \<Rightarrow> 'd roots option" where
  "thread_work fl lf rand_r i s =
     (let t = workers s ! i; go = (\<lambda>p. s\<lparr>workers := (workers s)[i := t\<lparr>rpc := p\<rparr>]\<rparr>) in
      case rpc t of
        R_absent \<Rightarrow> None
      | R_rand \<Rightarrow> Some (s\<lparr>workers := (workers s)[i := \<lparr>rpc = R_lock (root_index rand_r (length (rarr s)) (rseed t)),
            rseed = snd (rand_r (rseed t))\<rparr>]\<rparr>)
      | R_lock j \<Rightarrow> map_option (\<lambda>m. (go (R_load j))\<lparr>mx_arr := m\<rparr>) (mx_lock i (mx_arr s))
      | R_load j \<Rightarrow> Some (go (R_store j (rarr s ! j)))
      | R_store j x \<Rightarrow> Some ((go (R_show j))\<lparr>rarr := (rarr s)[j := d_sqrt fl x]\<rparr>)
      | R_show j \<Rightarrow> Some ((go (R_unlock j))\<lparr>rout := rout s @ [lf (rarr s ! j) @ [32, 10]]\<rparr>)
      | R_unlock j \<Rightarrow> map_option (\<lambda>m. (go (R_done j))\<lparr>mx_arr := m\<rparr>) (mx_unlock i (mx_arr s))
      | R_done j \<Rightarrow> None)"

text \<open>The rest of \<open>main\<close>; \<open>ok\<close> is whether creating or joining the thread succeeds.\<close>

definition roots_main :: "('d \<Rightarrow> byte list) \<Rightarrow> bool \<Rightarrow> 'd roots \<Rightarrow> 'd roots option" where
  "roots_main lf ok s =
     (let n = length (workers s) in
      case xmain s of
        X_create i \<Rightarrow> Some (
          if i < n then
            (if ok then s\<lparr>xmain := X_create (i + 1), workers := (workers s)[i := (workers s ! i)\<lparr>rpc := R_rand\<rparr>]\<rparr>
             else s\<lparr>xmain := X_exit 1\<rparr>)
          else s\<lparr>xmain := X_join 0\<rparr>)
      | X_join i \<Rightarrow>
          (if i < n then
             if \<not> ok then Some (s\<lparr>xmain := X_exit 1\<rparr>)
             else case rpc (workers s ! i) of R_done j \<Rightarrow> Some (s\<lparr>xmain := X_join (i + 1)\<rparr>) | _ \<Rightarrow> None
           else Some (s\<lparr>xmain := X_print\<rparr>))
      | X_print \<Rightarrow> Some (s\<lparr>xmain := X_exit 0, rout := rout s @ [print_arr lf (rarr s)]\<rparr>)
      | X_exit c \<Rightarrow> None)"

definition roots_start :: "'d list \<Rightarrow> 32 word list \<Rightarrow> 'd roots" where
  "roots_start arr seeds = \<lparr>rarr = arr, mx_arr = None, workers = map (\<lambda>x. \<lparr>rpc = R_absent, rseed = x\<rparr>) seeds,
     xmain = X_create 0, rout = []\<rparr>"

definition roots_running :: "'d roots \<Rightarrow> bool" where
  "roots_running s \<longleftrightarrow> (case xmain s of X_exit c \<Rightarrow> False | _ \<Rightarrow> True)"

definition roots_act :: "'d doubles \<Rightarrow> ('d \<Rightarrow> byte list) \<Rightarrow> rng \<Rightarrow> bool \<Rightarrow> thread_id \<Rightarrow> 'd roots \<Rightarrow> 'd roots option" where
  "roots_act fl lf rand_r ok a s = (case a of
       None \<Rightarrow> roots_main lf ok s
     | Some i \<Rightarrow> if roots_running s \<and> i < length (workers s) then thread_work fl lf rand_r i s else None)"

text \<open>All steps, and those in which no call of the main thread fails.\<close>

definition roots_step :: "'d doubles \<Rightarrow> ('d \<Rightarrow> byte list) \<Rightarrow> rng \<Rightarrow> 'd roots \<Rightarrow> 'd roots \<Rightarrow> bool" where
  "roots_step fl lf rand_r s t \<longleftrightarrow> (\<exists>ok a. roots_act fl lf rand_r ok a s = Some t)"

definition roots_good_step :: "'d doubles \<Rightarrow> ('d \<Rightarrow> byte list) \<Rightarrow> rng \<Rightarrow> 'd roots \<Rightarrow> 'd roots \<Rightarrow> bool" where
  "roots_good_step fl lf rand_r s t \<longleftrightarrow> (\<exists>a. roots_act fl lf rand_r True a s = Some t)"

text \<open>The sequential reference: the threads one after the other.\<close>

definition roots_sequential :: "'d doubles \<Rightarrow> rng \<Rightarrow> 32 word list \<Rightarrow> 'd list \<Rightarrow> 'd list" where
  "roots_sequential fl rand_r seeds arr =
     fold (\<lambda>x a. let j = root_index rand_r (length a) x in a[j := d_sqrt fl (a ! j)]) seeds arr"

section \<open>Invariants\<close>

fun in_roots :: "'d root_pc \<Rightarrow> bool" where
  "in_roots (R_load j) = True" | "in_roots (R_store j x) = True" | "in_roots (R_show j) = True"
| "in_roots (R_unlock j) = True" | "in_roots _ = False"

fun drawn :: "'d root_pc \<Rightarrow> nat option" where
  "drawn R_absent = None" | "drawn R_rand = None" | "drawn (R_lock j) = Some j" | "drawn (R_load j) = Some j"
| "drawn (R_store j x) = Some j" | "drawn (R_show j) = Some j" | "drawn (R_unlock j) = Some j" | "drawn (R_done j) = Some j"

fun rooted :: "nat \<Rightarrow> 'd root_pc \<Rightarrow> bool" where
  "rooted j (R_show i) = (i = j)" | "rooted j (R_unlock i) = (i = j)" | "rooted j (R_done i) = (i = j)" | "rooted j _ = False"

fun read_right :: "'d list \<Rightarrow> 'd root_pc \<Rightarrow> bool" where
  "read_right arr (R_store j x) = (x = arr ! j)" | "read_right arr _ = True"

definition on_root :: "rng \<Rightarrow> nat \<Rightarrow> 32 word \<Rightarrow> 'd root_thread \<Rightarrow> bool" where
  "on_root rand_r k x t \<longleftrightarrow> (case drawn (rpc t) of None \<Rightarrow> rseed t = x | Some j \<Rightarrow> j = root_index rand_r k x)"

definition times_rooted :: "nat \<Rightarrow> 'd roots \<Rightarrow> int" where
  "times_rooted j s = threads_in (\<lambda>t. rooted j (rpc t)) (workers s)"

definition roots_locked :: "'d roots \<Rightarrow> bool" where
  "roots_locked s \<longleftrightarrow> protects (mx_arr s) (\<lambda>t. in_roots (rpc t)) (workers s) \<and>
     (\<forall>i. mx_arr s = Some i \<longrightarrow> i < length (workers s)) \<and>
     (\<forall>i < length (workers s). read_right (rarr s) (rpc (workers s ! i)))"

definition roots_data :: "'d doubles \<Rightarrow> rng \<Rightarrow> 'd list \<Rightarrow> 32 word list \<Rightarrow> 'd roots \<Rightarrow> bool" where
  "roots_data fl rand_r arr seeds s \<longleftrightarrow> length (rarr s) = length arr \<and> length (workers s) = length seeds \<and>
     (\<forall>i < length seeds. on_root rand_r (length arr) (seeds ! i) (workers s ! i)) \<and>
     (\<forall>j < length arr. rarr s ! j = (d_sqrt fl ^^ nat (times_rooted j s)) (arr ! j))"

fun root_done :: "'d root_pc \<Rightarrow> bool" where
  "root_done (R_done j) = True" | "root_done _ = False"

definition roots_phase :: "('d \<Rightarrow> byte list) \<Rightarrow> 'd roots \<Rightarrow> bool" where
  "roots_phase lf s \<longleftrightarrow> (case xmain s of
       X_create i \<Rightarrow> i \<le> length (workers s) \<and> (\<forall>k < length (workers s). rpc (workers s ! k) = R_absent \<longleftrightarrow> i \<le> k)
     | X_join i \<Rightarrow> i \<le> length (workers s) \<and> (\<forall>k < length (workers s). rpc (workers s ! k) \<noteq> R_absent) \<and>
         (\<forall>k < i. root_done (rpc (workers s ! k)))
     | X_print \<Rightarrow> \<forall>k < length (workers s). root_done (rpc (workers s ! k))
     | X_exit c \<Rightarrow> (c = 0 \<or> c = 1) \<and> (c = 0 \<longrightarrow>
         (\<forall>k < length (workers s). root_done (rpc (workers s ! k))) \<and> last (rout s) = print_arr lf (rarr s)))"

lemma roots_act_cases [consumes 1, case_names main thread]:
  assumes "roots_act fl lf rand_r ok a s = Some t"
  obtains "a = None" "roots_main lf ok s = Some t"
  | i where "a = Some i" "roots_running s" "i < length (workers s)" "thread_work fl lf rand_r i s = Some t"
  using assms by (auto simp: roots_act_def split: option.splits if_splits)

lemma thread_work_local:
  assumes "thread_work fl lf rand_r i s = Some t" "i < length (workers s)"
  shows "length (workers t) = length (workers s)" "length (rarr t) = length (rarr s)" "xmain t = xmain s"
    and "k \<noteq> i \<Longrightarrow> workers t ! k = workers s ! k"
    and "rpc (workers s ! i) \<noteq> R_absent" "rpc (workers t ! i) \<noteq> R_absent" "\<not> root_done (rpc (workers s ! i))"
  using assms by (cases "rpc (workers s ! i)"; auto simp: thread_work_def Let_def)+

lemma roots_locked_thread:
  assumes inv: "roots_locked s" and t: "thread_work fl lf rand_r i s = Some t" and i: "i < length (workers s)"
  shows "roots_locked t"
proof -
  have p: "protects (mx_arr s) (\<lambda>t. in_roots (rpc t)) (workers s)" using inv by (simp add: roots_locked_def)
  have mine: "mx_arr s = Some i \<longleftrightarrow> in_roots (rpc (workers s ! i))" using p i by (simp add: protects_def)
  have right: "read_right a q" if "\<not> in_roots q" for a :: "'a list" and q using that by (cases q) auto
  have same: "rarr t = rarr s \<or> in_roots (rpc (workers s ! i))"
    using t by (cases "rpc (workers s ! i)") (auto simp: thread_work_def Let_def)
  have "read_right (rarr t) (rpc (workers t ! k))" if k: "k < length (workers s)" for k
  proof (cases "k = i")
    case True
    then show ?thesis using t i by (cases "rpc (workers s ! i)") (auto simp: thread_work_def Let_def)
  next
    case False
    have "rarr t = rarr s \<or> \<not> in_roots (rpc (workers s ! k))" using same protects_exclusive [OF p i k] False by blast
    then show ?thesis using inv k right thread_work_local(4) [OF t i False] by (auto simp: roots_locked_def)
  qed
  moreover have "protects (mx_arr t) (\<lambda>t. in_roots (rpc t)) (workers t) \<and> (\<forall>k. mx_arr t = Some k \<longrightarrow> k < length (workers s))"
    using t inv i mine
    by (cases "rpc (workers s ! i)") (auto simp: thread_work_def Let_def roots_locked_def protects_rules)
  ultimately show ?thesis using thread_work_local(1) [OF t i] by (simp add: roots_locked_def)
qed

lemma roots_data_thread:
  assumes inv: "roots_data fl rand_r arr seeds s" and l: "roots_locked s"
    and t: "thread_work fl lf rand_r i s = Some t" and i: "i < length (workers s)"
  shows "roots_data fl rand_r arr seeds t"
proof -
  have len: "length (rarr s) = length arr" "length (workers s) = length seeds" using inv by (simp_all add: roots_data_def)
  have oi: "on_root rand_r (length arr) (seeds ! i) (workers s ! i)" using inv i len by (simp add: roots_data_def)
  have "on_root rand_r (length arr) (seeds ! i) (workers t ! i)"
    using t i oi len by (cases "rpc (workers s ! i)") (auto simp: thread_work_def Let_def on_root_def)
  then have course: "on_root rand_r (length arr) (seeds ! k) (workers t ! k)" if "k < length seeds" for k
    using inv thread_work_local(4) [OF t i] that by (cases "k = i") (auto simp: roots_data_def)
  have vals: "rarr t ! j = (d_sqrt fl ^^ nat (times_rooted j t)) (arr ! j)" if j: "j < length arr" for j
  proof -
    have old: "rarr s ! j = (d_sqrt fl ^^ nat (times_rooted j s)) (arr ! j)" using inv j by (simp add: roots_data_def)
    have nonneg: "0 \<le> times_rooted j s" by (simp add: times_rooted_def)
    show ?thesis
    proof (cases "\<exists>x. rpc (workers s ! i) = R_store j x")
      case True
      then obtain x where x: "rpc (workers s ! i) = R_store j x" by blast
      then have "x = rarr s ! j" using l i by (auto simp: roots_locked_def dest: spec [of _ i])
      moreover have "times_rooted j t = times_rooted j s + 1" "rarr t ! j = d_sqrt fl x"
        using t x i j len by (auto simp: thread_work_def Let_def times_rooted_def threads_in_update)
      ultimately show ?thesis using old nonneg by (simp add: nat_add_distrib)
    next
      case False
      then have "times_rooted j t = times_rooted j s" "rarr t ! j = rarr s ! j"
        using t i by (cases "rpc (workers s ! i)"; auto simp: thread_work_def Let_def times_rooted_def threads_in_update)+
      then show ?thesis using old by simp
    qed
  qed
  show ?thesis using course vals len thread_work_local(1,2) [OF t i] by (simp add: roots_data_def)
qed

lemma roots_phase_thread:
  assumes inv: "roots_phase lf s" "roots_running s" and t: "thread_work fl lf rand_r i s = Some t" and i: "i < length (workers s)"
  shows "roots_phase lf t"
proof -
  note frame = thread_work_local [OF t i]
  have abs: "rpc (workers t ! k) = R_absent \<longleftrightarrow> rpc (workers s ! k) = R_absent" for k
    using frame(4-6) by (cases "k = i") auto
  have don: "root_done (rpc (workers s ! k)) \<Longrightarrow> root_done (rpc (workers t ! k))" for k
    using frame(4,7) by (cases "k = i") auto
  show ?thesis using inv frame(1,3) abs don
    by (auto simp: roots_phase_def roots_running_def split: roots_pc.splits)
qed

lemma roots_main_inv:
  assumes t: "roots_main lf ok s = Some t"
    and inv: "roots_locked s" "roots_data fl rand_r arr seeds s" "roots_phase lf s"
  shows "roots_locked t" "roots_data fl rand_r arr seeds t" "roots_phase lf t"
proof -
  have create: "roots_locked u \<and> roots_data fl rand_r arr seeds u \<and> roots_phase lf u"
    if u: "xmain s = X_create i" "i < length (workers s)"
      "u = s\<lparr>xmain := X_create (i + 1), workers := (workers s)[i := (workers s ! i)\<lparr>rpc := R_rand\<rparr>]\<rparr>" for i u
  proof -
    have a: "rpc (workers s ! i) = R_absent" using inv(3) u by (simp add: roots_phase_def)
    have "roots_locked u" using inv(1) u a by (auto simp: roots_locked_def protects_rules nth_list_update)
    moreover have "roots_data fl rand_r arr seeds u" using inv(2) u a
      by (auto simp: roots_data_def times_rooted_def threads_in_update nth_list_update on_root_def)
    moreover have "roots_phase lf u" using inv(3) u by (auto simp: roots_phase_def nth_list_update)
    ultimately show ?thesis by blast
  qed
  have same: "roots_locked u \<and> roots_data fl rand_r arr seeds u" if "workers u = workers s" "rarr u = rarr s" "mx_arr u = mx_arr s" for u
    using inv(1,2) that by (simp add: roots_locked_def roots_data_def times_rooted_def)
  have "(\<exists>i. xmain s = X_create i \<and> i < length (workers s) \<and>
      t = s\<lparr>xmain := X_create (i + 1), workers := (workers s)[i := (workers s ! i)\<lparr>rpc := R_rand\<rparr>]\<rparr>) \<or>
    workers t = workers s \<and> rarr t = rarr s \<and> mx_arr t = mx_arr s \<and> roots_phase lf t"
    using t inv(3)
    by (cases "xmain s")
      (auto simp: roots_main_def Let_def roots_phase_def less_Suc_eq split: if_splits root_pc.splits)
  then show "roots_locked t" "roots_data fl rand_r arr seeds t" "roots_phase lf t" using create same by blast+
qed

definition roots_inv :: "'d doubles \<Rightarrow> ('d \<Rightarrow> byte list) \<Rightarrow> rng \<Rightarrow> 'd list \<Rightarrow> 32 word list \<Rightarrow> 'd roots \<Rightarrow> bool" where
  "roots_inv fl lf rand_r arr seeds s \<longleftrightarrow> roots_locked s \<and> roots_data fl rand_r arr seeds s \<and> roots_phase lf s"

definition roots_init :: "'d list \<Rightarrow> 32 word list \<Rightarrow> 'd roots \<Rightarrow> bool" where
  "roots_init arr seeds s \<longleftrightarrow> s = roots_start arr seeds"

lemma roots_start_inv: "roots_inv fl lf rand_r arr seeds (roots_start arr seeds)"
proof -
  have "times_rooted j (roots_start arr seeds) = 0" for j
    unfolding times_rooted_def by (rule threads_in_zero) (auto simp: roots_start_def)
  then show ?thesis
    by (simp add: roots_inv_def roots_locked_def roots_data_def roots_phase_def on_root_def)
      (simp add: roots_start_def protects_def)
qed

lemma roots_step_inv:
  assumes "roots_inv fl lf rand_r arr seeds s" "roots_step fl lf rand_r s t"
  shows "roots_inv fl lf rand_r arr seeds t"
proof -
  obtain ok a where a: "roots_act fl lf rand_r ok a s = Some t" using assms(2) by (auto simp: roots_step_def)
  have s: "roots_locked s" "roots_data fl rand_r arr seeds s" "roots_phase lf s" using assms(1) by (simp_all add: roots_inv_def)
  from a show ?thesis
  proof (cases rule: roots_act_cases)
    case main
    from roots_main_inv [OF main(2) s] show ?thesis by (simp add: roots_inv_def)
  next
    case (thread i)
    show ?thesis
      using roots_locked_thread [OF s(1) thread(4,3)] roots_data_thread [OF s(2,1) thread(4,3)]
        roots_phase_thread [OF s(3) thread(2,4,3)]
      by (simp add: roots_inv_def)
  qed
qed

interpretation root_threads: inv_system "roots_init arr seeds" "roots_step fl lf rand_r" "roots_inv fl lf rand_r arr seeds"
  for arr seeds fl lf rand_r
  by unfold_locales (auto simp: roots_init_def roots_start_inv intro: roots_step_inv)

section \<open>The sequential reference\<close>

lemma length_roots_sequential [simp]: "length (roots_sequential fl rand_r seeds arr) = length arr"
  unfolding roots_sequential_def by (induction seeds arbitrary: arr) (simp_all add: Let_def)

lemma roots_sequential_nth:
  "j < length arr \<Longrightarrow> roots_sequential fl rand_r seeds arr ! j =
     (d_sqrt fl ^^ length (filter (\<lambda>x. root_index rand_r (length arr) x = j) seeds)) (arr ! j)"
  unfolding roots_sequential_def
  by (induction seeds arbitrary: arr) (auto simp: Let_def nth_list_update funpow_swap1)

lemma all_rooted:
  assumes "roots_data fl rand_r arr seeds s" "\<forall>k < length (workers s). root_done (rpc (workers s ! k))"
  shows "rarr s = roots_sequential fl rand_r seeds arr"
proof (rule nth_equalityI)
  show "length (rarr s) = length (roots_sequential fl rand_r seeds arr)" using assms(1) by (simp add: roots_data_def)
  fix j assume "j < length (rarr s)"
  then have j: "j < length arr" using assms(1) by (simp add: roots_data_def)
  have len: "length (workers s) = length seeds" using assms(1) by (simp add: roots_data_def)
  have r: "rooted j (rpc (workers s ! k)) = (root_index rand_r (length arr) (seeds ! k) = j)" if "k < length seeds" for k
  proof -
    have "on_root rand_r (length arr) (seeds ! k) (workers s ! k)" "root_done (rpc (workers s ! k))"
      using assms that len by (simp_all add: roots_data_def)
    then show ?thesis by (cases "rpc (workers s ! k)") (auto simp: on_root_def)
  qed
  have "map (\<lambda>t. rooted j (rpc t)) (workers s) = map (\<lambda>x. root_index rand_r (length arr) x = j) seeds"
    using len r by (intro nth_equalityI) auto
  then have "filter id (map (\<lambda>t. rooted j (rpc t)) (workers s)) = filter id (map (\<lambda>x. root_index rand_r (length arr) x = j) seeds)"
    by simp
  then have "length (filter (\<lambda>t. rooted j (rpc t)) (workers s)) = length (filter (\<lambda>x. root_index rand_r (length arr) x = j) seeds)"
    by (simp add: filter_map comp_def) (metis length_map)
  then show "rarr s ! j = roots_sequential fl rand_r seeds arr ! j"
    using assms(1) j by (simp add: roots_data_def roots_sequential_nth times_rooted_def threads_in_def)
qed

section \<open>Termination\<close>

fun root_rank :: "'d root_pc \<Rightarrow> nat" where
  "root_rank R_absent = 9" | "root_rank R_rand = 8" | "root_rank (R_lock j) = 7" | "root_rank (R_load j) = 6"
| "root_rank (R_store j x) = 5" | "root_rank (R_show j) = 4" | "root_rank (R_unlock j) = 3" | "root_rank (R_done j) = 2"

fun xmain_rank :: "nat \<Rightarrow> roots_pc \<Rightarrow> nat" where
  "xmain_rank n (X_create i) = 2 * n + 4 - i" | "xmain_rank n (X_join i) = n + 2 - i" | "xmain_rank n X_print = 1"
| "xmain_rank n (X_exit c) = 0"

definition roots_mu :: "'d roots \<Rightarrow> nat" where
  "roots_mu s = sum_list (map (\<lambda>t. root_rank (rpc t)) (workers s)) + xmain_rank (length (workers s)) (xmain s)"

lemma roots_mu_thread:
  assumes t: "thread_work fl lf rand_r i s = Some t" and i: "i < length (workers s)"
  shows "roots_mu t < roots_mu s"
proof -
  have "workers t = (workers s)[i := workers t ! i] \<and> root_rank (rpc (workers t ! i)) < root_rank (rpc (workers s ! i))"
    using t i by (cases "rpc (workers s ! i)") (auto simp: thread_work_def Let_def)
  then obtain y where y: "workers t = (workers s)[i := y]" "root_rank (rpc y) < root_rank (rpc (workers s ! i))" by blast
  then show ?thesis using sum_list_map_update_nat [OF i, of "\<lambda>t. root_rank (rpc t)" y] thread_work_local(1,3) [OF t i]
    by (simp add: roots_mu_def)
qed

lemma roots_mu_main:
  assumes t: "roots_main lf ok s = Some t" and "roots_phase lf s"
  shows "roots_mu t < roots_mu s"
proof (cases "\<exists>i. xmain s = X_create i \<and> i < length (workers s) \<and> ok")
  case True
  then obtain i where i: "xmain s = X_create i" "i < length (workers s)" "ok" by blast
  have "rpc (workers s ! i) = R_absent" using assms(2) i by (simp add: roots_phase_def)
  then show ?thesis
    using t i sum_list_map_update_nat [OF i(2), of "\<lambda>t. root_rank (rpc t)" "(workers s ! i)\<lparr>rpc := R_rand\<rparr>"]
    by (auto simp: roots_mu_def roots_main_def Let_def)
next
  case False
  then show ?thesis using assms
    by (cases "xmain s")
      (auto simp: roots_mu_def roots_main_def roots_phase_def Let_def split: if_splits root_pc.splits)
qed

lemma roots_progress:
  assumes inv: "roots_locked s" "roots_phase lf s" and run: "roots_running s"
  shows "\<exists>t. roots_good_step fl lf rand_r s t"
proof (cases "\<exists>t. roots_main lf True s = Some t")
  case True
  then obtain t where "roots_act fl lf rand_r True None s = Some t" by (auto simp: roots_act_def)
  then show ?thesis unfolding roots_good_step_def by blast
next
  case False
  then obtain i where i: "xmain s = X_join i" "i < length (workers s)" "\<not> root_done (rpc (workers s ! i))"
    using run by (auto simp: roots_main_def roots_running_def Let_def split: roots_pc.splits if_splits root_pc.splits)
  have "rpc (workers s ! i) \<noteq> R_absent" using inv(2) i by (simp add: roots_phase_def)
  then have "\<exists>k t. k < length (workers s) \<and> thread_work fl lf rand_r k s = Some t"
  proof (cases "mx_arr s")
    case None
    then have "\<not> in_roots (rpc (workers s ! i))" using inv(1) i by (simp add: roots_locked_def protects_def)
    then have "thread_work fl lf rand_r i s \<noteq> None" using None i \<open>rpc (workers s ! i) \<noteq> R_absent\<close>
      by (cases "rpc (workers s ! i)") (auto simp: thread_work_def Let_def)
    then show ?thesis using i by blast
  next
    case (Some k)
    then have "k < length (workers s)" "in_roots (rpc (workers s ! k))"
      using inv(1) by (auto simp: roots_locked_def protects_def)
    moreover have "thread_work fl lf rand_r k s \<noteq> None" using calculation Some
      by (cases "rpc (workers s ! k)") (auto simp: thread_work_def Let_def)
    ultimately show ?thesis by blast
  qed
  then obtain k t where "k < length (workers s)" "thread_work fl lf rand_r k s = Some t" by blast
  then have "roots_act fl lf rand_r True (Some k) s = Some t" using run by (simp add: roots_act_def)
  then show ?thesis unfolding roots_good_step_def by blast
qed

interpretation root_runs: terminating_system "roots_init arr seeds" "roots_good_step fl lf rand_r"
    "roots_inv fl lf rand_r arr seeds" roots_mu "\<lambda>s. \<not> roots_running s"
  for arr seeds fl lf rand_r
proof unfold_locales
  have good: "roots_step fl lf rand_r s t" if "roots_good_step fl lf rand_r s t" for s t :: "'a roots"
    using that by (auto simp: roots_good_step_def roots_step_def)
  show "roots_inv fl lf rand_r arr seeds s" if "roots_init arr seeds s" for s
    using that by (rule root_threads.inv_init)
  show "roots_inv fl lf rand_r arr seeds t" if "roots_inv fl lf rand_r arr seeds s" "roots_good_step fl lf rand_r s t" for s t
    using that good roots_step_inv by blast
  show "roots_mu t < roots_mu s" if "roots_inv fl lf rand_r arr seeds s" "roots_good_step fl lf rand_r s t" for s t
    using that roots_mu_thread roots_mu_main unfolding roots_good_step_def roots_inv_def
    by (metis roots_act_cases)
  show "\<exists>t. roots_good_step fl lf rand_r s t" if "roots_inv fl lf rand_r arr seeds s" "\<not> \<not> roots_running s" for s
    using that roots_progress by (auto simp: roots_inv_def)
qed

text \<open>No thread fails to be created or joined: the main thread does not exit early.\<close>

lemma good_exit_code: "(roots_good_step fl lf rand_r)\<^sup>*\<^sup>* s t \<Longrightarrow> roots_running s \<or> xmain s = X_exit 0 \<Longrightarrow>
  roots_running t \<or> xmain t = X_exit 0"
proof (induction rule: rtranclp_induct)
  case (step u v)
  then have "roots_running u \<or> xmain u = X_exit 0" by blast
  moreover obtain a where "roots_act fl lf rand_r True a u = Some v" using step(2) by (auto simp: roots_good_step_def)
  from this have "roots_main lf True u = Some v \<or> xmain v = xmain u"
    by (cases rule: roots_act_cases) (auto dest: thread_work_local(3))
  ultimately show ?case
    by (auto simp: roots_main_def roots_running_def Let_def split: if_splits roots_pc.splits root_pc.splits)
qed simp

text \<open>
  Property C17. Whatever the interleaving, and for every square root function, the array that
  \<open>test2\<close> prints at its end is the one the threads produce when they run one after the other,
  and a run in which no call fails comes to this print after boundedly many steps.
\<close>

theorem roots_are_sequential:
  assumes "(roots_step fl lf rand_r)\<^sup>*\<^sup>* (roots_start arr seeds) s"
  shows "(xmain s = X_exit 0 \<longrightarrow> last (rout s) = print_arr lf (roots_sequential fl rand_r seeds arr)) \<and>
    (xmain s \<noteq> X_exit 1 \<longrightarrow> (\<exists>t. (roots_good_step fl lf rand_r)\<^sup>*\<^sup>* s t \<and> xmain t = X_exit 0)) \<and>
    (\<forall>n t. (roots_good_step fl lf rand_r ^^ n) (roots_start arr seeds) t \<longrightarrow> n \<le> 11 * length seeds + 4)"
proof (intro conjI impI allI)
  have init: "roots_init arr seeds (roots_start arr seeds)" by (simp add: roots_init_def)
  have inv: "roots_inv fl lf rand_r arr seeds s" by (rule root_threads.inv_reachable [OF init assms])
  show "last (rout s) = print_arr lf (roots_sequential fl rand_r seeds arr)" if "xmain s = X_exit 0"
    using inv that all_rooted by (fastforce simp: roots_inv_def roots_phase_def)
  show "\<exists>t. (roots_good_step fl lf rand_r)\<^sup>*\<^sup>* s t \<and> xmain t = X_exit 0" if "xmain s \<noteq> X_exit 1"
  proof -
    have "roots_running s \<or> xmain s = X_exit 0"
      using inv that by (auto simp: roots_inv_def roots_phase_def roots_running_def split: roots_pc.splits)
    then show ?thesis using root_runs.reaches_final [OF inv] good_exit_code by blast
  qed
  have "roots_mu (roots_start arr seeds) = 11 * length seeds + 4"
    by (simp add: roots_mu_def roots_start_def comp_def sum_list_triv)
  then show "n \<le> 11 * length seeds + 4" if "(roots_good_step fl lf rand_r ^^ n) (roots_start arr seeds) t" for n t
    using root_runs.run_length [OF that roots_start_inv] by simp
qed

lemma roots_run:
  "run_schedule (roots_act fl lf rand_r True) as s = Some t \<Longrightarrow> (roots_step fl lf rand_r)\<^sup>*\<^sup>* s t"
  by (erule run_schedule_steps) (auto simp: roots_step_def)

text \<open>An instance with integers and halving: three threads, of which two draw the same element.\<close>

definition half_doubles :: "int doubles" where
  "half_doubles = \<lparr>d_of_int = id, d_add = (+), d_mul = (*), d_div = (div), d_sqrt = (\<lambda>x. x div 2), d_le = (\<le>)\<rparr>"

definition roots_schedule :: "thread_id list" where
  "roots_schedule = replicate 4 None @ [Some 2, Some 0, Some 2, Some 1, Some 2, Some 2, Some 2, Some 2] @
     replicate 5 (Some 0) @ replicate 5 (Some 1) @ replicate 5 None"

theorem roots_are_sequential_witness:
  "print_arr fmt_d (roots_sequential half_doubles (\<lambda>x. (uint x, x)) [1, 0, 1] [100, 80]) = str ''[ 50 20 ]'' @ [10]"
proof -
  let ?r = "\<lambda>x :: 32 word. (uint x, x)"
  let ?run = "run_schedule (roots_act half_doubles fmt_d ?r True) roots_schedule (roots_start [100, 80] [1, 0, 1])"
  have "map_option (\<lambda>s. (xmain s, last (rout s))) ?run = Some (X_exit 0, str ''[ 50 20 ]'' @ [10])" by code_simp
  then obtain s where s: "?run = Some s" "xmain s = X_exit 0" "last (rout s) = str ''[ 50 20 ]'' @ [10]" by auto
  show ?thesis using roots_are_sequential [OF roots_run [OF s(1)]] s(2,3) by simp
qed

section \<open>The set-up\<close>

lemma wp_roots_sys:
  "(\<And>r w1. good r \<Longrightarrow> Q r w1) \<Longrightarrow> (\<And>h w1. orderly h \<or> h = Undef \<Longrightarrow> E h w1) \<Longrightarrow> wp (sys n args p good) Q E w"
  by (rule wp_sys_any) auto

lemma wp_read_args_roots:
  assumes "\<And>n k. 0 < n \<Longrightarrow> 0 < k \<Longrightarrow> Q (n, k) v"
  shows "wp (read_args_roots argv) Q (\<lambda>h w1. orderly h \<or> h = Undef) v"
  using assms by (simp add: read_args_roots_def Let_def wp_rules)

lemma wp_fill_arr_rand:
  assumes "\<And>arr w1. length arr = nat k \<Longrightarrow> Q arr w1"
  shows "wp (fill_arr_rand fl k) Q (\<lambda>h w1. orderly h \<or> h = Undef) v"
  unfolding fill_arr_rand_def
  by (rule wp_for [where I = "\<lambda>xs arr w. length arr + length xs = nat k"])
    (auto simp: wp_rules rand_m_def assms intro!: wp_roots_sys)

lemma wp_draw_seeds:
  assumes "\<And>seeds w1. length seeds = n \<Longrightarrow> Q seeds w1"
  shows "wp (for_m [0..<n] (\<lambda>i seeds. bind_m rand_m (\<lambda>v. ret (seeds @ [word_of_int v]))) []) Q
      (\<lambda>h w1. orderly h \<or> h = Undef) v"
  by (rule wp_for [where I = "\<lambda>xs seeds w. length seeds + length xs = n"])
    (auto simp: wp_rules rand_m_def assms intro!: wp_roots_sys)

lemma roots_setup_ok:
  "wp (roots_setup fl lf argv) (\<lambda>(arr, seeds) w1. arr \<noteq> [] \<and> seeds \<noteq> []) (\<lambda>h w1. orderly h \<or> h = Undef) w"
  unfolding roots_setup_def init_arr_def
  by (auto simp: wp_rules intro!: wp_read_args_roots wp_fill_arr_rand wp_draw_seeds wp_roots_sys)

end
