(* ===== verification/DigitSum.thy ===== *)
theory DigitSum
  imports Sockets
begin

text \<open>
  \<open>L2_3/test_prog\<close>: clients send their process number as text in 15 bytes, the server
  answers each with the sum of its decimal digits, a 16-bit word in network byte order, and at
  its end prints the largest answer it has computed.
\<close>

section \<open>The sum of the digits\<close>

definition DATA_LEN :: nat where "DATA_LEN = 15"
definition DIGITS_BACKLOG :: int where "DIGITS_BACKLOG = 3"

text \<open>The assignment of an \<open>int\<close> to an \<open>int16_t\<close> keeps the low 16 bits.\<close>

definition to_int16 :: "int \<Rightarrow> int" where
  "to_int16 x = signed_take_bit 15 x"

lemma smaller_quotient: "(x::int) \<noteq> 0 \<Longrightarrow> \<bar>x sdiv 10\<bar> < \<bar>x\<bar>"
  by (simp add: signed_divide_int_def abs_mult)

function digit_sum_loop :: "int \<Rightarrow> int \<Rightarrow> int" where
  "digit_sum_loop acc pid =
     (if pid = 0 then acc else digit_sum_loop (to_int16 (acc + pid smod 10)) (pid sdiv 10))"
  by pat_completeness auto
termination
  by (relation "measure (\<lambda>(acc, pid). nat \<bar>pid\<bar>)") (auto simp: smaller_quotient)

declare digit_sum_loop.simps [simp del]

text \<open>
  \<open>calculate\<close>: the argument of \<open>atoi\<close> has to be a string, so an array without a NUL is
  undefined behaviour.
\<close>

definition digit_calculate :: "byte list \<Rightarrow> ('g, int) prog" where
  "digit_calculate data =
     (if 0 \<notin> set data then halt_m Undef
      else let pid = atoi data in
        if pid = 0 then bind_m (printf (str ''Invlid data'' @ [10])) (\<lambda>_. ret (to_int16 (-1)))
        else ret (digit_sum_loop 0 pid))"

section \<open>The server\<close>

text \<open>
  The array \<open>data\<close> is not initialised: \<open>junk\<close> is its content when the function is entered,
  of which the bytes read replace the beginning.
\<close>

definition digit_communicate :: "byte list \<Rightarrow> int \<Rightarrow> int \<Rightarrow> ('g, int) prog" where
  "digit_communicate junk cfd mx =
     bind_m (bulk_read cfd DATA_LEN) (\<lambda>(size, buf).
     if size < 0 then err_exit ''read:''
     else bind_m (digit_calculate (put_at 0 buf junk)) (\<lambda>acc.
       let mx = (if mx \<ge> acc then mx else acc) in
       bind_m (bulk_write cfd (bytes16 (htons (word_of_int acc)))) (\<lambda>n.
       bind_m get_errno (\<lambda>e.
       if n < 0 \<and> e \<noteq> EPIPE then err_exit ''write:''
       else bind_m (retry (sys_close cfd)) (\<lambda>r.
         if r_val r < 0 then err_exit ''close'' else ret mx)))))"

text \<open>The global is \<open>do_work\<close>.\<close>

definition digit_sigint_handler :: "nat \<Rightarrow> int \<Rightarrow> int \<times> byte list list" where
  "digit_sigint_handler sig do_work = (0, [])"

text \<open>The state of the loop: how many clients were served (it selects the junk), and \<open>max\<close>.\<close>

definition digit_doServer_body ::
  "(nat \<Rightarrow> byte list) \<Rightarrow> int \<Rightarrow> nat list \<Rightarrow> nat \<times> int \<Rightarrow> (int, nat \<times> int + int) prog" where
  "digit_doServer_body junk fdT oldmask = (\<lambda>(k, mx).
     bind_m get_glob (\<lambda>do_work.
     if do_work = 0 then ret (Inr mx)
     else
       bind_m (with_mask oldmask (sys SYS_pselect [fdT + 1] [] fd_ok)) (\<lambda>r.
       if r_val r > 0 then
         bind_m (add_new_client fdT) (\<lambda>cfd.
         if cfd \<ge> 0 then bind_m (digit_communicate (junk k) cfd mx) (\<lambda>mx. ret (Inl (k + 1, mx)))
         else ret (Inl (k, mx)))
       else bind_m get_errno (\<lambda>e.
         if e = EINTR then ret (Inl (k, mx)) else err_exit ''pselect''))))"

definition max_line :: "int \<Rightarrow> byte list" where
  "max_line mx = str ''MAX_SUM='' @ fmt_d mx @ [10]"

definition digit_doServer :: "(nat \<Rightarrow> byte list) \<Rightarrow> int \<Rightarrow> (int, unit) prog" where
  "digit_doServer junk fdT =
     bind_m (sigprocmask_block [SIGINT]) (\<lambda>oldmask.
     bind_m (loop_m (digit_doServer_body junk fdT oldmask) (0, 0)) (\<lambda>mx.
     bind_m (printf (max_line mx)) (\<lambda>_.
     sigprocmask_unblock [SIGINT])))"

definition digit_server_usage :: "byte list \<Rightarrow> ('g, unit) prog" where
  "digit_server_usage name = eprintf (str ''USAGE: '' @ name @ str '' port'' @ [10])"

definition digit_server_main :: "(nat \<Rightarrow> byte list) \<Rightarrow> byte list list \<Rightarrow> (int, int) prog" where
  "digit_server_main junk argv =
     (if length argv \<noteq> 2 then bind_m (digit_server_usage (argv ! 0)) (\<lambda>_. ret 1)
      else
        bind_m (sethandler SIG_IGN SIGPIPE) (\<lambda>a. if a \<noteq> 0 then err_exit ''Seting SIGPIPE:'' else
        bind_m (sethandler (Handler digit_sigint_handler) SIGINT) (\<lambda>b.
        if b \<noteq> 0 then err_exit ''Seting SIGINT:'' else
        bind_m (bind_tcp_socket (word_of_int (atoi (argv ! 1))) DIGITS_BACKLOG) (\<lambda>fdT.
        bind_m (set_nonblock fdT) (\<lambda>_.
        bind_m (digit_doServer junk fdT) (\<lambda>_.
        bind_m (retry (sys_close fdT)) (\<lambda>d. if r_val d < 0 then err_exit ''close'' else
        bind_m (eprintf (str ''Server has terminated.'' @ [10])) (\<lambda>_.
        ret 0))))))))"

section \<open>The client\<close>

definition digit_request :: "int \<Rightarrow> byte list" where
  "digit_request pid = put_at 0 (fmt_d pid) (replicate DATA_LEN 0)"

definition prepare_digits :: "('g, byte list) prog" where
  "prepare_digits = bind_m (sys SYS_getpid [] [] any_ok) (\<lambda>p.
     bind_m (printf (str ''PID='' @ cstr (digit_request (r_val p)) @ [10])) (\<lambda>_.
     ret (digit_request (r_val p))))"

text \<open>\<open>ntohs\<close> gives an unsigned number.\<close>

definition sum_line :: "byte list \<Rightarrow> byte list" where
  "sum_line ans = str ''SUM='' @ fmt_d (uint (ntohs (word16 ans))) @ [10]"

definition digit_exchange :: "int \<Rightarrow> ('g, int) prog" where
  "digit_exchange fd =
     bind_m prepare_digits (\<lambda>data.
     bind_m (bulk_write fd data) (\<lambda>n. if n < 0 then err_exit ''write:'' else
     bind_m (bulk_read fd 2) (\<lambda>(m, ans). if m < 2 then err_exit ''read:'' else
     bind_m (printf (sum_line ans)) (\<lambda>_.
     bind_m (retry (sys_close fd)) (\<lambda>r. if r_val r < 0 then err_exit ''close'' else ret 0)))))"

definition digit_client_usage :: "byte list \<Rightarrow> ('g, unit) prog" where
  "digit_client_usage name = eprintf (str ''USAGE: '' @ name @ str '' domain port'' @ [10])"

definition digit_client_main :: "byte list list \<Rightarrow> ('g, int) prog" where
  "digit_client_main argv =
     (if length argv \<noteq> 3 then bind_m (digit_client_usage (argv ! 0)) (\<lambda>_. ret 1)
      else
        bind_m (sethandler SIG_IGN SIGPIPE) (\<lambda>a. if a \<noteq> 0 then err_exit ''Seting SIGPIPE:'' else
        bind_m (connect_socket (argv ! 1) (argv ! 2)) (\<lambda>fd.
        digit_exchange fd)))"

section \<open>What the sum is\<close>

text \<open>The specification: the decimal digits as printed, added up, with the sign of the number.\<close>

definition digit_total :: "nat \<Rightarrow> int" where
  "digit_total n = sum_list (map (\<lambda>d. uint d - 48) (digits n))"

lemma digit_total_rec: "digit_total n = (if n < 10 then int n else digit_total (n div 10) + int (n mod 10))"
proof (cases "n < 10")
  case True
  then show ?thesis by (subst digits.simps [of n] | simp add: digit_total_def digit_val del: of_nat_add)+
next
  case False
  have "uint (of_nat (48 + n mod 10) :: byte) = 48 + int (n mod 10)" by (rule digit_val) simp
  with False show ?thesis
    unfolding digit_total_def by (subst digits.simps) (simp del: of_nat_add)
qed

lemma digit_total_0 [simp]: "digit_total 0 = 0"
  by (subst digit_total_rec) simp

lemma digit_total_step: "digit_total n = digit_total (n div 10) + int (n mod 10)"
  by (subst digit_total_rec [of n]) simp

lemma digit_total_nonneg: "0 \<le> digit_total n"
  by (induction n rule: digits.induct) (subst digit_total_rec, simp)

lemma digit_total_bound: "n < 10 ^ k \<Longrightarrow> digit_total n \<le> 9 * int k"
proof (induction k arbitrary: n)
  case (Suc k)
  then have "n div 10 < 10 ^ k" by (simp add: div_less_iff_less_mult mult.commute)
  from Suc.IH [OF this] show ?case using digit_total_step [of n]
    by (simp add: algebra_simps)
qed simp

lemma digit_total_mod9: "int n mod 9 = digit_total n mod 9"
proof (induction n rule: digits.induct)
  case (1 n)
  show ?case
  proof (cases "n < 10")
    case True
    then show ?thesis by (simp add: digit_total_rec [of n])
  next
    case False
    have "int n = 10 * int (n div 10) + int (n mod 10)"
      by (simp only: zdiv_int zmod_int of_nat_numeral mult_div_mod_eq)
    also have "\<dots> = (int (n div 10) + int (n mod 10)) + 9 * int (n div 10)" by simp
    also have "\<dots> mod 9 = (int (n div 10) + int (n mod 10)) mod 9" by (rule mod_mult_self2)
    also have "\<dots> = (digit_total (n div 10) + int (n mod 10)) mod 9"
      by (rule mod_add_cong [OF "1.IH" [OF False] refl])
    finally show ?thesis by (simp only: digit_total_step [of n])
  qed
qed

lemma to_int16_id: "- 32768 \<le> x \<Longrightarrow> x < 32768 \<Longrightarrow> to_int16 x = x"
  by (simp add: to_int16_def signed_take_bit_int_eq_self)

text \<open>The signed division and remainder by ten work on the magnitude.\<close>

lemma sdiv10: "pid sdiv 10 = sgn pid * int (nat \<bar>pid\<bar> div 10)" "pid smod 10 = sgn pid * int (nat \<bar>pid\<bar> mod 10)"
  by (simp_all add: signed_divide_int_def signed_modulo_int_def zdiv_int zmod_int)

lemma digit_sum_loop_eq:
  assumes "nat \<bar>pid\<bar> < 10 ^ k" "\<bar>acc\<bar> + 9 * int k \<le> 32767" "0 \<le> sgn pid * acc"
  shows "digit_sum_loop acc pid = acc + sgn pid * digit_total (nat \<bar>pid\<bar>)"
  using assms
proof (induction k arbitrary: acc pid)
  case 0
  then have "pid = 0" by simp
  then show ?case by (simp add: digit_sum_loop.simps)
next
  case (Suc k)
  show ?case
  proof (cases "pid = 0")
    case True
    then show ?thesis by (simp add: digit_sum_loop.simps)
  next
    case False
    let ?m = "nat \<bar>pid\<bar>"
    have m: "?m mod 10 < 10" "nat \<bar>pid sdiv 10\<bar> = ?m div 10" "pid sdiv 10 = 0 \<or> sgn (pid sdiv 10) = sgn pid"
      using False by (auto simp: sdiv10 abs_mult sgn_mult abs_sgn_eq)
    have r: "to_int16 (acc + pid smod 10) = acc + sgn pid * int (?m mod 10)"
      using Suc.prems(2) m(1) False by (intro to_int16_id [THEN trans]) (auto simp: sdiv10 sgn_if)
    have "?m div 10 < 10 ^ k" using Suc.prems(1) by (simp add: div_less_iff_less_mult mult.commute)
    then have "digit_sum_loop (acc + sgn pid * int (?m mod 10)) (pid sdiv 10) =
        (acc + sgn pid * int (?m mod 10)) + sgn (pid sdiv 10) * digit_total (?m div 10)"
      using Suc.prems m False by (subst Suc.IH) (auto simp: sgn_if split: if_splits)
    moreover have "sgn (pid sdiv 10) * digit_total (?m div 10) = sgn pid * digit_total (?m div 10)"
      using m by (metis digit_total_0 mult_zero_right nat_0_iff abs_zero order_refl)
    ultimately show ?thesis using False r digit_total_step [of ?m]
      by (simp add: digit_sum_loop.simps [of acc] algebra_simps)
  qed
qed

lemma digit_sum_range:
  assumes "in_int pid"
  shows "digit_sum_loop 0 pid = sgn pid * digit_total (nat \<bar>pid\<bar>)" "\<bar>digit_sum_loop 0 pid\<bar> \<le> 90"
proof -
  have b: "nat \<bar>pid\<bar> < 10 ^ 10" using assms by (auto simp: in_int_iff)
  show s: "digit_sum_loop 0 pid = sgn pid * digit_total (nat \<bar>pid\<bar>)"
    using digit_sum_loop_eq [OF b, of 0] by simp
  show "\<bar>digit_sum_loop 0 pid\<bar> \<le> 90"
    using digit_total_bound [OF b] digit_total_nonneg [of "nat \<bar>pid\<bar>"] by (auto simp: s sgn_if)
qed

text \<open>
  For every process number the server's loop computes the sum of the decimal
  digits the number is printed with, with the sign of the number: the 16-bit accumulator never
  wraps. The sum is at most 90, and leaves the same remainder as the number when divided by nine.
\<close>

theorem digit_sum_correct:
  assumes "in_int pid"
  shows "digit_sum_loop 0 pid = sgn pid * sum_list (map (\<lambda>d. uint d - 48) (digits (nat \<bar>pid\<bar>))) \<and>
    \<bar>digit_sum_loop 0 pid\<bar> \<le> 90 \<and> (digit_sum_loop 0 pid - pid) mod 9 = 0"
proof -
  note s = digit_sum_range [OF assms]
  have "(digit_total (nat \<bar>pid\<bar>) - \<bar>pid\<bar>) mod 9 = 0"
    using digit_total_mod9 [of "nat \<bar>pid\<bar>"] by (metis abs_ge_zero int_nat_eq mod_eq_dvd_iff mod_0_imp_dvd dvd_imp_mod_0)
  then have "(digit_sum_loop 0 pid - pid) mod 9 = 0"
    by (auto simp: s(1) sgn_if) presburger
  then show ?thesis using s by (simp add: digit_total_def)
qed

section \<open>A client served\<close>

lemma digit_request_eq: "in_int pid \<Longrightarrow> \<exists>rest. digit_request pid = fmt_d pid @ 0 # rest \<and> length (digit_request pid) = DATA_LEN"
proof -
  assume "in_int pid"
  then have l: "length (fmt_d pid) \<le> 11" by (rule fmt_d_length)
  moreover from this have "15 - length (fmt_d pid) = Suc (14 - length (fmt_d pid))" by simp
  ultimately have "digit_request pid = fmt_d pid @ replicate (Suc (14 - length (fmt_d pid))) 0"
    by (simp only: digit_request_def put_at_def DATA_LEN_def add_0 take_0 append_Nil drop_replicate)
  then show ?thesis using l by (simp add: DATA_LEN_def)
qed

lemma digit_calculate_request:
  assumes "in_int pid" "pid \<noteq> 0"
  shows "digit_calculate (put_at 0 (digit_request pid) junk) w = (Ret (digit_sum_loop 0 pid), w)"
proof -
  obtain rest where r: "digit_request pid = fmt_d pid @ 0 # rest"
    using digit_request_eq [OF assms(1)] by auto
  have "atoi (put_at 0 (digit_request pid) junk) = pid"
    using atoi_fmt_d(1) [OF assms(1), of "rest @ drop (length (digit_request pid)) junk"] r
    by (simp add: put_at_def)
  then show ?thesis using r assms(2)
    by (simp add: digit_calculate_def Let_def ret_def put_at_def)
qed

lemma length_bytes16_htons: "length (bytes16 (htons x)) = 2"
  by simp

lemma digit_communicate_answers:
  assumes "feeds 15 sr (digit_request pid)" "in_int pid" "pid \<noteq> 0" "drains 2 sw" "r_sigs c = []" "r_val c = 0"
    and "script w = sr @ sw @ c # rest"
  shows "\<exists>w1. digit_communicate junk cfd mx w = (Ret (max mx (digit_sum_loop 0 pid)), w1) \<and>
    sent cfd (trace w1) = sent cfd (trace w) @ bytes16 (htons (word_of_int (digit_sum_loop 0 pid)))"
proof -
  let ?a = "bytes16 (htons (word_of_int (digit_sum_loop 0 pid)))"
  obtain w1 where w1: "bulk_read cfd 15 w = (Ret (15, digit_request pid), w1)" "script w1 = sw @ c # rest"
    "trace w1 = trace w @ io_events SYS_read cfd sr"
    using bulk_read_returns [OF assms(1), of w "sw @ c # rest" cfd] assms(7) by auto
  have "?a \<noteq> []" by (metis length_bytes16_htons list.size(3) zero_neq_numeral)
  then obtain w2 where w2: "bulk_write cfd ?a w1 = (Ret 2, w2)" "script w2 = c # rest"
    "sent cfd (trace w2) = sent cfd (trace w1) @ ?a"
    using bulk_write_returns [of ?a sw w1 "c # rest" cfd] assms(4) w1(2) by force
  have close: "retry (sys_close cfd) w2 = (Ret c, adv SYS_close [cfd] [] c w2)"
    unfolding sys_close_def by (rule retry_returns [OF w2(2)]) (simp_all add: status_ok_def assms)
  have "sent cfd (io_events SYS_read cfd sr) = []"
    by (induction sr) (simp_all add: io_events_def)
  then show ?thesis
    using w1 w2 close assms(6)
    by (simp add: digit_communicate_def DATA_LEN_def bind_m_def get_errno_def ret_def Let_def max_def
        digit_calculate_request [OF assms(2,3)])
qed

lemma digit_exchange_prints:
  assumes "script w = gp # cw @ cr @ c # rest" "gp = Reply [] pid ENONE [] []" "in_int pid"
    and "drains 15 cw" "feeds 2 cr ans" "r_sigs c = []" "r_val c = 0"
  shows "\<exists>w1. digit_exchange fd w = (Ret 0, w1) \<and>
    sent fd (trace w1) = sent fd (trace w) @ digit_request pid \<and>
    printed (trace w1) = printed (trace w) @ str ''PID='' @ fmt_d pid @ [10] @ sum_line ans"
proof -
  let ?w0 = "adv SYS_getpid [] [] gp w\<lparr>trace := trace w @ [Sys SYS_getpid [] [] gp, Out (str ''PID='' @ fmt_d pid @ [10])]\<rparr>"
  obtain rs where rs: "digit_request pid = fmt_d pid @ 0 # rs" "length (digit_request pid) = 15"
    using digit_request_eq [OF assms(3)] by (auto simp: DATA_LEN_def)
  then have "cstr (digit_request pid) = fmt_d pid" by simp
  then have prep: "prepare_digits w = (Ret (digit_request pid), ?w0)"
    using assms(1-3) by (simp add: prepare_digits_def bind_m_def sys_quiet any_ok_def printf_def ret_def)
  obtain w1 where w1: "bulk_write fd (digit_request pid) ?w0 = (Ret 15, w1)" "script w1 = cr @ c # rest"
    "sent fd (trace w1) = sent fd (trace w) @ digit_request pid"
    "printed (trace w1) = printed (trace w) @ str ''PID='' @ fmt_d pid @ [10]"
    using bulk_write_returns [of "digit_request pid" cw ?w0 "cr @ c # rest" fd] assms(1,4) rs by force
  obtain w2 where w2: "bulk_read fd 2 w1 = (Ret (2, ans), w2)" "script w2 = c # rest"
    "trace w2 = trace w1 @ io_events SYS_read fd cr"
    using bulk_read_returns [OF assms(5), of w1 "c # rest" fd] w1(2) by auto
  let ?w3 = "w2\<lparr>trace := trace w2 @ [Out (sum_line ans)]\<rparr>"
  have close: "retry (sys_close fd) ?w3 = (Ret c, adv SYS_close [fd] [] c ?w3)"
    unfolding sys_close_def by (rule retry_returns) (simp_all add: w2 status_ok_def assms)
  have "sent fd (io_events SYS_read fd cr) = []" "printed (io_events SYS_read fd cr) = []"
    by (induction cr) (simp_all add: io_events_def)
  then show ?thesis
    using prep w1 w2 close assms(7)
    by (simp add: digit_exchange_def bind_m_def ret_def printf_def)
qed

text \<open>
  Property C23. A client with process number \<open>pid\<close> and the server, with every transfer cut
  into pieces in any way and interrupted anywhere: the server receives the request the client
  sent, the client prints its number and then the sum of that number's digits, and the server
  keeps the larger of its maximum and that sum.
\<close>

theorem digit_service:
  assumes "0 < pid" "in_int pid"
    and "script s = sr @ sw @ sc # srest" "feeds 15 sr (digit_request pid)" "drains 2 sw"
      "r_sigs sc = []" "r_val sc = 0" "sent cfd (trace s) = []"
    and "script c = Reply [] pid ENONE [] [] # cw @ cr @ cc # crest" "drains 15 cw"
      "feeds 2 cr (sent cfd (trace (snd (digit_communicate junk cfd mx s))))"
      "r_sigs cc = []" "r_val cc = 0" "sent fd (trace c) = []"
  shows "fst (digit_communicate junk cfd mx s) =
      Ret (max mx (sum_list (map (\<lambda>d. uint d - 48) (digits (nat pid))))) \<and>
    fst (digit_exchange fd c) = Ret 0 \<and>
    sent fd (trace (snd (digit_exchange fd c))) = digit_request pid \<and>
    printed (trace (snd (digit_exchange fd c))) = printed (trace c) @ str ''PID='' @ fmt_d pid @ [10] @
      str ''SUM='' @ fmt_d (sum_list (map (\<lambda>d. uint d - 48) (digits (nat pid)))) @ [10]"
proof -
  let ?d = "digit_sum_loop 0 pid"
  note r = digit_sum_range [OF assms(2)]
  have d: "?d = sum_list (map (\<lambda>d. uint d - 48) (digits (nat pid)))" "0 \<le> ?d" "?d \<le> 90"
    using r assms(1) digit_total_nonneg [of "nat pid"] by (simp_all add: digit_total_def)
  have u: "uint (word_of_int ?d :: 16 word) = ?d"
    using d(2,3) by (simp add: unsigned_of_int take_bit_int_eq_self)
  obtain w1 where server: "digit_communicate junk cfd mx s = (Ret (max mx ?d), w1)"
    "sent cfd (trace w1) = bytes16 (htons (word_of_int ?d))"
    using digit_communicate_answers [OF assms(4,2) _ assms(5,6,7,3), of junk cfd mx] assms(1,8) by auto
  then have line: "sum_line (sent cfd (trace w1)) = str ''SUM='' @ fmt_d ?d @ [10]"
    by (simp add: sum_line_def u)
  have feed: "feeds 2 cr (sent cfd (trace w1))" using assms(11) server(1) by simp
  obtain w2 where client: "digit_exchange fd c = (Ret 0, w2)" "sent fd (trace w2) = digit_request pid"
    "printed (trace w2) = printed (trace c) @ str ''PID='' @ fmt_d pid @ [10] @ sum_line (sent cfd (trace w1))"
    using digit_exchange_prints [OF assms(9) refl assms(2,10) feed assms(12,13), of fd] assms(14) by auto
  show ?thesis using server(1) client line d(1) by simp
qed

definition digit_client_run :: "unit world" where
  "digit_client_run = idle (Reply [] 1987 ENONE [] [] # [failed_reply EINTR, ok_reply 4, ok_reply 11] @
     [data_reply [0], failed_reply EINTR, data_reply [25]] @ [ok_reply 0]) ()"

definition digit_server_run :: "int world" where
  "digit_server_run = idle ([data_reply (take 3 (digit_request 1987)), data_reply (drop 3 (digit_request 1987))] @
     [ok_reply 1, failed_reply EINTR, ok_reply 1] @ [ok_reply 0]) 1"

lemma digit_run_facts:
  "feeds 15 [data_reply (take 3 (digit_request 1987)), data_reply (drop 3 (digit_request 1987))] (digit_request 1987)"
  "drains 2 [ok_reply 1, failed_reply EINTR, ok_reply 1]"
  "drains 15 [failed_reply EINTR, ok_reply 4, ok_reply 11]"
  "feeds 2 [data_reply [0], failed_reply EINTR, data_reply [25]]
     (sent 4 (trace (snd (digit_communicate [] 4 7 digit_server_run))))"
  "sum_list (map (\<lambda>d. uint d - 48) (digits 1987)) = 25"
  "fmt_d 1987 = str ''1987''" "fmt_d 25 = str ''25''"
  by code_simp+

theorem digit_service_witness:
  "fst (digit_communicate [] 4 7 digit_server_run) = Ret 25 \<and>
   printed (trace (snd (digit_exchange 3 digit_client_run))) =
     str ''PID='' @ str ''1987'' @ [10] @ str ''SUM='' @ str ''25'' @ [10]"
proof -
  have p: "0 < (1987::int)" "in_int 1987" by (simp_all add: in_int_iff)
  have s: "script digit_server_run = [data_reply (take 3 (digit_request 1987)), data_reply (drop 3 (digit_request 1987))] @
     [ok_reply 1, failed_reply EINTR, ok_reply 1] @ ok_reply 0 # []" "sent 4 (trace digit_server_run) = []"
    by (simp_all add: digit_server_run_def idle_def)
  have c: "script digit_client_run = Reply [] 1987 ENONE [] [] # [failed_reply EINTR, ok_reply 4, ok_reply 11] @
     [data_reply [0], failed_reply EINTR, data_reply [25]] @ ok_reply 0 # []" "sent 3 (trace digit_client_run) = []"
    "printed (trace digit_client_run) = []"
    by (simp_all add: digit_client_run_def idle_def)
  have o: "r_sigs (ok_reply 0) = []" "r_val (ok_reply 0) = 0" by (simp_all add: ok_reply_def)
  show ?thesis
    using digit_service [OF p s(1) digit_run_facts(1,2) o s(2) c(1) digit_run_facts(3,4) o c(2)]
    by (simp add: digit_run_facts(5-7) c(3))
qed

theorem digit_sum_correct_witness: "digit_sum_loop 0 (-1987) = -25"
proof -
  have "in_int (-1987)" by (simp add: in_int_iff)
  then show ?thesis using digit_sum_correct [of "-1987"] digit_run_facts(5) by simp
qed

section \<open>The maximum\<close>

text \<open>The answers given: the two-byte messages passed to \<open>write\<close>, read as signed numbers.\<close>

fun answer1 :: "event \<Rightarrow> int set" where
  "answer1 (Sys n a p r) = (if n = SYS_write \<and> length p = 2 then {sint (ntohs (word16 p))} else {})"
| "answer1 _ = {}"

definition answers :: "event list \<Rightarrow> int set" where
  "answers tr = \<Union> (answer1 ` set tr)"

lemma answers_simps [simp]: "answers [] = {}" "answers (tr @ tr1) = answers tr \<union> answers tr1"
  "answers (e # tr) = answer1 e \<union> answers tr" "answers (map Out outs) = {}"
  by (auto simp: answers_def)

lemma finite_answers [simp]: "finite (answers tr)"
proof -
  have "finite (answer1 e)" for e by (cases e) simp_all
  then show ?thesis by (simp add: answers_def)
qed

abbreviation (input) no_spin :: "halt \<Rightarrow> 'g world \<Rightarrow> bool" where
  "no_spin h w \<equiv> h \<noteq> Spin"

lemma outs_after_answers: "outs_after tr tr1 \<Longrightarrow> answers tr1 = answers tr"
  by (auto simp: outs_after_def)

lemma wp_sys_answers:
  assumes "\<And>r w1. answers (trace w1) = answers (trace w) \<union> answer1 (Sys n a p r) \<Longrightarrow>
      length (script w1) < length (script w) \<Longrightarrow> Q r w1"
  shows "wp (sys n a p good) Q no_spin w"
proof (rule wp_sys)
  fix r w1 assume "sys_post n a p r w w1"
  then show "Q r w1" using assms by (auto simp: sys_post_def outs_after_answers)
qed (auto simp: sys_halt_def)

text \<open>What a call passes does not depend on its reply, so repeating it adds no other answer.\<close>

definition passed :: "sysno \<Rightarrow> byte list \<Rightarrow> int set" where
  "passed n p = (if n = SYS_write \<and> length p = 2 then {sint (ntohs (word16 p))} else {})"

lemma wp_retry_answers:
  assumes "\<And>r w1. answers (trace w1) = answers (trace w) \<union> passed n p \<Longrightarrow>
      length (script w1) < length (script w) \<Longrightarrow> Q r w1"
  shows "wp (retry (sys n a p good)) Q no_spin w"
proof (rule wp_retry [where I = "\<lambda>v. answers (trace v) \<union> passed n p = answers (trace w) \<union> passed n p \<and>
      length (script v) \<le> length (script w)"])
  fix v :: "'a world" assume v: "answers (trace v) \<union> passed n p = answers (trace w) \<union> passed n p \<and>
      length (script v) \<le> length (script w)"
  show "wp (sys n a p good) (\<lambda>r w1. if r_val r = - 1 \<and> werrno w1 = EINTR
      then (answers (trace w1) \<union> passed n p = answers (trace w) \<union> passed n p \<and>
        length (script w1) \<le> length (script w)) \<and> length (script w1) < length (script v)
      else Q r w1) no_spin v"
  proof (rule wp_sys_answers)
    fix r and w1 :: "'a world" assume w1: "answers (trace w1) = answers (trace v) \<union> answer1 (Sys n a p r)"
      "length (script w1) < length (script v)"
    have "answer1 (Sys n a p r) = passed n p" by (simp add: passed_def)
    then have "answers (trace w1) = answers (trace w) \<union> passed n p" using v w1(1) by simp
    then show "if r_val r = - 1 \<and> werrno w1 = EINTR
      then (answers (trace w1) \<union> passed n p = answers (trace w) \<union> passed n p \<and>
        length (script w1) \<le> length (script w)) \<and> length (script w1) < length (script v)
      else Q r w1" using w1(2) v assms by (simp add: Un_assoc)
  qed
qed simp

lemma wp_bulk_read_answers:
  assumes "\<And>res w1. answers (trace w1) = answers (trace w) \<Longrightarrow> length (script w1) \<le> length (script w) \<Longrightarrow> Q res w1"
  shows "wp (bulk_read fd count) Q no_spin w"
  unfolding bulk_read_def
proof (rule wp_loop [where I = "\<lambda>_ v. answers (trace v) = answers (trace w) \<and> length (script v) \<le> length (script w)"])
  fix st :: "nat \<times> byte list \<times> nat" and v :: "'a world"
  assume v: "answers (trace v) = answers (trace w) \<and> length (script v) \<le> length (script w)"
  obtain len mem left where [simp]: "st = (len, mem, left)" by (cases st) auto
  show "wp (bulk_read_body to_int32 fd st) (\<lambda>x w1. case x of
        Inl s1 \<Rightarrow> (answers (trace w1) = answers (trace w) \<and> length (script w1) \<le> length (script w)) \<and>
          length (script w1) < length (script v)
      | Inr r \<Rightarrow> Q r w1) no_spin v"
    unfolding bulk_read_body_def sys_read_def \<open>st = (len, mem, left)\<close> split wp_bind
    by (rule wp_retry_answers) (use v in \<open>auto simp: Let_def wp_rules passed_def intro!: assms\<close>)
qed simp

lemma wp_bulk_write_answers:
  assumes len: "length buf = 2"
    and "\<And>n w1. answers (trace w1) = insert (sint (ntohs (word16 buf))) (answers (trace w)) \<Longrightarrow>
      length (script w1) \<le> length (script w) \<Longrightarrow> Q n w1"
  shows "wp (bulk_write fd buf) Q no_spin w"
  unfolding bulk_write_def
proof -
  let ?x = "sint (ntohs (word16 buf))"
  let ?I = "\<lambda>(l :: nat, left) v. length (script v) \<le> length (script w) \<and>
     (left = buf \<and> answers (trace v) \<in> {answers (trace w), insert ?x (answers (trace w))} \<or>
      length left = 1 \<and> answers (trace v) = insert ?x (answers (trace w)))"
  show "wp (loop_m (bulk_write_body to_int32 fd) (0, buf)) Q no_spin w"
  proof (rule wp_loop [where I = ?I])
    fix st :: "nat \<times> byte list" and v :: "'a world" assume I: "?I st v"
    obtain l left where st: "st = (l, left)" by (cases st) auto
    define A where "A = answers (trace w)"
    have I: "length (script v) \<le> length (script w)"
      "left = buf \<and> (answers (trace v) = A \<or> answers (trace v) = insert ?x A) \<or> length left = 1 \<and> answers (trace v) = insert ?x A"
      using I by (simp_all add: st A_def)
    then have l: "left = buf \<or> length left = 1" by blast
    have "left = buf \<Longrightarrow> passed SYS_write left = {?x}" "length left = 1 \<Longrightarrow> passed SYS_write left = {}"
      using len by (simp_all add: passed_def)
    then have p: "insert ?x A = answers (trace v) \<union> passed SYS_write left"
      using I(2) len by (elim disjE) auto
    show "wp (bulk_write_body to_int32 fd st) (\<lambda>x w1. case x of
        Inl s1 \<Rightarrow> ?I s1 w1 \<and> length (script w1) < length (script v)
      | Inr r \<Rightarrow> Q r w1) no_spin v"
      unfolding bulk_write_body_def sys_write_def st split wp_bind
    proof (rule wp_retry_answers)
      fix r and w1 :: "'a world" assume w1: "answers (trace w1) = answers (trace v) \<union> passed SYS_write left"
        "length (script w1) < length (script v)"
      let ?k = "nat (to_int32 (r_val r))"
      have drop: "drop ?k left = [] \<or> drop ?k left = buf \<or> length (drop ?k left) = 1"
        using l len by (cases "?k") (auto simp: length_drop)
      show "wp (let c = to_int32 (r_val r) in if c < 0 then ret (Inr c)
           else let len1 = l + nat c; buf1 = drop (nat c) left in
             if buf1 \<noteq> [] then ret (Inl (len1, buf1)) else ret (Inr (int len1)))
        (\<lambda>x w1. case x of
          Inl s1 \<Rightarrow> ?I s1 w1 \<and> length (script w1) < length (script v)
        | Inr r \<Rightarrow> Q r w1) no_spin w1"
      proof -
        have a: "answers (trace w1) = insert ?x (answers (trace w))" using w1(1) p by (simp add: A_def)
        moreover have le: "length (script w1) \<le> length (script w)" using w1(2) I(1) by simp
        ultimately have ok: "Q m w1" for m by (rule assms(2))
        show ?thesis
        proof (cases "to_int32 (r_val r) < 0 \<or> drop ?k left = []")
          case True
          then show ?thesis using ok by (auto simp: Let_def wp_ret simp del: drop_eq_Nil)
        next
          case False
          then have "drop ?k left = buf \<or> length (drop ?k left) = 1" using drop by blast
          then show ?thesis using False w1(2) le a by (simp add: Let_def wp_ret del: drop_eq_Nil)
        qed
      qed
    qed
  qed simp
qed

lemma wp_digit_calculate:
  assumes "\<And>x w1. \<bar>x\<bar> \<le> 90 \<Longrightarrow> answers (trace w1) = answers (trace w) \<Longrightarrow> script w1 = script w \<Longrightarrow> Q x w1"
  shows "wp (digit_calculate data) Q no_spin w"
  using digit_sum_range(2) [OF atoi_in_int, of data]
  by (simp add: digit_calculate_def wp_rules Let_def assms to_int16_id)

lemma answer_read: "\<bar>x\<bar> \<le> 90 \<Longrightarrow> sint (word_of_int x :: 16 word) = x"
  by (simp add: sint_sbintrunc' signed_take_bit_int_eq_self)

text \<open>The relation between the variable \<open>max\<close> and the trace.\<close>

definition max_kept :: "int \<Rightarrow> int world \<Rightarrow> bool" where
  "max_kept mx w \<longleftrightarrow> mx = Max (insert 0 (answers (trace w))) \<and> mx \<le> 90"

lemma max_kept_cong: "answers (trace w1) = answers (trace w) \<Longrightarrow> max_kept mx w1 = max_kept mx w"
  by (simp add: max_kept_def)

lemma max_kept_insert:
  assumes "max_kept mx w" "\<bar>x\<bar> \<le> 90" "answers (trace w1) = insert x (answers (trace w))"
  shows "max_kept (if mx \<ge> x then mx else x) w1"
proof -
  have "Max (insert 0 (insert x (answers (trace w)))) = max x (Max (insert 0 (answers (trace w))))"
    by (subst insert_commute) (rule Max_insert, simp_all)
  then show ?thesis using assms by (auto simp: max_kept_def max_def)
qed

lemma wp_digit_communicate:
  assumes "max_kept mx w"
    and "\<And>mx1 w1. max_kept mx1 w1 \<Longrightarrow> length (script w1) \<le> length (script w) \<Longrightarrow> Q mx1 w1"
  shows "wp (digit_communicate junk cfd mx) Q no_spin w"
  unfolding digit_communicate_def wp_bind split_beta
proof (rule wp_bulk_read_answers)
  fix res :: "int \<times> byte list" and w1 :: "int world" assume w1: "answers (trace w1) = answers (trace w)" "length (script w1) \<le> length (script w)"
  have "wp (digit_calculate data) (\<lambda>x. wp (let mx = (if mx \<ge> x then mx else x) in
       bind_m (bulk_write cfd (bytes16 (htons (word_of_int x)))) (\<lambda>n.
       bind_m get_errno (\<lambda>e.
       if n < 0 \<and> e \<noteq> EPIPE then err_exit ''write:''
       else bind_m (retry (sys_close cfd)) (\<lambda>r.
         if r_val r < 0 then err_exit ''close'' else ret mx)))) Q no_spin) no_spin w1" for data
  proof (rule wp_digit_calculate)
    fix x :: int and w2 :: "int world" assume x: "\<bar>x\<bar> \<le> 90" "answers (trace w2) = answers (trace w1)" "script w2 = script w1"
    show "wp (let mx = (if mx \<ge> x then mx else x) in
       bind_m (bulk_write cfd (bytes16 (htons (word_of_int x)))) (\<lambda>n.
       bind_m get_errno (\<lambda>e.
       if n < 0 \<and> e \<noteq> EPIPE then err_exit ''write:''
       else bind_m (retry (sys_close cfd)) (\<lambda>r.
         if r_val r < 0 then err_exit ''close'' else ret mx)))) Q no_spin w2"
      unfolding Let_def wp_bind
    proof (rule wp_bulk_write_answers)
      fix n and w3 :: "int world" assume "answers (trace w3) =
          insert (sint (ntohs (word16 (bytes16 (htons (word_of_int x)))))) (answers (trace w2))"
        "length (script w3) \<le> length (script w2)"
      then have w3: "answers (trace w3) = insert x (answers (trace w))" "length (script w3) \<le> length (script w)"
        using x w1 by (simp_all add: answer_read)
      have keep: "max_kept (if mx \<ge> x then mx else x) w4" if "answers (trace w4) = insert x (answers (trace w))" for w4
        using assms(1) x(1) that by (rule max_kept_insert)
      have "wp (retry (sys_close cfd)) (\<lambda>r. wp (if r_val r < 0 then err_exit ''close'' else ret (if mx \<ge> x then mx else x)) Q no_spin) no_spin w3"
        unfolding sys_close_def
        by (rule wp_retry_answers)
          (use w3(2) keep in \<open>auto simp: wp_ret wp_err_exit passed_def w3(1) simp del: if_split intro!: assms(2)\<close>)
      then show "wp get_errno (\<lambda>e. wp (if n < 0 \<and> e \<noteq> EPIPE then err_exit ''write:''
         else bind_m (retry (sys_close cfd)) (\<lambda>r.
           if r_val r < 0 then err_exit ''close'' else ret (if mx \<ge> x then mx else x))) Q no_spin) no_spin w3"
        by (simp add: wp_get_errno wp_err_exit wp_bind [of "retry _"])
    qed simp
  qed
  then show "wp (if fst res < 0 then err_exit ''read:''
     else bind_m (digit_calculate (put_at 0 (snd res) junk)) (\<lambda>x.
       let mx = (if mx \<ge> x then mx else x) in
       bind_m (bulk_write cfd (bytes16 (htons (word_of_int x)))) (\<lambda>n.
       bind_m get_errno (\<lambda>e.
       if n < 0 \<and> e \<noteq> EPIPE then err_exit ''write:''
       else bind_m (retry (sys_close cfd)) (\<lambda>r.
         if r_val r < 0 then err_exit ''close'' else ret mx))))) Q no_spin w1"
    by (simp add: wp_err_exit wp_bind [of "digit_calculate _"])
qed

lemma wp_digit_accept:
  assumes "\<And>v w1. answers (trace w1) = answers (trace w) \<Longrightarrow> length (script w1) < length (script w) \<Longrightarrow> Q v w1"
  shows "wp (add_new_client sfd) Q no_spin w"
  unfolding add_new_client_def wp_bind
  by (rule wp_retry_answers) (auto simp: wp_rules passed_def intro!: assms)

lemma wp_digit_pselect:
  assumes "\<And>r w1. answers (trace w1) = answers (trace w) \<Longrightarrow> length (script w1) < length (script w) \<Longrightarrow> Q r w1"
  shows "wp (with_mask m (sys SYS_pselect a [] fd_ok)) Q no_spin w"
  unfolding wp_with_mask
proof (rule wp_flush_pending)
  fix w1 :: "'a world" assume "script w1 = script (w\<lparr>sigmask := m\<rparr>)" "outs_after (trace (w\<lparr>sigmask := m\<rparr>)) (trace w1)"
  then have "length (script w1) = length (script w)" "answers (trace w1) = answers (trace w)"
    by (simp_all add: outs_after_answers)
  then show "wp (sys SYS_pselect a [] fd_ok) (\<lambda>a w1. Q a (w1\<lparr>sigmask := sigmask w\<rparr>))
      (\<lambda>h w1. no_spin h (w1\<lparr>sigmask := sigmask w\<rparr>)) w1"
    by (intro wp_sys_answers) (auto intro!: assms)
qed simp

lemma wp_digit_doServer_body:
  assumes I: "max_kept mx w"
  shows "wp (digit_doServer_body junk fdT m (k, mx)) (\<lambda>x w1. case x of
        Inl (k1, mx1) \<Rightarrow> max_kept mx1 w1 \<and> length (script w1) < length (script w)
      | Inr mx1 \<Rightarrow> max_kept mx1 w1) no_spin w"
proof -
  let ?Q = "\<lambda>x w1. case x of Inl (k1 :: nat, mx1) \<Rightarrow> max_kept mx1 w1 \<and> length (script w1) < length (script w)
      | Inr mx1 \<Rightarrow> max_kept mx1 w1"
  have serve: "wp (bind_m (add_new_client fdT) (\<lambda>cfd.
         if cfd \<ge> 0 then bind_m (digit_communicate (junk k) cfd mx) (\<lambda>mx. ret (Inl (k + 1, mx)))
         else ret (Inl (k, mx)))) ?Q no_spin w1"
    if w1: "max_kept mx w1" "length (script w1) < length (script w)" for w1
    unfolding wp_bind
  proof (rule wp_digit_accept)
    fix v and w2 :: "int world" assume w2: "answers (trace w2) = answers (trace w1)" "length (script w2) < length (script w1)"
    then have I2: "max_kept mx w2" using w1(1) max_kept_cong by blast
    have "wp (digit_communicate (junk k) v mx) (\<lambda>mx. ?Q (Inl (k + 1, mx))) no_spin w2"
      by (rule wp_digit_communicate [OF I2]) (use w1 w2 in simp)
    then show "wp (if v \<ge> 0 then bind_m (digit_communicate (junk k) v mx) (\<lambda>mx. ret (Inl (k + 1, mx)))
         else ret (Inl (k, mx))) ?Q no_spin w2"
      using I2 w1 w2 by (simp add: wp_bind wp_ret_fun)
  qed
  have "wp (with_mask m (sys SYS_pselect [fdT + 1] [] fd_ok)) (\<lambda>r.
       wp (if r_val r > 0 then bind_m (add_new_client fdT) (\<lambda>cfd.
         if cfd \<ge> 0 then bind_m (digit_communicate (junk k) cfd mx) (\<lambda>mx. ret (Inl (k + 1, mx)))
         else ret (Inl (k, mx)))
       else bind_m get_errno (\<lambda>e. if e = EINTR then ret (Inl (k, mx)) else err_exit ''pselect'')) ?Q no_spin) no_spin w"
  proof (rule wp_digit_pselect)
    fix r and w1 :: "int world" assume w1: "answers (trace w1) = answers (trace w)" "length (script w1) < length (script w)"
    then have I1: "max_kept mx w1" using I max_kept_cong by blast
    show "wp (if r_val r > 0 then bind_m (add_new_client fdT) (\<lambda>cfd.
         if cfd \<ge> 0 then bind_m (digit_communicate (junk k) cfd mx) (\<lambda>mx. ret (Inl (k + 1, mx)))
         else ret (Inl (k, mx)))
       else bind_m get_errno (\<lambda>e. if e = EINTR then ret (Inl (k, mx)) else err_exit ''pselect'')) ?Q no_spin w1"
      using serve [OF I1 w1(2)] I1 w1(2) by (simp add: wp_bind [of get_errno] wp_get_errno wp_ret wp_err_exit)
  qed
  then show ?thesis
    using I by (simp add: digit_doServer_body_def wp_bind [of get_glob] wp_get_glob wp_ret wp_bind [of "with_mask _ _"])
qed

lemma wp_digit_unblock:
  assumes "\<And>tr w1. trace w1 = trace w @ tr \<Longrightarrow> length (syscalls tr) = 1 \<Longrightarrow> Q () w1"
  shows "wp (sigprocmask_unblock sigs) Q no_spin w"
  unfolding sigprocmask_unblock_def wp_bind
proof (rule wp_sys)
  fix r and w1 :: "'a world" assume "sys_post SYS_sigprocmask (1 # map int sigs) [] r w w1"
  then obtain outs where w1: "trace w1 = trace w @ map Out outs @ [Sys SYS_sigprocmask (1 # map int sigs) [] r]"
    by (auto simp: sys_post_def outs_after_def)
  show "wp (\<lambda>w. (Ret (), w\<lparr>sigmask := filter (\<lambda>s. s \<notin> set sigs) (sigmask w)\<rparr>))
      (\<lambda>a. wp flush_pending Q no_spin) no_spin w1"
    unfolding wp_def [of "\<lambda>w. (Ret (), w\<lparr>sigmask := filter (\<lambda>s. s \<notin> set sigs) (sigmask w)\<rparr>)"]
    by (simp, rule wp_flush_pending) (auto simp: w1 outs_after_def intro!: assms)
qed (auto simp: sys_halt_def)

text \<open>
  Property C22. Whatever clients send and whatever fails or is interrupted, the number the
  server prints at its end is the largest of the answers it has given (0 if none is positive),
  and at most 90; after it only the signal mask is restored; and the loop never spins.
\<close>

theorem digit_maximum_exact:
  assumes "answers (trace w) = {}"
  shows "case digit_doServer junk fdT w of
      (Ret u, w1) \<Rightarrow> \<exists>mx tr1 tr2. trace w1 = tr1 @ Out (max_line mx) # tr2 \<and> length (syscalls tr2) = 1 \<and>
        mx = Max (insert 0 (answers tr1)) \<and> mx \<le> 90
    | (Halt h, w1) \<Rightarrow> h \<noteq> Spin"
proof -
  define Q :: "unit \<Rightarrow> int world \<Rightarrow> bool" where
    "Q = (\<lambda>u w1. \<exists>mx tr1 tr2. trace w1 = tr1 @ Out (max_line mx) # tr2 \<and> length (syscalls tr2) = 1 \<and>
        mx = Max (insert 0 (answers tr1)) \<and> mx \<le> 90)"
  have finish: "wp (bind_m (printf (max_line mx)) (\<lambda>_. sigprocmask_unblock [SIGINT])) Q no_spin w1"
    if "max_kept mx w1" for mx w1
    unfolding wp_bind wp_printf
  proof (rule wp_digit_unblock)
    fix tr and w2 :: "int world" assume "trace w2 = trace (w1\<lparr>trace := trace w1 @ [Out (max_line mx)]\<rparr>) @ tr" "length (syscalls tr) = 1"
    then have "trace w2 = trace w1 @ Out (max_line mx) # tr \<and> length (syscalls tr) = 1 \<and>
        mx = Max (insert 0 (answers (trace w1))) \<and> mx \<le> 90"
      using that by (auto simp: max_kept_def)
    then show "Q () w2" unfolding Q_def by blast
  qed
  have "wp (loop_m (digit_doServer_body junk fdT m) (0, 0))
      (\<lambda>mx. wp (bind_m (printf (max_line mx)) (\<lambda>_. sigprocmask_unblock [SIGINT])) Q no_spin) no_spin w1"
    if w1: "answers (trace w1) = {}" for m w1
  proof (rule wp_loop [where I = "\<lambda>(k, mx). max_kept mx"])
    show "(\<lambda>(k, mx). max_kept mx) (0, 0) w1" using w1 by (simp add: max_kept_def)
    fix st :: "nat \<times> int" and w2 assume "(\<lambda>(k, mx). max_kept mx) st w2"
    then show "wp (digit_doServer_body junk fdT m st) (\<lambda>x w3. case x of
         Inl s1 \<Rightarrow> (\<lambda>(k, mx). max_kept mx) s1 w3 \<and> length (script w3) < length (script w2)
       | Inr mx \<Rightarrow> wp (bind_m (printf (max_line mx)) (\<lambda>_. sigprocmask_unblock [SIGINT])) Q no_spin w3) no_spin w2"
      by (cases st) (auto split: sum.splits intro!: wp_mono [OF wp_digit_doServer_body] finish)
  qed
  note loop = this [unfolded wp_bind]
  have "wp (digit_doServer junk fdT) Q no_spin w"
    unfolding digit_doServer_def sigprocmask_block_def wp_bind
    using loop by (intro wp_sys_answers) (auto simp: wp_def [of "\<lambda>w. (Ret (sigmask w), w\<lparr>sigmask := sigmask w @ [SIGINT]\<rparr>)"] assms)
  then show ?thesis by (auto simp: wp_def Q_def split: prod.splits outcome.splits)
qed

text \<open>
  The instance: two clients, the second sends no number; SIGINT arrives while the server waits
  for a third.
\<close>

definition digits_two :: "int world" where
  "digits_two = (idle [ok_reply 0, ok_reply 1, ok_reply 7, data_reply (digit_request 1987), ok_reply 2, ok_reply 0,
     ok_reply 1, ok_reply 8, data_reply (replicate 15 0), failed_reply EINTR, ok_reply 1, ok_reply 1, ok_reply 0,
     Reply [SIGINT] (-1) EINTR [] [], ok_reply 0] 1)\<lparr>sigact := (\<lambda>_. Handler digit_sigint_handler)\<rparr>"

lemma digits_two_output:
  "(case digit_doServer (\<lambda>_. []) 3 digits_two of
     (Ret u, w1) \<Rightarrow> printed (trace w1) = str ''Invlid data'' @ [10] @ str ''MAX_SUM=25'' @ [10]
   | _ \<Rightarrow> False)"
  by code_simp

theorem digit_maximum_exact_witness:
  "\<exists>u w1 mx tr1 tr2. digit_doServer (\<lambda>_. []) 3 digits_two = (Ret u, w1) \<and>
     trace w1 = tr1 @ Out (max_line mx) # tr2 \<and> mx = Max (insert 0 (answers tr1)) \<and> mx \<le> 90"
proof -
  have "answers (trace digits_two) = {}" by (simp add: digits_two_def idle_def)
  from digit_maximum_exact [OF this, of "\<lambda>_. []" 3] digits_two_output show ?thesis
    by (auto split: prod.splits outcome.splits)
qed

text \<open>Fifteen bytes without a NUL are not a string.\<close>

lemma digit_unterminated:
  "fst (digit_communicate [] 7 0 (idle [data_reply (replicate 15 49)] (1 :: int))) = Halt Undef"
  by code_simp

text \<open>The refusal -1 is printed by the client as an unsigned 16-bit number.\<close>

lemma digit_refusal_printed: "sum_line (bytes16 (htons (word_of_int (-1)))) = str ''SUM='' @ fmt_d 65535 @ [10]"
proof -
  have "uint (word_of_int (-1) :: 16 word) = 65535" by (simp only: uint_word_of_int) simp
  then show ?thesis by (simp add: sum_line_def)
qed

end
