(* ===== verification/ArithQueues.thy ===== *)
theory ArithQueues
  imports BulkIO
begin

text \<open>
  \<open>L2_2/test_server.c\<close> and \<open>test_client.c\<close>: a server with three message queues, one for each of
  sum, quotient and remainder. A client sends its two numbers to the first, waits a tenth of a
  second for the answer on its own queue, sends them to the second, and so on; a message with
  process number -1 says that the client gives up or leaves.
\<close>

section \<open>Messages\<close>

record arith_msg =
  client_pid :: int
  num1 :: int
  num2 :: int

definition ARITH_MSG_SIZE :: nat where "ARITH_MSG_SIZE = 12"
definition ARITH_MAXMSG :: int where "ARITH_MAXMSG = 5"

text \<open>The structure in memory, and its members read back.\<close>

definition message_image :: "arith_msg \<Rightarrow> byte list" where
  "message_image m = image32 [word_of_int (client_pid m), word_of_int (num1 m), word_of_int (num2 m)]"

definition message_of :: "byte list \<Rightarrow> arith_msg" where
  "message_of img = (let ws = words32 img in
     \<lparr>client_pid = sint (ws ! 0), num1 = sint (ws ! 1), num2 = sint (ws ! 2)\<rparr>)"

definition QUEUE_RDWR :: int where "QUEUE_RDWR = 2"
definition QUEUE_WRONLY :: int where "QUEUE_WRONLY = 1"
definition QUEUE_CREAT :: int where "QUEUE_CREAT = 64"

text \<open>The names of the queues.\<close>

definition op_queue :: "char \<Rightarrow> int \<Rightarrow> byte list" where
  "op_queue c pid = str ''/'' @ fmt_d pid @ str ''_'' @ str [c]"

definition own_queue :: "int \<Rightarrow> byte list" where
  "own_queue pid = str ''/'' @ fmt_d pid"

definition queue_create :: "byte list \<Rightarrow> nat \<Rightarrow> ('g, reply) prog" where
  "queue_create name msgsize = retry (sys SYS_mq_open [or QUEUE_RDWR QUEUE_CREAT, ARITH_MAXMSG, int msgsize] name fd_ok)"

definition queue_open :: "byte list \<Rightarrow> int \<Rightarrow> ('g, reply) prog" where
  "queue_open name flags = retry (sys SYS_mq_open [flags] name fd_ok)"

definition queue_close :: "int \<Rightarrow> ('g, reply) prog" where
  "queue_close q = sys SYS_mq_close [q] [] status_ok"

section \<open>The server\<close>

text \<open>The global is \<open>end\<close>; SIGINT sets it to -1.\<close>

definition end_handler :: "nat \<Rightarrow> int \<Rightarrow> int \<times> byte list list" where
  "end_handler sig e = (-1, [])"

definition arith_sethandler :: "'g handler \<Rightarrow> nat \<Rightarrow> ('g, unit) prog" where
  "arith_sethandler f sigNo = bind_m (sys_sigaction sigNo f) (\<lambda>r.
     if r_val r = -1 then err_kill ''sigaction'' else ret ())"

text \<open>
  \<open>TEMP_FAILURE_RETRY (mq_receive (...) - end)\<close>: C leaves open whether \<open>end\<close> is read before or
  after the call; \<open>early\<close> says which. A shorter message overwrites the beginning of \<open>msg\<close> only.
\<close>

definition arith_receive :: "bool \<Rightarrow> int \<Rightarrow> byte list \<Rightarrow> (int, byte list) prog" where
  "arith_receive early q msg =
     bind_m get_glob (\<lambda>e.
     if e \<noteq> 0 then ret msg
     else loop_m (\<lambda>msg.
       bind_m get_glob (\<lambda>e0.
       bind_m (sys SYS_mq_receive [q] [] (in_ok ARITH_MSG_SIZE)) (\<lambda>r.
       bind_m get_glob (\<lambda>e1.
       bind_m get_errno (\<lambda>err.
       let v = r_val r - (if early then e0 else e1); msg = put_at 0 (stored r) msg in
       if v = -1 \<and> err = EINTR then ret (Inl msg)
       else if v < 0 \<and> e1 = 0 then err_kill ''mq_recieve''
       else ret (Inr msg)))))) msg)"

text \<open>An answer; a failure counts only while \<open>end\<close> is 0.\<close>

definition arith_send :: "int \<Rightarrow> int \<Rightarrow> (int, unit) prog" where
  "arith_send qc ans =
     bind_m get_glob (\<lambda>e.
     if e \<noteq> 0 then ret ()
     else bind_m (retry (sys SYS_mq_send [qc, 1] (bytes32 (word_of_int ans)) status_ok)) (\<lambda>r.
       bind_m get_glob (\<lambda>e.
       if r_val r < 0 \<and> e = 0 then err_kill ''mq_send'' else ret ())))"

text \<open>\<open>None\<close> is undefined behaviour: an overflow, a division by zero.\<close>

definition arith_reply :: "int \<Rightarrow> int option \<Rightarrow> (int, unit) prog" where
  "arith_reply qc v = (case v of None \<Rightarrow> halt_m Undef | Some ans \<Rightarrow> arith_send qc ans)"

text \<open>The three operations.\<close>

definition arith_sum :: "byte list \<Rightarrow> int option" where
  "arith_sum msg = c_int (num1 (message_of msg) + num2 (message_of msg))"

definition arith_quotient :: "byte list \<Rightarrow> int option" where
  "arith_quotient msg = c_div (num1 (message_of msg)) (num2 (message_of msg))"

definition arith_remainder :: "byte list \<Rightarrow> int option" where
  "arith_remainder msg = c_mod (num1 (message_of msg)) (num2 (message_of msg))"

text \<open>
  One turn of the loop of \<open>main\<close>; its state is \<open>msg\<close>, not initialised at first, and \<open>qc\<close>, the
  queue of the client being served or -1. \<open>continue\<close> closes that queue.
\<close>

definition arith_turn ::
  "bool \<Rightarrow> int \<Rightarrow> int \<Rightarrow> int \<Rightarrow> byte list \<times> int \<Rightarrow> (int, byte list \<times> int + int) prog" where
  "arith_turn early qs qd qm = (\<lambda>(msg, qc).
     let continue = (\<lambda>msg. bind_m (queue_close qc) (\<lambda>_. ret (Inl (msg, -1)))) in
     bind_m get_glob (\<lambda>e.
     if e = -1 then ret (Inr qc)
     else
       bind_m (arith_receive early qs msg) (\<lambda>msg.
       if client_pid (message_of msg) = -1 then continue msg
       else
         bind_m get_glob (\<lambda>e.
         bind_m (if qc = -1 \<and> e = 0
           then bind_m (queue_open (own_queue (client_pid (message_of msg))) QUEUE_WRONLY) (\<lambda>r.
             if r_val r = -1 then err_kill ''mq_open'' else ret (r_val r))
           else ret qc) (\<lambda>qc.
         let continue = (\<lambda>msg. bind_m (queue_close qc) (\<lambda>_. ret (Inl (msg, -1)))) in
         bind_m (arith_reply qc (arith_sum msg)) (\<lambda>_.
         bind_m (arith_receive early qd msg) (\<lambda>msg.
         if client_pid (message_of msg) = -1 then continue msg
         else
           bind_m (arith_reply qc (arith_quotient msg)) (\<lambda>_.
           bind_m (arith_receive early qm msg) (\<lambda>msg.
           if client_pid (message_of msg) = -1 then continue msg
           else
             bind_m (arith_reply qc (arith_remainder msg)) (\<lambda>_. ret (Inl (msg, qc))))))))))))"

definition arith_serve :: "bool \<Rightarrow> byte list \<Rightarrow> int \<Rightarrow> int \<Rightarrow> int \<Rightarrow> (int, int) prog" where
  "arith_serve early junk qs qd qm = loop_m (arith_turn early qs qd qm) (junk, -1)"

definition queue_unlink :: "byte list \<Rightarrow> ('g, unit) prog" where
  "queue_unlink name = bind_m (sys SYS_mq_unlink [] name status_ok) (\<lambda>r.
     if r_val r \<noteq> 0 then err_kill ''mq_unlink'' else ret ())"

definition arith_server_main :: "bool \<Rightarrow> byte list \<Rightarrow> (int, int) prog" where
  "arith_server_main early junk =
     bind_m (arith_sethandler (Handler end_handler) SIGINT) (\<lambda>_.
     bind_m (sys SYS_getpid [] [] any_ok) (\<lambda>p.
     let name = (\<lambda>c. op_queue c (r_val p)); create = (\<lambda>c.
       bind_m (queue_create (name c) ARITH_MSG_SIZE) (\<lambda>r.
       if r_val r = -1 then err_kill ''mq_open'' else ret (r_val r))) in
     bind_m (create CHR ''s'') (\<lambda>qs.
     bind_m (create CHR ''d'') (\<lambda>qd.
     bind_m (create CHR ''m'') (\<lambda>qm.
     bind_m (printf (name CHR ''s'' @ [10])) (\<lambda>_.
     bind_m (printf (name CHR ''d'' @ [10])) (\<lambda>_.
     bind_m (printf (name CHR ''m'' @ [10])) (\<lambda>_.
     bind_m (arith_serve early junk qs qd qm) (\<lambda>qc.
     bind_m (queue_close qc) (\<lambda>_.
     bind_m (queue_close qs) (\<lambda>_.
     bind_m (queue_close qd) (\<lambda>_.
     bind_m (queue_close qm) (\<lambda>_.
     bind_m (queue_unlink (name CHR ''s'')) (\<lambda>_.
     bind_m (queue_unlink (name CHR ''d'')) (\<lambda>_.
     bind_m (queue_unlink (name CHR ''m'')) (\<lambda>_.
     bind_m (printf [10]) (\<lambda>_.
     ret 0)))))))))))))))))"

section \<open>The client\<close>

abbreviation (input) SYS_scanf :: sysno where "SYS_scanf \<equiv> 1069"

text \<open>
  A reply of \<open>scanf ("%d %d", ...)\<close> lists whether the end of the input has been met and then the
  numbers converted, none, one or two; the others keep their value. \<open>clock_gettime\<close> gives seconds
  and nanoseconds.
\<close>

definition scanf_ok :: "reply \<Rightarrow> bool" where
  "scanf_ok r \<longleftrightarrow> r_vals r \<noteq> [] \<and> length (r_vals r) \<le> 3 \<and> list_all in_int (r_vals r)"

definition converted :: "reply \<Rightarrow> nat \<Rightarrow> int \<Rightarrow> int" where
  "converted r i x = (if i < length (r_vals r) then r_vals r ! i else x)"

definition time_ok :: "reply \<Rightarrow> bool" where
  "time_ok r \<longleftrightarrow> status_ok r \<and> (r_val r = 0 \<longrightarrow> length (r_vals r) = 2 \<and>
     0 \<le> r_vals r ! 1 \<and> r_vals r ! 1 < 1000000000)"

definition arith_usage :: "('g, 'a) prog" where
  "arith_usage = bind_m (eprintf (str ''Pass pid of a process'' @ [10])) (\<lambda>_. halt_m (Exit 1))"

definition leave_msg :: arith_msg where
  "leave_msg = \<lparr>client_pid = -1, num1 = 0, num2 = 0\<rparr>"

definition client_send :: "int \<Rightarrow> arith_msg \<Rightarrow> ('g, unit) prog" where
  "client_send q msg = bind_m (retry (sys SYS_mq_send [q, 1] (message_image msg) status_ok)) (\<lambda>r.
     if r_val r < 0 then err_kill ''mq_send'' else ret ())"

text \<open>
  One question, the same text three times: send to \<open>q\<close>, wait for the answer; after a timeout \<open>qs\<close>
  is told that the client gives up, and \<open>return_val\<close> (here its four bytes) is printed as it is.
  The nanoseconds are not carried into the seconds.
\<close>

definition arith_ask :: "int \<Rightarrow> int \<Rightarrow> int \<Rightarrow> arith_msg \<times> byte list \<Rightarrow> ('g, arith_msg \<times> byte list) prog" where
  "arith_ask qid qs q = (\<lambda>(msg, return_val).
     bind_m (client_send q msg) (\<lambda>_.
     bind_m (printf (str ''sent'' @ [10])) (\<lambda>_.
     bind_m (sys SYS_clock_gettime [] [] time_ok) (\<lambda>t.
     if r_val t \<noteq> 0 then err_kill ''clock_gettime'' else
     bind_m (retry (sys SYS_mq_timedreceive [qid, r_vals t ! 0, r_vals t ! 1 + 100000000] [] (in_ok 4))) (\<lambda>r.
     bind_m (if r_val r < 0 then
         bind_m get_errno (\<lambda>e.
         if e = ETIMEDOUT then bind_m (client_send qs leave_msg) (\<lambda>_. ret leave_msg)
         else err_kill ''mq_recieve'')
       else ret msg) (\<lambda>msg.
     let return_val = put_at 0 (stored r) return_val in
     bind_m (printf (str ''recieved '' @ fmt_d (sint (word32 return_val)) @ [10])) (\<lambda>_.
     ret (msg, return_val))))))))"

definition arith_client_turn ::
  "int \<Rightarrow> int \<Rightarrow> int \<Rightarrow> int \<Rightarrow> int \<Rightarrow> int \<times> int \<times> byte list \<Rightarrow> ('g, int \<times> int \<times> byte list + unit) prog" where
  "arith_client_turn pid qid qs qd qm = (\<lambda>(n1, n2, return_val).
     bind_m (sys SYS_scanf [] [] scanf_ok) (\<lambda>r.
     let n1 = converted r 1 n1; n2 = converted r 2 n2 in
     bind_m (printf (fmt_d n1 @ str '' '' @ fmt_d n2 @ [10])) (\<lambda>_.
     if r_vals r ! 0 \<noteq> 0 then bind_m (client_send qs leave_msg) (\<lambda>_. ret (Inr ()))
     else
       let msg = \<lparr>client_pid = pid, num1 = n1, num2 = n2\<rparr> in
       bind_m (printf (fmt_d pid @ str '' - '' @ fmt_d n1 @ str '' - '' @ fmt_d n2 @ [10])) (\<lambda>_.
       bind_m (arith_ask qid qs qs (msg, return_val)) (\<lambda>st.
       bind_m (arith_ask qid qs qd st) (\<lambda>st.
       bind_m (arith_ask qid qs qm st) (\<lambda>(msg, return_val).
       ret (Inl (n1, n2, return_val)))))))))"

definition arith_client_main :: "byte list \<Rightarrow> byte list list \<Rightarrow> ('g, int) prog" where
  "arith_client_main junk argv =
     (if length argv \<noteq> 2 \<or> atoi (argv ! 1) = 0 then arith_usage
      else
        bind_m (sys SYS_getpid [] [] any_ok) (\<lambda>p.
        let name = (\<lambda>c. op_queue c (atoi (argv ! 1))); own = own_queue (r_val p) in
        bind_m (queue_open (name CHR ''s'') QUEUE_RDWR) (\<lambda>s.
        if r_val s = -1 then err_kill ''mq_open'' else
        bind_m (queue_open (name CHR ''d'') QUEUE_RDWR) (\<lambda>d.
        if r_val d = -1 then bind_m (queue_close (r_val s)) (\<lambda>_. err_kill ''mq_open'') else
        bind_m (queue_open (name CHR ''m'') QUEUE_RDWR) (\<lambda>m.
        if r_val m = -1 then bind_m (queue_close (r_val s)) (\<lambda>_. bind_m (queue_close (r_val d)) (\<lambda>_. err_kill ''mq_open'')) else
        bind_m (queue_create own 4) (\<lambda>i.
        if r_val i = -1 then bind_m (queue_close (r_val s)) (\<lambda>_. bind_m (queue_close (r_val d)) (\<lambda>_.
          bind_m (queue_close (r_val m)) (\<lambda>_. err_kill ''mq_open''))) else
        bind_m (printf (str ''all open'' @ [10])) (\<lambda>_.
        bind_m (printf (fmt_d (r_val p) @ [10])) (\<lambda>_.
        bind_m (loop_m (arith_client_turn (r_val p) (r_val i) (r_val s) (r_val d) (r_val m)) (0, 0, junk)) (\<lambda>_.
        bind_m (queue_close (r_val i)) (\<lambda>_.
        bind_m (queue_close (r_val s)) (\<lambda>_.
        bind_m (queue_close (r_val d)) (\<lambda>_.
        bind_m (queue_close (r_val m)) (\<lambda>_.
        bind_m (queue_unlink own) (\<lambda>_.
        ret 0))))))))))))))"

section \<open>Every answer belongs to the message before it\<close>

text \<open>
  A checker of traces. Its state: the queue of the last message received, the content of \<open>msg\<close>,
  the queue of the client. A queue is opened only when none is open, under the number in the last
  message; an answer goes to that queue and is the operation of the queue the message came from,
  applied to the message.
\<close>

definition arith_op :: "int \<Rightarrow> int \<Rightarrow> int \<Rightarrow> byte list \<Rightarrow> int option" where
  "arith_op qs qd q = (if q = qs then arith_sum else if q = qd then arith_quotient else arith_remainder)"

type_synonym scan_state = "int \<times> byte list \<times> int"

fun scan1 :: "int \<Rightarrow> int \<Rightarrow> scan_state \<Rightarrow> event \<Rightarrow> scan_state option" where
  "scan1 qs qd (q, msg, qc) (Sys n a p r) =
     (if n = SYS_mq_receive then Some (if 0 \<le> r_val r then (hd a, put_at 0 (stored r) msg, qc) else (q, msg, qc))
      else if n = SYS_mq_open then
        (if qc = -1 \<and> p = own_queue (client_pid (message_of msg)) then Some (q, msg, r_val r) else None)
      else if n = SYS_mq_close then (if a = [qc] then Some (q, msg, -1) else None)
      else if n = SYS_mq_send then
        (case arith_op qs qd q msg of None \<Rightarrow> None
         | Some v \<Rightarrow> if qc \<noteq> -1 \<and> a = [qc, 1] \<and> p = bytes32 (word_of_int v) then Some (q, msg, qc) else None)
      else Some (q, msg, qc))"
| "scan1 qs qd st e = Some st"

fun arith_scan :: "int \<Rightarrow> int \<Rightarrow> scan_state \<Rightarrow> event list \<Rightarrow> scan_state option" where
  "arith_scan qs qd st [] = Some st"
| "arith_scan qs qd st (e # tr) = (case scan1 qs qd st e of None \<Rightarrow> None | Some st1 \<Rightarrow> arith_scan qs qd st1 tr)"

lemma arith_scan_snoc:
  "arith_scan qs qd st tr = Some st1 \<Longrightarrow> arith_scan qs qd st (tr @ [e]) = scan1 qs qd st1 e"
proof (induction tr arbitrary: st)
  case (Cons x tr)
  then show ?case by (cases "scan1 qs qd st x") simp_all
qed (simp split: option.split)

text \<open>Only SIGINT's handler is installed, so \<open>end\<close> is 0 or -1 and never goes back to 0.\<close>

definition only_end :: "int world \<Rightarrow> bool" where
  "only_end w \<longleftrightarrow> (\<forall>s f. sigact w s = Handler f \<longrightarrow> f = end_handler)"

lemma wp_sys_end:
  assumes "only_end w"
    and "\<And>r w1. good r \<Longrightarrow> only_end w1 \<Longrightarrow> glob w1 = glob w \<or> glob w1 = -1 \<Longrightarrow> trace w1 = trace w @ [Sys n a p r] \<Longrightarrow>
      length (script w1) < length (script w) \<Longrightarrow> Q r w1"
    and "\<And>h w1. h = Blocked \<or> (\<exists>s. h = Killed s) \<Longrightarrow> trace w1 = trace w \<Longrightarrow> E h w1"
  shows "wp (sys n a p good) Q E w"
proof (rule wp_sys_keeps [where I = "\<lambda>g tr. (g = glob w \<or> g = -1) \<and> tr = trace w"])
  show "handlers_keep (\<lambda>g tr. (g = glob w \<or> g = -1) \<and> tr = trace w) w"
    unfolding handlers_keep_def
  proof (intro allI impI)
    fix s f g tr assume "sigact w s = Handler f" and I: "(g = glob w \<or> g = -1) \<and> tr = trace w"
    then have f: "f = end_handler" using assms(1) by (simp add: only_end_def)
    show "(fst (f s g) = glob w \<or> fst (f s g) = -1) \<and> tr @ map Out (snd (f s g)) = trace w"
      using I by (simp add: f end_handler_def)
  qed
next
  fix r tr and w1 :: "int world" assume "good r" "(glob w1 = glob w \<or> glob w1 = -1) \<and> tr = trace w" "trace w1 = tr @ [Sys n a p r]"
    "sigact w1 = sigact w" "length (script w1) < length (script w)"
  then show "Q r w1" using assms(1) by (intro assms(2)) (auto simp: only_end_def)
qed (use assms(3) in auto)

definition scanned :: "int \<Rightarrow> int \<Rightarrow> event list \<Rightarrow> scan_state \<Rightarrow> scan_state \<Rightarrow> event list \<Rightarrow> bool" where
  "scanned qs qd tr0 st0 st tr \<longleftrightarrow> (\<exists>new. tr = tr0 @ new \<and> arith_scan qs qd st0 new = Some st)"

lemma scanned_snoc:
  "scanned qs qd tr0 st0 st tr \<Longrightarrow> scan1 qs qd st e = Some st1 \<Longrightarrow> scanned qs qd tr0 st0 st1 (tr @ [e])"
  unfolding scanned_def by (metis append.assoc arith_scan_snoc)

definition serving :: "int \<Rightarrow> int \<Rightarrow> event list \<Rightarrow> scan_state \<Rightarrow> scan_state \<Rightarrow> int world \<Rightarrow> bool" where
  "serving qs qd tr0 st0 st w \<longleftrightarrow> only_end w \<and> (glob w = 0 \<or> glob w = -1) \<and> scanned qs qd tr0 st0 st (trace w)"

definition in_order :: "int \<Rightarrow> int \<Rightarrow> event list \<Rightarrow> scan_state \<Rightarrow> event list \<Rightarrow> bool" where
  "in_order qs qd tr0 st0 tr \<longleftrightarrow> (\<exists>new. tr = tr0 @ new \<and> arith_scan qs qd st0 new \<noteq> None)"

lemma scanned_in_order: "scanned qs qd tr0 st0 st tr \<Longrightarrow> in_order qs qd tr0 st0 tr"
  unfolding scanned_def in_order_def by blast

definition followed :: "int \<Rightarrow> int \<Rightarrow> event list \<Rightarrow> scan_state \<Rightarrow> halt \<Rightarrow> int world \<Rightarrow> bool" where
  "followed qs qd tr0 st0 h w \<longleftrightarrow> h \<noteq> Spin \<and> in_order qs qd tr0 st0 (trace w)"

lemma serving_followed: "serving qs qd tr0 st0 st w \<Longrightarrow> h \<noteq> Spin \<Longrightarrow> followed qs qd tr0 st0 h w"
  by (auto simp: serving_def followed_def intro: scanned_in_order)

lemma followed_report:
  "serving qs qd tr0 st0 st w \<Longrightarrow> h \<noteq> Spin \<Longrightarrow> followed qs qd tr0 st0 h (w\<lparr>trace := trace w @ [Perror s e]\<rparr>)"
  using scanned_snoc [of qs qd tr0 st0 st "trace w" "Perror s e" st]
  by (auto simp: serving_def followed_def intro: scanned_in_order)

text \<open>A call, with what the checker says of it.\<close>

lemma wp_sys_serving:
  assumes "serving qs qd tr0 st0 st w"
    and "\<And>r w1. good r \<Longrightarrow> scan1 qs qd st (Sys n a p r) \<noteq> None"
    and "\<And>r st1 w1. good r \<Longrightarrow> scan1 qs qd st (Sys n a p r) = Some st1 \<Longrightarrow> serving qs qd tr0 st0 st1 w1 \<Longrightarrow>
      glob w1 = glob w \<or> glob w1 = -1 \<Longrightarrow> length (script w1) < length (script w) \<Longrightarrow> Q r w1"
  shows "wp (sys n a p good) Q (followed qs qd tr0 st0) w"
proof (rule wp_sys_end)
  show "only_end w" using assms(1) by (simp add: serving_def)
next
  fix r and w1 :: "int world" assume r: "good r" "only_end w1" "glob w1 = glob w \<or> glob w1 = -1" "trace w1 = trace w @ [Sys n a p r]"
    "length (script w1) < length (script w)"
  obtain st1 where st1: "scan1 qs qd st (Sys n a p r) = Some st1" using assms(2) [OF r(1)] by auto
  then have "serving qs qd tr0 st0 st1 w1"
    using assms(1) r scanned_snoc [OF _ st1, of tr0 st0 "trace w"] by (auto simp: serving_def)
  then show "Q r w1" using r st1 by (intro assms(3))
next
  fix h and w1 :: "int world" assume "h = Blocked \<or> (\<exists>s. h = Killed s)" "trace w1 = trace w"
  then show "followed qs qd tr0 st0 h w1"
    using assms(1) by (auto simp: serving_def followed_def intro: scanned_in_order)
qed

text \<open>Receiving: the message comes from the queue asked, or \<open>end\<close> has been set.\<close>

lemma wp_arith_receive:
  assumes w: "serving qs qd tr0 st0 (q0, msg, qc) w"
    and Q: "\<And>q msg1 w1. serving qs qd tr0 st0 (q, msg1, qc) w1 \<Longrightarrow> q = q1 \<or> glob w1 = -1 \<Longrightarrow>
      length (script w1) \<le> length (script w) \<Longrightarrow> glob w = 0 \<longrightarrow> length (script w1) < length (script w) \<Longrightarrow>
      glob w = 0 \<or> glob w1 = -1 \<Longrightarrow> Q msg1 w1"
  shows "wp (arith_receive early q1 msg) Q (followed qs qd tr0 st0) w"
proof (cases "glob w = 0")
  case False
  then have "glob w = -1" using w by (simp add: serving_def)
  then show ?thesis using Q [OF w] by (simp add: arith_receive_def wp_rules)
next
  case True
  let ?I = "\<lambda>m v. length (script v) \<le> length (script w) \<and> m = msg \<and> serving qs qd tr0 st0 (q0, m, qc) v"
  have "wp (loop_m (\<lambda>msg. bind_m get_glob (\<lambda>e0. bind_m (sys SYS_mq_receive [q1] [] (in_ok ARITH_MSG_SIZE)) (\<lambda>r.
       bind_m get_glob (\<lambda>e1. bind_m get_errno (\<lambda>err.
       let v = r_val r - (if early then e0 else e1); msg = put_at 0 (stored r) msg in
       if v = -1 \<and> err = EINTR then ret (Inl msg)
       else if v < 0 \<and> e1 = 0 then err_kill ''mq_recieve''
       else ret (Inr msg)))))) msg) Q (followed qs qd tr0 st0) w"
  proof (rule wp_loop [where I = ?I])
    show "?I msg w" using w by simp
    fix m and v :: "int world" assume I: "?I m v"
    then have I: "length (script v) \<le> length (script w)" "m = msg" "serving qs qd tr0 st0 (q0, msg, qc) v" by blast+
    show "wp (bind_m get_glob (\<lambda>e0. bind_m (sys SYS_mq_receive [q1] [] (in_ok ARITH_MSG_SIZE)) (\<lambda>r.
       bind_m get_glob (\<lambda>e1. bind_m get_errno (\<lambda>err.
       let v = r_val r - (if early then e0 else e1); msg = put_at 0 (stored r) m in
       if v = -1 \<and> err = EINTR then ret (Inl msg)
       else if v < 0 \<and> e1 = 0 then err_kill ''mq_recieve''
       else ret (Inr msg))))))
      (\<lambda>x w1. case x of Inl m1 \<Rightarrow> ?I m1 w1 \<and> length (script w1) < length (script v) | Inr r \<Rightarrow> Q r w1)
      (followed qs qd tr0 st0) v"
      unfolding wp_bind wp_get_glob wp_get_errno
    proof (rule wp_sys_serving [OF I(3)])
      fix r st1 and w1 :: "int world"
      assume r: "in_ok ARITH_MSG_SIZE r" "scan1 qs qd (q0, msg, qc) (Sys SYS_mq_receive [q1] [] r) = Some st1"
        "serving qs qd tr0 st0 st1 w1" "glob w1 = glob v \<or> glob w1 = -1" "length (script w1) < length (script v)"
      show "wp (let va = r_val r - (if early then glob v else glob w1); msg = put_at 0 (stored r) m in
         if va = -1 \<and> werrno w1 = EINTR then ret (Inl msg)
         else if va < 0 \<and> glob w1 = 0 then err_kill ''mq_recieve''
         else ret (Inr msg))
        (\<lambda>x w1. case x of Inl m1 \<Rightarrow> ?I m1 w1 \<and> length (script w1) < length (script v) | Inr r \<Rightarrow> Q r w1)
        (followed qs qd tr0 st0) w1"
      proof (cases "0 \<le> r_val r")
        case True
        then have s: "serving qs qd tr0 st0 (q1, put_at 0 (stored r) msg, qc) w1" using r(2,3) by simp
        have "0 \<le> r_val r - (if early then glob v else glob w1)" using True I(3) s by (auto simp: serving_def)
        moreover have "Q (put_at 0 (stored r) msg) w1" using r I \<open>glob w = 0\<close> by (intro Q [OF s]) auto
        ultimately show ?thesis using I(2) by (auto simp: Let_def wp_ret)
      next
        case False
        then have n: "r_val r = -1" "stored r = []" using r(1) by (auto simp: in_ok_def stored_def)
        then have s: "serving qs qd tr0 st0 (q0, msg, qc) w1" using r(2,3) by simp
        have "Q msg w1" if "glob w1 = -1" using r I that \<open>glob w = 0\<close> by (intro Q [OF s]) auto
        moreover have "glob w1 = 0 \<or> glob w1 = -1" using s by (simp add: serving_def)
        ultimately show ?thesis using I(1,2) n s r(4,5) followed_report [OF s]
          by (auto simp: Let_def wp_ret wp_err_kill put_at_def)
      qed
    qed (use I(2) in simp)
  qed
  then show ?thesis using True by (simp add: arith_receive_def wp_get_glob wp_bind [of get_glob])
qed

lemma wp_retry_serving:
  assumes w: "serving qs qd tr0 st0 st w"
    and ok: "\<And>r. good r \<Longrightarrow> scan1 qs qd st (Sys n a p r) \<noteq> None"
      "\<And>r. good r \<Longrightarrow> r_val r = -1 \<Longrightarrow> scan1 qs qd st (Sys n a p r) = Some st"
    and Q: "\<And>r st1 w1. good r \<Longrightarrow> scan1 qs qd st (Sys n a p r) = Some st1 \<Longrightarrow> serving qs qd tr0 st0 st1 w1 \<Longrightarrow>
      glob w1 = glob w \<or> glob w1 = -1 \<Longrightarrow> length (script w1) < length (script w) \<Longrightarrow> Q r w1"
  shows "wp (retry (sys n a p good)) Q (followed qs qd tr0 st0) w"
proof (rule wp_retry [where I = "\<lambda>v. serving qs qd tr0 st0 st v \<and> (glob v = glob w \<or> glob v = -1) \<and>
      length (script v) \<le> length (script w)"])
  fix v assume v: "serving qs qd tr0 st0 st v \<and> (glob v = glob w \<or> glob v = -1) \<and> length (script v) \<le> length (script w)"
  show "wp (sys n a p good) (\<lambda>r w1. if r_val r = -1 \<and> werrno w1 = EINTR
      then (serving qs qd tr0 st0 st w1 \<and> (glob w1 = glob w \<or> glob w1 = -1) \<and> length (script w1) \<le> length (script w)) \<and>
        length (script w1) < length (script v)
      else Q r w1) (followed qs qd tr0 st0) v"
  proof (rule wp_sys_serving [OF conjunct1 [OF v] ok(1)])
    fix r st1 and w1 :: "int world"
    assume r: "good r" "scan1 qs qd st (Sys n a p r) = Some st1" "serving qs qd tr0 st0 st1 w1"
      "glob w1 = glob v \<or> glob w1 = -1" "length (script w1) < length (script v)"
    have "Q r w1" using r v by (intro Q [OF r(1-3)]) auto
    then show "if r_val r = -1 \<and> werrno w1 = EINTR
      then (serving qs qd tr0 st0 st w1 \<and> (glob w1 = glob w \<or> glob w1 = -1) \<and> length (script w1) \<le> length (script w)) \<and>
        length (script w1) < length (script v)
      else Q r w1" using r v ok(2) [OF r(1)] by auto
  qed
qed (use w in simp)

lemma wp_arith_reply:
  assumes w: "serving qs qd tr0 st0 (q, msg, qc) w"
    and v: "glob w = 0 \<Longrightarrow> qc \<noteq> -1 \<and> v = arith_op qs qd q msg"
    and Q: "\<And>w1. serving qs qd tr0 st0 (q, msg, qc) w1 \<Longrightarrow> glob w1 = glob w \<or> glob w1 = -1 \<Longrightarrow>
      length (script w1) \<le> length (script w) \<Longrightarrow> Q () w1"
  shows "wp (arith_reply qc v) Q (followed qs qd tr0 st0) w"
proof (cases v)
  case None
  then show ?thesis using w by (simp add: arith_reply_def wp_halt serving_followed)
next
  case (Some ans)
  show ?thesis
  proof (cases "glob w = 0")
    case False
    then show ?thesis using Q [OF w] Some by (simp add: arith_reply_def arith_send_def wp_rules)
  next
    case True
    have o: "arith_op qs qd q msg = Some ans" "qc \<noteq> -1" using v [OF True] Some by auto
    then have s: "scan1 qs qd (q, msg, qc) (Sys SYS_mq_send [qc, 1] (bytes32 (word_of_int ans)) r) = Some (q, msg, qc)" for r
      by simp
    have "wp (retry (sys SYS_mq_send [qc, 1] (bytes32 (word_of_int ans)) status_ok)) (\<lambda>r. wp (bind_m get_glob (\<lambda>e.
       if r_val r < 0 \<and> e = 0 then err_kill ''mq_send'' else ret ())) Q (followed qs qd tr0 st0)) (followed qs qd tr0 st0) w"
    proof (rule wp_retry_serving [OF w])
      fix r st1 and w1 :: "int world"
      assume r: "scan1 qs qd (q, msg, qc) (Sys SYS_mq_send [qc, 1] (bytes32 (word_of_int ans)) r) = Some st1"
        "serving qs qd tr0 st0 st1 w1" "glob w1 = glob w \<or> glob w1 = -1" "length (script w1) < length (script w)"
      then have w1: "serving qs qd tr0 st0 (q, msg, qc) w1" using s by simp
      then show "wp (bind_m get_glob (\<lambda>e. if r_val r < 0 \<and> e = 0 then err_kill ''mq_send'' else ret ())) Q (followed qs qd tr0 st0) w1"
        using r Q [OF w1] followed_report [OF w1] by (auto simp: wp_rules)
    qed (use s in \<open>simp_all only: option.distinct not_False_eq_True option.simps\<close>)
    then show ?thesis using True Some by (simp add: arith_reply_def arith_send_def wp_get_glob wp_bind [of get_glob] wp_bind [of "retry _"])
  qed
qed

text \<open>The end of a turn: \<open>continue\<close>.\<close>

definition turn_post :: "int \<Rightarrow> int \<Rightarrow> event list \<Rightarrow> scan_state \<Rightarrow> int world \<Rightarrow> byte list \<times> int + int \<Rightarrow> int world \<Rightarrow> bool" where
  "turn_post qs qd tr0 st0 w x w1 \<longleftrightarrow> (case x of
     Inl (msg, qc) \<Rightarrow> (\<exists>q. serving qs qd tr0 st0 (q, msg, qc) w1) \<and> length (script w1) < length (script w)
   | Inr qc \<Rightarrow> \<exists>q msg. serving qs qd tr0 st0 (q, msg, qc) w1)"

lemma wp_continue:
  assumes "serving qs qd tr0 st0 (q, msg, qc) w1" "length (script w1) < length (script w)"
  shows "wp (bind_m (queue_close qc) (\<lambda>_. ret (Inl (msg, -1)))) (turn_post qs qd tr0 st0 w) (followed qs qd tr0 st0) w1"
  unfolding queue_close_def wp_bind
  by (rule wp_sys_serving [OF assms(1)]) (use assms(2) in \<open>auto simp: wp_ret turn_post_def\<close>)

text \<open>The second and the third question.\<close>

lemma wp_arith_stage:
  assumes w1: "serving qs qd tr0 st0 (q0, msg, qc) w1" "length (script w1) < length (script w)"
    and qc: "glob w1 = 0 \<Longrightarrow> qc \<noteq> -1"
    and op: "\<And>m. f m = arith_op qs qd q1 m"
    and k: "\<And>m w2. serving qs qd tr0 st0 (q1, m, qc) w2 \<or> (\<exists>q. serving qs qd tr0 st0 (q, m, qc) w2 \<and> glob w2 = -1) \<Longrightarrow>
      length (script w2) < length (script w) \<Longrightarrow> glob w2 = 0 \<longrightarrow> qc \<noteq> -1 \<Longrightarrow>
      wp (k m) (turn_post qs qd tr0 st0 w) (followed qs qd tr0 st0) w2"
  shows "wp (bind_m (arith_receive early q1 msg) (\<lambda>msg.
      if client_pid (message_of msg) = -1 then bind_m (queue_close qc) (\<lambda>_. ret (Inl (msg, -1)))
      else bind_m (arith_reply qc (f msg)) (\<lambda>_. k msg))) (turn_post qs qd tr0 st0 w) (followed qs qd tr0 st0) w1"
  unfolding wp_bind [of "arith_receive _ _ _"]
proof (rule wp_arith_receive [OF w1(1)])
  fix q m and w2 :: "int world"
  assume w2: "serving qs qd tr0 st0 (q, m, qc) w2" "q = q1 \<or> glob w2 = -1"
    "length (script w2) \<le> length (script w1)" "glob w1 = 0 \<or> glob w2 = -1"
  have "wp (arith_reply qc (f m)) (\<lambda>_. wp (k m) (turn_post qs qd tr0 st0 w) (followed qs qd tr0 st0)) (followed qs qd tr0 st0) w2"
  proof (rule wp_arith_reply [OF w2(1)])
    show "qc \<noteq> -1 \<and> f m = arith_op qs qd q m" if "glob w2 = 0" using that w2 qc op by auto
    fix w3 :: "int world"
    assume "serving qs qd tr0 st0 (q, m, qc) w3" "glob w3 = glob w2 \<or> glob w3 = -1" "length (script w3) \<le> length (script w2)"
    then show "wp (k m) (turn_post qs qd tr0 st0 w) (followed qs qd tr0 st0) w3"
      using w1(2) w2 qc by (intro k) auto
  qed
  then show "wp (if client_pid (message_of m) = -1 then bind_m (queue_close qc) (\<lambda>_. ret (Inl (m, -1)))
      else bind_m (arith_reply qc (f m)) (\<lambda>_. k m)) (turn_post qs qd tr0 st0 w) (followed qs qd tr0 st0) w2"
    using wp_continue [OF w2(1)] w2(3) w1(2) by (simp add: wp_bind [of "arith_reply _ _"])
qed

lemma wp_arith_turn:
  assumes d: "distinct [qs, qd, qm]" and w: "serving qs qd tr0 st0 (q0, msg, qc) w"
  shows "wp (arith_turn early qs qd qm (msg, qc)) (turn_post qs qd tr0 st0 w) (followed qs qd tr0 st0) w"
proof (cases "glob w = -1")
  case True
  then show ?thesis using w
    by (auto simp: arith_turn_def Let_def wp_bind [of get_glob] wp_get_glob wp_ret turn_post_def)
next
  case False
  then have g: "glob w = 0" using w by (simp add: serving_def)
  let ?P = "turn_post qs qd tr0 st0 w" and ?F = "followed qs qd tr0 st0"
  let ?close = "\<lambda>qc msg. bind_m (queue_close qc) (\<lambda>_. ret (Inl (msg, -1)))"
  have ops: "arith_sum = arith_op qs qd qs" "arith_quotient = arith_op qs qd qd" "arith_remainder = arith_op qs qd qm"
    using d by (auto simp: arith_op_def)
  let ?third = "\<lambda>qc msg. bind_m (arith_receive early qm msg) (\<lambda>msg.
       if client_pid (message_of msg) = -1 then ?close qc msg
       else bind_m (arith_reply qc (arith_remainder msg)) (\<lambda>_. ret (Inl (msg, qc))))"
  let ?second = "\<lambda>qc msg. bind_m (arith_receive early qd msg) (\<lambda>msg.
       if client_pid (message_of msg) = -1 then ?close qc msg
       else bind_m (arith_reply qc (arith_quotient msg)) (\<lambda>_. ?third qc msg))"
  have third: "wp (?third qc m) ?P ?F w1"
    if "serving qs qd tr0 st0 (q, m, qc) w1" "length (script w1) < length (script w)" "glob w1 = 0 \<longrightarrow> qc \<noteq> -1" for q qc m w1
  proof (rule wp_arith_stage [OF that(1,2)])
    show "arith_remainder m = arith_op qs qd qm m" for m by (simp add: ops)
    fix m and w2 :: "int world"
    assume "serving qs qd tr0 st0 (qm, m, qc) w2 \<or> (\<exists>q. serving qs qd tr0 st0 (q, m, qc) w2 \<and> glob w2 = -1)"
      "length (script w2) < length (script w)"
    then show "wp (ret (Inl (m, qc))) ?P ?F w2" by (auto simp: wp_ret turn_post_def)
  qed (use that in simp)
  have second: "wp (?second qc m) ?P ?F w1"
    if "serving qs qd tr0 st0 (q, m, qc) w1" "length (script w1) < length (script w)" "glob w1 = 0 \<longrightarrow> qc \<noteq> -1" for q qc m w1
  proof (rule wp_arith_stage [OF that(1,2)])
    show "arith_quotient m = arith_op qs qd qd m" for m by (simp add: ops)
    fix m and w2 :: "int world"
    assume "serving qs qd tr0 st0 (qd, m, qc) w2 \<or> (\<exists>q. serving qs qd tr0 st0 (q, m, qc) w2 \<and> glob w2 = -1)"
      "length (script w2) < length (script w)" "glob w2 = 0 \<longrightarrow> qc \<noteq> -1"
    then show "wp (?third qc m) ?P ?F w2" by (auto intro: third)
  qed (use that in simp)
  have first: "wp (bind_m (arith_reply qc (arith_sum m)) (\<lambda>_. ?second qc m)) ?P ?F w1"
    if "serving qs qd tr0 st0 (q, m, qc) w1" "length (script w1) < length (script w)" "q = qs \<or> glob w1 = -1"
      "glob w1 = 0 \<longrightarrow> qc \<noteq> -1" for q qc m w1
    unfolding wp_bind [of "arith_reply _ _"]
  proof (rule wp_arith_reply [OF that(1)])
    show "qc \<noteq> -1 \<and> arith_sum m = arith_op qs qd q m" if "glob w1 = 0"
      using that \<open>q = qs \<or> glob w1 = -1\<close> \<open>glob w1 = 0 \<longrightarrow> qc \<noteq> -1\<close> ops by auto
    fix w2 :: "int world"
    assume "serving qs qd tr0 st0 (q, m, qc) w2" "glob w2 = glob w1 \<or> glob w2 = -1" "length (script w2) \<le> length (script w1)"
    then show "wp (?second qc m) ?P ?F w2" using that by (intro second) auto
  qed
  let ?open = "\<lambda>m e. if qc = -1 \<and> e = 0 then bind_m (queue_open (own_queue (client_pid (message_of m))) QUEUE_WRONLY) (\<lambda>r.
             if r_val r = -1 then err_kill ''mq_open'' else ret (r_val r)) else ret qc"
  have opened: "wp (?open m (glob w1)) (\<lambda>qc. wp (bind_m (arith_reply qc (arith_sum m)) (\<lambda>_. ?second qc m)) ?P ?F) ?F w1"
    if w1: "serving qs qd tr0 st0 (q, m, qc) w1" "length (script w1) < length (script w)" "q = qs \<or> glob w1 = -1" for q m w1
  proof (cases "qc = -1 \<and> glob w1 = 0")
    case True
    have "wp (retry (sys SYS_mq_open [QUEUE_WRONLY] (own_queue (client_pid (message_of m))) fd_ok)) (\<lambda>r.
       wp (if r_val r = -1 then err_kill ''mq_open'' else ret (r_val r))
         (\<lambda>qc. wp (bind_m (arith_reply qc (arith_sum m)) (\<lambda>_. ?second qc m)) ?P ?F) ?F) ?F w1"
    proof (rule wp_retry_serving [OF w1(1)])
      fix r st1 and w2 :: "int world"
      assume r: "scan1 qs qd (q, m, qc) (Sys SYS_mq_open [QUEUE_WRONLY] (own_queue (client_pid (message_of m))) r) = Some st1"
        "serving qs qd tr0 st0 st1 w2" "glob w2 = glob w1 \<or> glob w2 = -1" "length (script w2) < length (script w1)"
      then have s: "serving qs qd tr0 st0 (q, m, r_val r) w2" using True by simp
      show "wp (if r_val r = -1 then err_kill ''mq_open'' else ret (r_val r))
         (\<lambda>qc. wp (bind_m (arith_reply qc (arith_sum m)) (\<lambda>_. ?second qc m)) ?P ?F) ?F w2"
        using first [OF s] followed_report [OF s] r w1 by (auto simp: wp_ret wp_err_kill)
    qed (use True in simp_all)
    then show ?thesis using True by (simp add: queue_open_def wp_bind [of "retry _"])
  next
    case False
    have "glob w1 = 0 \<longrightarrow> qc \<noteq> -1" using False by blast
    then show ?thesis using first [OF w1] False by (auto simp: wp_ret)
  qed
  have "wp (arith_receive early qs msg) (\<lambda>m. wp (if client_pid (message_of m) = -1 then ?close qc m
       else bind_m get_glob (\<lambda>e. bind_m (?open m e) (\<lambda>qc. bind_m (arith_reply qc (arith_sum m)) (\<lambda>_. ?second qc m)))) ?P ?F) ?F w"
  proof (rule wp_arith_receive [OF w])
    fix q m and w1 :: "int world"
    assume w1: "serving qs qd tr0 st0 (q, m, qc) w1" "q = qs \<or> glob w1 = -1" "glob w = 0 \<longrightarrow> length (script w1) < length (script w)"
    then have l: "length (script w1) < length (script w)" using g by simp
    show "wp (if client_pid (message_of m) = -1 then ?close qc m
       else bind_m get_glob (\<lambda>e. bind_m (?open m e) (\<lambda>qc. bind_m (arith_reply qc (arith_sum m)) (\<lambda>_. ?second qc m)))) ?P ?F w1"
    proof (cases "client_pid (message_of m) = -1")
      case True
      then show ?thesis using wp_continue [OF w1(1) l] by simp
    next
      case False
      then show ?thesis using opened [OF w1(1) l w1(2)]
        by (simp only: if_False wp_bind [of get_glob] wp_get_glob wp_bind [of "?open _ _"])
    qed
  qed
  then show ?thesis using False
    by (simp only: arith_turn_def Let_def split wp_bind [of get_glob] wp_get_glob if_False wp_bind [of "arith_receive _ _ _"])
qed

text \<open>
  Property C21. Under any behaviour of the kernel, any messages and SIGINT at any moment, and
  whichever way the compiler orders the access to \<open>end\<close>: the server opens a client's queue only
  when it holds none, under the number in the message it has just received; and every answer it
  sends goes to that queue and is the sum, quotient or remainder of the numbers of the last
  message, according to the queue that message came from. The loop never spins.
\<close>

theorem arith_answers_in_order:
  assumes "distinct [qs, qd, qm]" "only_end w" "glob w = 0"
  shows "case arith_serve early junk qs qd qm w of (res, w1) \<Rightarrow>
    res \<noteq> Halt Spin \<and> (\<exists>tr. trace w1 = trace w @ tr \<and> arith_scan qs qd (qs, junk, -1) tr \<noteq> None)"
proof -
  let ?st = "(qs, junk, -1 :: int)"
  have "wp (loop_m (arith_turn early qs qd qm) (junk, -1)) (\<lambda>_ w1. in_order qs qd (trace w) ?st (trace w1))
      (followed qs qd (trace w) ?st) w"
  proof (rule wp_loop [where I = "\<lambda>(msg, qc) v. \<exists>q. serving qs qd (trace w) ?st (q, msg, qc) v"])
    have "serving qs qd (trace w) ?st (qs, junk, -1) w" using assms(2,3) by (simp add: serving_def scanned_def)
    then show "(\<lambda>(msg, qc) v. \<exists>q. serving qs qd (trace w) ?st (q, msg, qc) v) (junk, -1) w" by auto
  next
    fix st :: "byte list \<times> int" and v :: "int world"
    assume "(\<lambda>(msg, qc) v. \<exists>q. serving qs qd (trace w) ?st (q, msg, qc) v) st v"
    then obtain msg qc q where st: "st = (msg, qc)" and s: "serving qs qd (trace w) ?st (q, msg, qc) v"
      by (cases st) auto
    show "wp (arith_turn early qs qd qm st) (\<lambda>x w1. case x of
        Inl s1 \<Rightarrow> (\<lambda>(msg, qc) v. \<exists>q. serving qs qd (trace w) ?st (q, msg, qc) v) s1 w1 \<and> length (script w1) < length (script v)
      | Inr r \<Rightarrow> in_order qs qd (trace w) ?st (trace w1)) (followed qs qd (trace w) ?st) v"
      unfolding st
      by (rule wp_mono [OF wp_arith_turn [OF assms(1) s]])
        (auto simp: turn_post_def serving_def intro: scanned_in_order split: sum.splits)
  qed
  then show ?thesis
    by (auto simp: arith_serve_def wp_def in_order_def followed_def split: prod.splits outcome.splits)
qed

text \<open>The instance: two rounds of one client, then it leaves, SIGINT while the server waits.\<close>

definition msg_bytes :: "int \<Rightarrow> int \<Rightarrow> int \<Rightarrow> byte list" where
  "msg_bytes p a b = message_image \<lparr>client_pid = p, num1 = a, num2 = b\<rparr>"

definition arith_run :: "int world" where
  "arith_run = (idle [data_reply (msg_bytes 77 17 5), ok_reply 9, ok_reply 0, data_reply (msg_bytes 77 17 5), failed_reply EINTR,
     ok_reply 0, data_reply (msg_bytes 77 17 5), ok_reply 0, failed_reply EINTR, data_reply (msg_bytes (-1) 0 0), ok_reply 0,
     Reply [SIGINT] (-1) EINTR [] [], failed_reply EOTHER] 0)\<lparr>sigact := (\<lambda>_. SIG_DFL)(SIGINT := Handler end_handler)\<rparr>"

definition answers_sent :: "event list \<Rightarrow> (int \<times> int) list" where
  "answers_sent tr = concat (map (\<lambda>e. case e of Sys n a p r \<Rightarrow>
     (if n = SYS_mq_send \<and> r_val r = 0 then [(hd a, sint (word32 p))] else []) | _ \<Rightarrow> []) tr)"

lemma arith_run_answers:
  "(case arith_serve False (replicate 12 0) 3 4 5 arith_run of (Ret qc, w1) \<Rightarrow> answers_sent (trace w1) = [(9, 22), (9, 3), (9, 2)]
   | _ \<Rightarrow> False)"
  by code_simp

theorem arith_answers_in_order_witness:
  "\<exists>tr. trace (snd (arith_serve False (replicate 12 0) 3 4 5 arith_run)) = tr \<and>
     arith_scan 3 4 (3, replicate 12 0, -1) tr \<noteq> None \<and> answers_sent tr = [(9, 22), (9, 3), (9, 2)]"
proof -
  have "distinct [3::int, 4, 5]" "only_end arith_run" "glob arith_run = 0" "trace arith_run = []"
    by (auto simp: arith_run_def idle_def only_end_def)
  with arith_answers_in_order [where qs = 3 and qd = 4 and qm = 5 and w = arith_run and early = False and junk = "replicate 12 0"]
    arith_run_answers show ?thesis
    by (auto split: prod.splits outcome.splits)
qed

section \<open>What can go wrong\<close>

text \<open>A divisor 0 ends the server, whoever sends it.\<close>

lemma arith_divides_by_zero:
  "fst (arith_serve False (replicate 12 0) 3 4 5 (idle [data_reply (msg_bytes 77 17 0), ok_reply 9, ok_reply 0,
     data_reply (msg_bytes 77 17 0)] 0)) = Halt Undef"
  by code_simp

text \<open>SIGINT before the first message: the turn goes on with a \<open>msg\<close> that was never filled.\<close>

lemma arith_interrupted_at_start:
  "fst (arith_serve False (replicate 12 0) 3 4 5 ((idle [Reply [SIGINT] (-1) EINTR [] []] 0)
     \<lparr>sigact := (\<lambda>_. SIG_DFL)(SIGINT := Handler end_handler)\<rparr>)) = Halt Undef"
  by code_simp

text \<open>
  When \<open>end\<close> is read before the call, SIGINT does not end the wait: the server blocks in a second
  receive.
\<close>

lemma arith_keeps_waiting:
  "fst (arith_serve True (replicate 12 0) 3 4 5 ((idle [Reply [SIGINT] (-1) EINTR [] []] 0)
     \<lparr>sigact := (\<lambda>_. SIG_DFL)(SIGINT := Handler end_handler)\<rparr>)) = Halt Blocked"
  by code_simp

text \<open>
  Two clients at once: while the queue of client 77 is open, the answer to client 88 goes to
  client 77.
\<close>

lemma arith_wrong_client:
  "(case arith_serve False (replicate 12 0) 3 4 5 (idle [data_reply (msg_bytes 77 1 2), ok_reply 9, ok_reply 0,
      data_reply (msg_bytes 77 1 2), ok_reply 0, data_reply (msg_bytes 77 1 2), ok_reply 0, data_reply (msg_bytes 88 40 2), ok_reply 0] 0) of
     (res, w1) \<Rightarrow> answers_sent (trace w1) = [(9, 3), (9, 0), (9, 1), (9, 42)])"
  by code_simp

section \<open>A round seen from the client\<close>

text \<open>Replies to a retried call: interruptions, then \<open>r\<close>.\<close>

definition answered :: "(reply \<Rightarrow> bool) \<Rightarrow> reply list \<Rightarrow> reply \<Rightarrow> bool" where
  "answered good rs r \<longleftrightarrow> list_all (\<lambda>r. interrupted r \<and> r_sigs r = [] \<and> good r) rs \<and> good r \<and> r_sigs r = [] \<and> \<not> interrupted r"

lemma retry_answered:
  assumes "answered good rs r" "script w = rs @ r # rest"
  shows "\<exists>w1. retry (sys n a p good) w = (Ret r, w1) \<and> script w1 = rest \<and> glob w1 = glob w \<and>
    trace w1 = trace w @ map (Sys n a p) (rs @ [r]) \<and> (r_val r = -1 \<longrightarrow> werrno w1 = r_errno r)"
  using assms
proof (induction rs arbitrary: w)
  case Nil
  then have "retry (sys n a p good) w = (Ret r, adv n a p r w)"
    by (intro retry_returns) (auto simp: answered_def interrupted_def)
  then show ?case using Nil.prems(2) by simp
next
  case (Cons e rs)
  have "retry (sys n a p good) w = retry (sys n a p good) (adv n a p e w)"
    using Cons.prems by (intro retry_interrupted) (auto simp: answered_def interrupted_def)
  then show ?case
    using Cons.IH [of "adv n a p e w"] Cons.prems by (auto simp: answered_def)
qed

text \<open>One question answered: the replies to \<open>mq_send\<close>, the clock, the replies to \<open>mq_timedreceive\<close>.\<close>

definition question_script :: "reply list \<Rightarrow> reply \<Rightarrow> reply list \<Rightarrow> int \<Rightarrow> reply list" where
  "question_script ss t rs v = ss @ ok_reply 0 # t # rs @ [data_reply (bytes32 (word_of_int v))]"

definition question_ok :: "reply list \<Rightarrow> reply \<Rightarrow> reply list \<Rightarrow> int \<Rightarrow> bool" where
  "question_ok ss t rs v \<longleftrightarrow> answered status_ok ss (ok_reply 0) \<and> time_ok t \<and> r_val t = 0 \<and> r_sigs t = [] \<and>
     answered (in_ok 4) rs (data_reply (bytes32 (word_of_int v))) \<and> in_int v"

fun message1 :: "event \<Rightarrow> (int \<times> byte list) list" where
  "message1 (Sys n a p r) = (if n = SYS_mq_send \<and> r_val r = 0 then [(hd a, p)] else [])"
| "message1 e = []"

text \<open>The messages accepted by the queues.\<close>

definition messages :: "event list \<Rightarrow> (int \<times> byte list) list" where
  "messages tr = concat (map message1 tr)"

lemma messages_simps [simp]: "messages [] = []" "messages (tr @ tr1) = messages tr @ messages tr1"
  "messages (e # tr) = message1 e @ messages tr"
  by (simp_all add: messages_def)

lemma printed_calls [simp]: "printed (map (Sys n a p) rs) = []"
  by (induction rs) simp_all

lemma messages_calls: "n \<noteq> SYS_mq_send \<Longrightarrow> messages (map (Sys n a p) rs) = []"
  by (induction rs) simp_all

lemma messages_interrupted: "answered good rs r \<Longrightarrow> messages (map (Sys n a p) rs) = []"
proof -
  assume "answered good rs r"
  then have "list_all interrupted rs" by (auto simp: answered_def list_all_iff)
  then show ?thesis by (induction rs) (auto simp: interrupted_def)
qed

lemma arith_ask_answered:
  assumes "question_ok ss t rs v" "script w = question_script ss t rs v @ rest" "length rv = 4"
  shows "\<exists>w1. arith_ask qid qs q (msg, rv) w = (Ret (msg, bytes32 (word_of_int v)), w1) \<and> script w1 = rest \<and>
    messages (trace w1) = messages (trace w) @ [(q, message_image msg)] \<and>
    printed (trace w1) = printed (trace w) @ str ''sent'' @ [10] @ str ''recieved '' @ fmt_d v @ [10]"
proof -
  let ?d = "data_reply (bytes32 (word_of_int v))"
  have a: "answered status_ok ss (ok_reply 0)" and t: "time_ok t" "r_val t = 0" "r_sigs t = []"
    and d: "answered (in_ok 4) rs ?d" and v: "in_int v"
    using assms(1) by (auto simp: question_ok_def)
  obtain w1 where w1: "retry (sys SYS_mq_send [q, 1] (message_image msg) status_ok) w = (Ret (ok_reply 0), w1)"
    "script w1 = t # rs @ ?d # rest" "trace w1 = trace w @ map (Sys SYS_mq_send [q, 1] (message_image msg)) (ss @ [ok_reply 0])"
    using retry_answered [OF a, of w "t # rs @ ?d # rest" SYS_mq_send "[q, 1]" "message_image msg"] assms(2)
    by (auto simp: question_script_def)
  let ?w2 = "w1\<lparr>trace := trace w1 @ [Out (str ''sent'' @ [10])]\<rparr>"
  let ?w3 = "adv SYS_clock_gettime [] [] t ?w2"
  have clock: "sys SYS_clock_gettime [] [] time_ok ?w2 = (Ret t, ?w3)"
    using t w1(2) by (intro sys_quiet) simp_all
  let ?a = "[qid, r_vals t ! 0, r_vals t ! 1 + 100000000]"
  obtain w4 where w4: "retry (sys SYS_mq_timedreceive ?a [] (in_ok 4)) ?w3 = (Ret ?d, w4)"
    "script w4 = rest" "trace w4 = trace ?w3 @ map (Sys SYS_mq_timedreceive ?a []) (rs @ [?d])"
    using retry_answered [OF d, of ?w3 rest SYS_mq_timedreceive ?a "[]"] w1(2) by auto
  have d4: "r_val ?d = 4" "stored ?d = bytes32 (word_of_int v)"
    by (simp_all add: data_reply_def stored_def)
  have out: "sint (word32 (bytes32 (word_of_int v :: 32 word))) = v"
    using v by (simp add: sint_sbintrunc' flip: to_int32_def)
  have "put_at 0 (bytes32 (word_of_int v)) rv = bytes32 (word_of_int v)"
    using assms(3) by (simp add: put_at_def)
  then show ?thesis
    using w1 clock t(2) w4 d4 out messages_interrupted [OF a]
    by (simp add: arith_ask_def client_send_def bind_m_def ret_def printf_def ok_reply_def messages_calls
        del: bytes32_inj)
qed

text \<open>
  A line with two numbers, and three answers of the server: the client sends its message to each
  of the three queues in turn and prints the sum, the quotient and the remainder, which make up
  the first number again.
\<close>

lemma arith_client_round:
  assumes "script w = Reply [] 2 ENONE [] [0, a, b] # question_script s1 t1 r1 (a + b) @ question_script s2 t2 r2 q @
      question_script s3 t3 r3 m @ rest"
    and "question_ok s1 t1 r1 (a + b)" "question_ok s2 t2 r2 q" "question_ok s3 t3 r3 m"
    and "c_div a b = Some q" "c_mod a b = Some m" "in_int a" "in_int b" "length rv = 4"
  shows "\<exists>w1. arith_client_turn pid qid qs qd qm (n1, n2, rv) w = (Ret (Inl (a, b, bytes32 (word_of_int m))), w1) \<and>
    script w1 = rest \<and>
    messages (trace w1) = messages (trace w) @ map (\<lambda>q. (q, msg_bytes pid a b)) [qs, qd, qm] \<and>
    printed (trace w1) = printed (trace w) @ fmt_d a @ str '' '' @ fmt_d b @ [10] @
      fmt_d pid @ str '' - '' @ fmt_d a @ str '' - '' @ fmt_d b @ [10] @
      concat (map (\<lambda>v. str ''sent'' @ [10] @ str ''recieved '' @ fmt_d v @ [10]) [a + b, q, m]) \<and>
    b * q + m = a"
proof -
  let ?msg = "\<lparr>client_pid = pid, num1 = a, num2 = b\<rparr>"
  let ?r = "Reply [] 2 ENONE [] [0, a, b]"
  let ?w0 = "adv SYS_scanf [] [] ?r w"
  let ?w1 = "?w0\<lparr>trace := trace ?w0 @ [Out (fmt_d a @ str '' '' @ fmt_d b @ [10]),
     Out (fmt_d pid @ str '' - '' @ fmt_d a @ str '' - '' @ fmt_d b @ [10])]\<rparr>"
  have scan: "sys SYS_scanf [] [] scanf_ok w = (Ret ?r, ?w0)"
    using assms(1,7,8) by (intro sys_quiet) (simp_all add: scanf_ok_def in_int_iff)
  have len: "length (bytes32 x) = 4" for x by simp
  obtain w2 where w2: "arith_ask qid qs qs (?msg, rv) ?w1 = (Ret (?msg, bytes32 (word_of_int (a + b))), w2)"
    "script w2 = question_script s2 t2 r2 q @ question_script s3 t3 r3 m @ rest"
    "messages (trace w2) = messages (trace ?w1) @ [(qs, message_image ?msg)]"
    "printed (trace w2) = printed (trace ?w1) @ str ''sent'' @ [10] @ str ''recieved '' @ fmt_d (a + b) @ [10]"
    using arith_ask_answered [OF assms(2) _ assms(9), of ?w1 "question_script s2 t2 r2 q @ question_script s3 t3 r3 m @ rest" qid qs qs ?msg]
      assms(1) by auto
  obtain w3 where w3: "arith_ask qid qs qd (?msg, bytes32 (word_of_int (a + b))) w2 = (Ret (?msg, bytes32 (word_of_int q)), w3)"
    "script w3 = question_script s3 t3 r3 m @ rest" "messages (trace w3) = messages (trace w2) @ [(qd, message_image ?msg)]"
    "printed (trace w3) = printed (trace w2) @ str ''sent'' @ [10] @ str ''recieved '' @ fmt_d q @ [10]"
    using arith_ask_answered [OF assms(3) w2(2) len, of qid qs qd ?msg] by auto
  obtain w4 where w4: "arith_ask qid qs qm (?msg, bytes32 (word_of_int q)) w3 = (Ret (?msg, bytes32 (word_of_int m)), w4)"
    "script w4 = rest" "messages (trace w4) = messages (trace w3) @ [(qm, message_image ?msg)]"
    "printed (trace w4) = printed (trace w3) @ str ''sent'' @ [10] @ str ''recieved '' @ fmt_d m @ [10]"
    using arith_ask_answered [OF assms(4) w3(2) len, of qid qs qm ?msg] by auto
  have "b * q + m = a"
    using assms(5,6) by (auto simp: c_div_def c_mod_def mult_sdiv_smod_eq split: if_splits)
  then show ?thesis
    using scan w2 w3 w4
    by (simp add: arith_client_turn_def bind_m_def ret_def printf_def converted_def msg_bytes_def Let_def)
qed

text \<open>
  After a timeout the client goes on asking with the message that says it has left; the sum it
  prints is what \<open>return_val\<close> held, here the uninitialised bytes 7, 0, 0, 0. When less than a tenth
  of the second is left, the time-out passed to the kernel is not a valid time.
\<close>

lemma arith_timeout_printed:
  "(case arith_ask 6 3 3 (\<lparr>client_pid = 77, num1 = 1, num2 = 2\<rparr>, [7, 0, 0, 0]) (idle [ok_reply 0, Reply [] 0 ENONE [] [50, 950000000],
      failed_reply ETIMEDOUT, ok_reply 0] (0 :: int)) of
     (Ret (msg, rv), w1) \<Rightarrow> msg = leave_msg \<and> printed (trace w1) = str ''sent'' @ [10] @ str ''recieved 7'' @ [10] \<and>
       (SYS_mq_timedreceive, [6, 50, 1050000000], [], -1) \<in> set (syscalls (trace w1))
   | _ \<Rightarrow> False)"
  by code_simp

end
