(* ===== verification/VisitThreads.thy ===== *)
theory VisitThreads
  imports RootThreads
begin

text \<open>
  \<open>Lab3/test.c\<close>: threads that together replace every element of a shared array by its square
  root, each element once: a thread draws elements until it finds one not visited yet, and stops
  when none remain. The arrays \<open>mx_visited\<close> and \<open>mx_arr\<close> have one mutex per thread, but the
  mutex of element \<open>j\<close> is looked for \<open>sizeof (pthread_mutex_t) * j\<close> mutexes, not bytes, further on.
\<close>

section \<open>State\<close>

definition MUTEX_SIZE :: nat where "MUTEX_SIZE = 40"

text \<open>
  \<open>thread_work\<close>: at \<open>V_test\<close> the thread reads \<open>remaining\<close>, at \<open>V_look j\<close> it reads \<open>visited[j]\<close>, from
  \<open>V_hit j\<close> on it has marked the element.
\<close>

datatype 'd visit_pc =
    V_absent | V_first | V_lock_test | V_test | V_leave | V_unlock_test | V_draw
  | V_lock_visited nat | V_look nat | V_mark nat | V_miss nat | V_hit nat
  | V_lock_arr nat | V_load nat | V_store nat 'd | V_show nat | V_unlock_arr nat
  | V_lock_count | V_count | V_count_store int | V_unlock_count | V_sleep | V_done

record 'd visit_thread =
  vpc :: "'d visit_pc"
  vseed :: "32 word"

text \<open>\<open>broken\<close>: a mutex outside its array has been used; nothing is defined from then on.\<close>

record 'd visits =
  varr :: "'d list"
  visited :: "int list"
  remaining :: int
  mx_remaining :: mutex
  mx_visited :: "mutex list"
  mx_arrs :: "mutex list"
  visitors :: "'d visit_thread list"
  vmain :: roots_pc
  vout :: "byte list list"
  broken :: bool

section \<open>The threads\<close>

text \<open>Locking and unlocking the mutex of an element.\<close>

definition elem_mutex :: "(nat \<Rightarrow> mutex \<Rightarrow> mutex option) \<Rightarrow> nat \<Rightarrow> nat \<Rightarrow> mutex list \<Rightarrow> mutex list option option" where
  "elem_mutex op i j ms = (let b = MUTEX_SIZE * j in
     if b < length ms then Some (map_option (\<lambda>m. ms[b := m]) (op i (ms ! b))) else None)"

definition visit_work :: "'d doubles \<Rightarrow> ('d \<Rightarrow> byte list) \<Rightarrow> rng \<Rightarrow> nat \<Rightarrow> 'd visits \<Rightarrow> 'd visits option" where
  "visit_work fl lf rand_r i s =
     (let t = visitors s ! i;
          go = (\<lambda>p. s\<lparr>visitors := (visitors s)[i := t\<lparr>vpc := p\<rparr>]\<rparr>);
          draw = (\<lambda>p. s\<lparr>visitors := (visitors s)[i := \<lparr>vpc = p, vseed = snd (rand_r (vseed t))\<rparr>]\<rparr>);
          on_visited = (\<lambda>op j p. case elem_mutex op i j (mx_visited s) of
            None \<Rightarrow> Some (s\<lparr>broken := True\<rparr>)
          | Some r \<Rightarrow> map_option (\<lambda>ms. (go p)\<lparr>mx_visited := ms\<rparr>) r);
          on_arr = (\<lambda>op j p. case elem_mutex op i j (mx_arrs s) of
            None \<Rightarrow> Some (s\<lparr>broken := True\<rparr>)
          | Some r \<Rightarrow> map_option (\<lambda>ms. (go p)\<lparr>mx_arrs := ms\<rparr>) r);
          on_remaining = (\<lambda>op p. map_option (\<lambda>m. (go p)\<lparr>mx_remaining := m\<rparr>) (op i (mx_remaining s)))
      in case vpc t of
        V_absent \<Rightarrow> None
      | V_first \<Rightarrow> Some (draw V_lock_test)
      | V_lock_test \<Rightarrow> on_remaining mx_lock V_test
      | V_test \<Rightarrow> Some (go (if remaining s = 0 then V_leave else V_unlock_test))
      | V_leave \<Rightarrow> on_remaining mx_unlock V_done
      | V_unlock_test \<Rightarrow> on_remaining mx_unlock V_draw
      | V_draw \<Rightarrow> Some (draw (V_lock_visited (root_index rand_r (length (varr s)) (vseed t))))
      | V_lock_visited j \<Rightarrow> on_visited mx_lock j (V_look j)
      | V_look j \<Rightarrow> Some (go (if visited s ! j = 0 then V_mark j else V_miss j))
      | V_mark j \<Rightarrow> Some ((go (V_hit j))\<lparr>visited := (visited s)[j := 1]\<rparr>)
      | V_miss j \<Rightarrow> on_visited mx_unlock j V_lock_test
      | V_hit j \<Rightarrow> on_visited mx_unlock j (V_lock_arr j)
      | V_lock_arr j \<Rightarrow> on_arr mx_lock j (V_load j)
      | V_load j \<Rightarrow> Some (go (V_store j (varr s ! j)))
      | V_store j x \<Rightarrow> Some ((go (V_show j))\<lparr>varr := (varr s)[j := d_sqrt fl x]\<rparr>)
      | V_show j \<Rightarrow> Some ((go (V_unlock_arr j))\<lparr>vout := vout s @ [lf (varr s ! j) @ [32, 10]]\<rparr>)
      | V_unlock_arr j \<Rightarrow> on_arr mx_unlock j V_lock_count
      | V_lock_count \<Rightarrow> on_remaining mx_lock V_count
      | V_count \<Rightarrow> Some (go (V_count_store (remaining s - 1)))
      | V_count_store v \<Rightarrow> Some ((go V_unlock_count)\<lparr>remaining := v\<rparr>)
      | V_unlock_count \<Rightarrow> on_remaining mx_unlock V_sleep
      | V_sleep \<Rightarrow> Some (go V_lock_test)
      | V_done \<Rightarrow> None)"

section \<open>The main thread\<close>

text \<open>Creating, joining, printing; \<open>ok\<close> is whether the call succeeds.\<close>

definition visit_main :: "('d \<Rightarrow> byte list) \<Rightarrow> bool \<Rightarrow> 'd visits \<Rightarrow> 'd visits option" where
  "visit_main lf ok s =
     (let n = length (visitors s) in
      case vmain s of
        X_create i \<Rightarrow> Some (
          if i < n then
            (if ok then s\<lparr>vmain := X_create (i + 1), visitors := (visitors s)[i := (visitors s ! i)\<lparr>vpc := V_first\<rparr>]\<rparr>
             else s\<lparr>vmain := X_exit 1\<rparr>)
          else s\<lparr>vmain := X_join 0\<rparr>)
      | X_join i \<Rightarrow>
          (if i < n then
             if \<not> ok then Some (s\<lparr>vmain := X_exit 1\<rparr>)
             else if vpc (visitors s ! i) = V_done then Some (s\<lparr>vmain := X_join (i + 1)\<rparr>) else None
           else Some (s\<lparr>vmain := X_print\<rparr>))
      | X_print \<Rightarrow> Some (s\<lparr>vmain := X_exit 0, vout := vout s @ [print_arr lf (varr s)]\<rparr>)
      | X_exit c \<Rightarrow> None)"

text \<open>Before: the arrays, the mutexes; results of \<open>malloc\<close> that are used untested.\<close>

definition init_arr_i :: "int \<Rightarrow> ('g, unit) prog" where
  "init_arr_i k = bind_m (sys SYS_malloc [4 * k] [] any_ok) (\<lambda>m. if r_val m = 0 then err_exit ''malloc'' else ret ())"

definition fill_arr_zero :: "int \<Rightarrow> int list" where
  "fill_arr_zero k = replicate (nat k) 0"

definition init_mutexes :: "int \<Rightarrow> ('g, unit) prog" where
  "init_mutexes n =
     bind_m (sys SYS_malloc [int MUTEX_SIZE * n] [] any_ok) (\<lambda>m.
     if r_val m = 0 then halt_m Undef
     else for_m [0..<nat n] (\<lambda>i _. bind_m (sys SYS_mutex_init [int i] [] pthread_ok) (\<lambda>r.
       if r_val r \<noteq> 0 then err_exit ''pthread_mutex_init'' else ret ())) ())"

definition visit_start :: "'d list \<Rightarrow> 32 word list \<Rightarrow> 'd visits" where
  "visit_start arr seeds = \<lparr>varr = arr, visited = fill_arr_zero (int (length arr)), remaining = int (length arr), mx_remaining = None,
     mx_visited = replicate (length seeds) None, mx_arrs = replicate (length seeds) None,
     visitors = map (\<lambda>x. \<lparr>vpc = V_absent, vseed = x\<rparr>) seeds, vmain = X_create 0, vout = [], broken = False\<rparr>"

text \<open>
  \<open>main\<close> up to the creation of the threads: the state they start in. The seeds are drawn one
  before each creation; no thread uses the same generator, so they are drawn together here.
\<close>

definition visits_setup :: "'d doubles \<Rightarrow> ('d \<Rightarrow> byte list) \<Rightarrow> byte list list \<Rightarrow> ('g, 'd visits) prog" where
  "visits_setup fl lf argv =
     bind_m (read_args_roots argv) (\<lambda>(n, k).
     bind_m (sys SYS_getpid [] [] any_ok) (\<lambda>p. bind_m (sys SYS_time [] [] any_ok) (\<lambda>t.
     bind_m (sys SYS_srand [r_val p * r_val t] [] any_ok) (\<lambda>_.
     bind_m (init_arr k) (\<lambda>_.
     bind_m (fill_arr_rand fl k) (\<lambda>arr.
     bind_m (printf (print_arr lf arr)) (\<lambda>_.
     bind_m (init_arr_i k) (\<lambda>_.
     bind_m (init_mutexes n) (\<lambda>_.
     bind_m (init_mutexes n) (\<lambda>_.
     bind_m (sys SYS_malloc [72 * n] [] any_ok) (\<lambda>m.
     if r_val m = 0 then halt_m Undef
     else bind_m (for_m [0..<nat n] (\<lambda>i seeds. bind_m rand_m (\<lambda>v. ret (seeds @ [word_of_int v]))) []) (\<lambda>seeds.
     ret (visit_start arr seeds)))))))))))))"

section \<open>Steps\<close>

definition visits_running :: "'d visits \<Rightarrow> bool" where
  "visits_running s \<longleftrightarrow> (case vmain s of X_exit c \<Rightarrow> False | _ \<Rightarrow> \<not> broken s)"

definition visit_act :: "'d doubles \<Rightarrow> ('d \<Rightarrow> byte list) \<Rightarrow> rng \<Rightarrow> bool \<Rightarrow> thread_id \<Rightarrow> 'd visits \<Rightarrow> 'd visits option" where
  "visit_act fl lf rand_r ok a s = (if \<not> visits_running s then None else case a of
       None \<Rightarrow> visit_main lf ok s
     | Some i \<Rightarrow> if i < length (visitors s) then visit_work fl lf rand_r i s else None)"

definition visit_step :: "'d doubles \<Rightarrow> ('d \<Rightarrow> byte list) \<Rightarrow> rng \<Rightarrow> 'd visits \<Rightarrow> 'd visits \<Rightarrow> bool" where
  "visit_step fl lf rand_r s t \<longleftrightarrow> (\<exists>ok a. visit_act fl lf rand_r ok a s = Some t)"

section \<open>Invariants\<close>

fun in_count :: "'d visit_pc \<Rightarrow> bool" where
  "in_count V_test = True" | "in_count V_leave = True" | "in_count V_unlock_test = True" | "in_count V_count = True"
| "in_count (V_count_store v) = True" | "in_count V_unlock_count = True" | "in_count _ = False"

fun at_visited :: "'d visit_pc \<Rightarrow> nat option" where
  "at_visited (V_look j) = Some j" | "at_visited (V_mark j) = Some j" | "at_visited (V_miss j) = Some j"
| "at_visited (V_hit j) = Some j" | "at_visited _ = None"

fun at_arr :: "'d visit_pc \<Rightarrow> nat option" where
  "at_arr (V_load j) = Some j" | "at_arr (V_store j x) = Some j" | "at_arr (V_show j) = Some j"
| "at_arr (V_unlock_arr j) = Some j" | "at_arr _ = None"

text \<open>The element a thread has marked and not yet replaced.\<close>

fun claims :: "'d visit_pc \<Rightarrow> nat option" where
  "claims (V_hit j) = Some j" | "claims (V_lock_arr j) = Some j" | "claims (V_load j) = Some j"
| "claims (V_store j x) = Some j" | "claims _ = None"

text \<open>A thread that has marked an element and not yet counted it.\<close>

fun owes :: "'d visit_pc \<Rightarrow> bool" where
  "owes (V_show j) = True" | "owes (V_unlock_arr j) = True" | "owes V_lock_count = True" | "owes V_count = True"
| "owes (V_count_store v) = True" | "owes p = (claims p \<noteq> None)"

text \<open>What a thread's program point says of the shared variables.\<close>

fun well_placed :: "'d visits \<Rightarrow> 'd visit_pc \<Rightarrow> bool" where
  "well_placed s (V_mark j) = (visited s ! j = 0)"
| "well_placed s (V_store j x) = (x = varr s ! j)"
| "well_placed s (V_count_store v) = (v = remaining s - 1)"
| "well_placed s V_leave = (remaining s = 0)"
| "well_placed s V_done = (remaining s = 0)"
| "well_placed s _ = True"

fun index_of :: "'d visit_pc \<Rightarrow> nat option" where
  "index_of (V_lock_visited j) = Some j" | "index_of (V_show j) = Some j" | "index_of (V_unlock_arr j) = Some j"
| "index_of (V_look j) = Some j" | "index_of (V_mark j) = Some j" | "index_of (V_miss j) = Some j"
| "index_of p = claims p"

lemmas visit_defs = visit_work_def Let_def elem_mutex_def

text \<open>What a step of thread \<open>i\<close> leaves alone.\<close>

lemma visit_work_local:
  assumes "visit_work fl lf rand_r i s = Some t" "i < length (visitors s)"
  shows "length (visitors t) = length (visitors s)" "length (varr t) = length (varr s)" "length (visited t) = length (visited s)"
    "length (mx_visited t) = length (mx_visited s)" "length (mx_arrs t) = length (mx_arrs s)" "vmain t = vmain s"
    "visitors t = (visitors s)[i := visitors t ! i]" "k \<noteq> i \<Longrightarrow> visitors t ! k = visitors s ! k"
    "vpc (visitors s ! i) \<noteq> V_absent" "vpc (visitors s ! i) \<noteq> V_done" "broken t \<or> vpc (visitors t ! i) \<noteq> V_absent"
  using assms
  by (cases "vpc (visitors s ! i)"; auto simp: visit_defs split: option.splits if_splits)+

definition in_visited :: "nat \<Rightarrow> 'd visit_thread \<Rightarrow> bool" where
  "in_visited b t \<longleftrightarrow> (case at_visited (vpc t) of Some j \<Rightarrow> b = MUTEX_SIZE * j | None \<Rightarrow> False)"

definition in_arr :: "nat \<Rightarrow> 'd visit_thread \<Rightarrow> bool" where
  "in_arr b t \<longleftrightarrow> (case at_arr (vpc t) of Some j \<Rightarrow> b = MUTEX_SIZE * j | None \<Rightarrow> False)"

lemma held_count:
  assumes "protects (mx_remaining s) (\<lambda>t. in_count (vpc t)) (visitors s)"
    and "visit_work fl lf rand_r i s = Some t" "i < length (visitors s)"
  shows "protects (mx_remaining t) (\<lambda>t. in_count (vpc t)) (visitors t)"
  using assms
  by (cases "vpc (visitors s ! i)") (auto simp: visit_defs protects_rules split: option.splits if_splits)

lemma held_visited:
  assumes "locks_protect (mx_visited s) in_visited (visitors s)"
    and "visit_work fl lf rand_r i s = Some t" "i < length (visitors s)"
  shows "locks_protect (mx_visited t) in_visited (visitors t)"
  using assms
  by (cases "vpc (visitors s ! i)")
    (auto simp: visit_defs locks_rules in_visited_def split: option.splits if_splits)

lemma held_arr:
  assumes "locks_protect (mx_arrs s) in_arr (visitors s)"
    and "visit_work fl lf rand_r i s = Some t" "i < length (visitors s)"
  shows "locks_protect (mx_arrs t) in_arr (visitors t)"
  using assms
  by (cases "vpc (visitors s ! i)")
    (auto simp: visit_defs locks_rules in_arr_def split: option.splits if_splits)

definition locks_held :: "'d visits \<Rightarrow> bool" where
  "locks_held s \<longleftrightarrow> protects (mx_remaining s) (\<lambda>t. in_count (vpc t)) (visitors s) \<and>
     locks_protect (mx_visited s) in_visited (visitors s) \<and> locks_protect (mx_arrs s) in_arr (visitors s)"

text \<open>A thread in a region that needs the mutex of \<open>j\<close> has found this mutex in the array.\<close>

definition mutexes_found :: "'d visits \<Rightarrow> bool" where
  "mutexes_found s \<longleftrightarrow> (\<forall>i < length (visitors s).
     (\<forall>j. at_visited (vpc (visitors s ! i)) = Some j \<longrightarrow> MUTEX_SIZE * j < length (mx_visited s)) \<and>
     (\<forall>j. at_arr (vpc (visitors s ! i)) = Some j \<longrightarrow> MUTEX_SIZE * j < length (mx_arrs s)))"

definition claimed :: "nat \<Rightarrow> 'd visits \<Rightarrow> int" where
  "claimed j s = threads_in (\<lambda>t. claims (vpc t) = Some j) (visitors s)"

definition owing :: "'d visits \<Rightarrow> int" where
  "owing s = threads_in (\<lambda>t. owes (vpc t)) (visitors s)"

definition placed :: "nat \<Rightarrow> 'd visits \<Rightarrow> 'd visit_pc \<Rightarrow> bool" where
  "placed k s p \<longleftrightarrow> well_placed s p \<and> (\<forall>j. index_of p = Some j \<longrightarrow> j < k)"

definition visit_cells :: "'d doubles \<Rightarrow> 'd list \<Rightarrow> 'd visits \<Rightarrow> bool" where
  "visit_cells fl arr s \<longleftrightarrow> length (varr s) = length arr \<and> length (visited s) = length arr \<and>
     (\<forall>j < length arr. claimed j s \<le> visited s ! j \<and> visited s ! j \<le> 1 \<and>
        varr s ! j = (d_sqrt fl ^^ nat (visited s ! j - claimed j s)) (arr ! j))"

definition visit_count :: "'d visits \<Rightarrow> bool" where
  "visit_count s \<longleftrightarrow> remaining s = int (length (visited s)) - sum_list (visited s) + owing s"

definition all_placed :: "nat \<Rightarrow> 'd visits \<Rightarrow> bool" where
  "all_placed k s \<longleftrightarrow> (\<forall>i < length (visitors s). placed k s (vpc (visitors s ! i)))"

lemma mutexes_found_step:
  assumes inv: "mutexes_found s" and t: "visit_work fl lf rand_r i s = Some t" and i: "i < length (visitors s)"
  shows "mutexes_found t"
proof -
  note local = visit_work_local [OF t i]
  have "(\<forall>j. at_visited (vpc (visitors t ! i)) = Some j \<longrightarrow> MUTEX_SIZE * j < length (mx_visited s)) \<and>
     (\<forall>j. at_arr (vpc (visitors t ! i)) = Some j \<longrightarrow> MUTEX_SIZE * j < length (mx_arrs s))"
    using inv t i
    by (cases "vpc (visitors s ! i)") (auto simp: visit_defs mutexes_found_def split: option.splits if_splits)
  then show ?thesis using inv local(1,4,5,8) unfolding mutexes_found_def by metis
qed

lemma visit_cells_step:
  assumes inv: "visit_cells fl arr s" and p: "placed (length arr) s (vpc (visitors s ! i))"
    and t: "visit_work fl lf rand_r i s = Some t" and i: "i < length (visitors s)"
  shows "visit_cells fl arr t"
proof -
  note local = visit_work_local [OF t i]
  have len: "length (varr s) = length arr" "length (visited s) = length arr" using inv by (simp_all add: visit_cells_def)
  have "claimed j t \<le> visited t ! j \<and> visited t ! j \<le> 1 \<and>
        varr t ! j = (d_sqrt fl ^^ nat (visited t ! j - claimed j t)) (arr ! j)" if j: "j < length arr" for j
  proof -
    have old: "claimed j s \<le> visited s ! j" "visited s ! j \<le> 1"
      "varr s ! j = (d_sqrt fl ^^ nat (visited s ! j - claimed j s)) (arr ! j)"
      using inv j by (simp_all add: visit_cells_def)
    have c0: "0 \<le> claimed j s" by (simp add: claimed_def)
    have c1: "claims (vpc (visitors s ! i)) = Some j \<Longrightarrow> claimed j s = 1 \<and> visited s ! j = 1"
    proof -
      assume "claims (vpc (visitors s ! i)) = Some j"
      then have "0 < claimed j s" using i by (auto simp: claimed_def intro!: threads_in_pos)
      then show ?thesis using old by simp
    qed
    have "claimed j t = claimed j s - (if claims (vpc (visitors s ! i)) = Some j then 1 else 0) +
        (if claims (vpc (visitors t ! i)) = Some j then 1 else 0)"
      unfolding claimed_def by (subst local(7)) (rule threads_in_update [OF i])
    then show ?thesis using t i p j old c0 c1 len
      by (cases "vpc (visitors s ! i)")
        (auto simp: visit_defs placed_def nth_list_update split: option.splits if_splits)
  qed
  then show ?thesis using local(2,3) len by (simp add: visit_cells_def)
qed

lemma visit_count_step:
  assumes inv: "visit_count s" and p: "placed (length (visited s)) s (vpc (visitors s ! i))"
    and t: "visit_work fl lf rand_r i s = Some t" and i: "i < length (visitors s)"
  shows "visit_count t"
proof -
  note local = visit_work_local [OF t i]
  have "owing t = owing s - (if owes (vpc (visitors s ! i)) then 1 else 0) + (if owes (vpc (visitors t ! i)) then 1 else 0)"
    unfolding owing_def by (subst local(7)) (rule threads_in_update [OF i])
  moreover have "sum_list ((visited s)[j := 1]) = sum_list (visited s) + 1" if "j < length (visited s)" "visited s ! j = 0" for j
    using sum_list_cell [OF that(1)] that(2) by simp
  ultimately show ?thesis using inv t i p
    by (cases "vpc (visitors s ! i)")
      (auto simp: visit_defs placed_def visit_count_def split: option.splits if_splits)
qed

lemma sum_ones: "(\<And>j. j < length xs \<Longrightarrow> xs ! j \<le> (1::int)) \<Longrightarrow> sum_list xs \<le> int (length xs)"
proof (induction xs)
  case (Cons x xs)
  then show ?case using Cons.prems [of 0] Cons.IH Cons.prems [of "Suc _"] by force
qed simp

lemma owing_le_remaining: "visit_cells fl arr s \<Longrightarrow> visit_count s \<Longrightarrow> owing s \<le> remaining s"
  using sum_ones [of "visited s"] by (simp add: visit_cells_def visit_count_def)

lemma owing_pos: "i < length (visitors s) \<Longrightarrow> owes (vpc (visitors s ! i)) \<Longrightarrow> 0 < owing s"
  by (simp add: owing_def threads_in_pos)

lemma well_placed_cong:
  "visited t = visited s \<Longrightarrow> varr t = varr s \<Longrightarrow> remaining t = remaining s \<Longrightarrow> well_placed t p = well_placed s p"
  by (cases p) simp_all

lemma exclusive_cell:
  assumes "locks_protect ms inside ts" "b < length ms" "i < length ts" "k < length ts" "inside b (ts ! i)" "inside b (ts ! k)"
  shows "k = i"
  using protects_exclusive [OF locks_protectD [OF assms(1,2)] assms(4,3)] assms(5,6) by blast

lemma others_placed:
  assumes l: "locks_held s" "mutexes_found s" and c: "visit_cells fl arr s" "visit_count s"
    and t: "visit_work fl lf rand_r i s = Some t" and i: "i < length (visitors s)"
    and pi: "placed (length arr) s (vpc (visitors s ! i))"
    and k: "k < length (visitors s)" "k \<noteq> i" and pk: "well_placed s (vpc (visitors s ! k))"
  shows "well_placed t (vpc (visitors s ! k))"
proof -
  let ?pi = "vpc (visitors s ! i)" and ?pk = "vpc (visitors s ! k)"
  have rem: "protects (mx_remaining s) (\<lambda>t. in_count (vpc t)) (visitors s)"
    and vis: "locks_protect (mx_visited s) in_visited (visitors s)"
    and arr: "locks_protect (mx_arrs s) in_arr (visitors s)" using l(1) by (simp_all add: locks_held_def)
  consider (mark) j where "?pi = V_mark j" | (store) j x where "?pi = V_store j x" | (count) v where "?pi = V_count_store v"
    | (other) "visited t = visited s" "varr t = varr s" "remaining t = remaining s"
    using t i by (cases ?pi) (auto simp: visit_defs split: option.splits if_splits)
  then show ?thesis
  proof cases
    case mark
    have "?pk \<noteq> V_mark j"
    proof
      assume "?pk = V_mark j"
      moreover have "MUTEX_SIZE * j < length (mx_visited s)" using l(2) mark i by (auto simp: mutexes_found_def)
      ultimately have "k = i" using exclusive_cell [OF vis _ i k(1), of "MUTEX_SIZE * j"] mark by (simp add: in_visited_def)
      then show False using k by simp
    qed
    then show ?thesis using t mark i pk
      by (cases ?pk) (auto simp: visit_defs nth_list_update)
  next
    case store
    have ne: "l \<noteq> j" if "?pk = V_store l y" for l y
    proof
      assume "l = j"
      then have "?pk = V_store j y" using that by simp
      moreover have "MUTEX_SIZE * j < length (mx_arrs s)" using l(2) store i by (auto simp: mutexes_found_def)
      ultimately have "k = i" using exclusive_cell [OF arr _ i k(1), of "MUTEX_SIZE * j"] store by (simp add: in_arr_def)
      then show False using k by simp
    qed
    then show ?thesis using t store i pk
      by (cases ?pk) (auto simp: visit_defs)
  next
    case count
    have "0 < remaining s" using owing_pos [OF i] count owing_le_remaining [OF c] by simp
    moreover have "\<not> in_count ?pk" using protects_exclusive [OF rem k(1) i] k(2) count by auto
    ultimately show ?thesis using t count i pk
      by (cases ?pk) (auto simp: visit_defs)
  next
    case other
    then show ?thesis using pk well_placed_cong by blast
  qed
qed

lemma root_index_less: "0 < k \<Longrightarrow> root_index rand_r k x < k"
  by (simp add: root_index_def nat_less_iff)

lemma all_placed_step:
  assumes l: "locks_held s" "mutexes_found s" and c: "visit_cells fl arr s" "visit_count s" and ne: "arr \<noteq> []"
    and a: "all_placed (length arr) s" and t: "visit_work fl lf rand_r i s = Some t" and i: "i < length (visitors s)"
  shows "all_placed (length arr) t"
proof -
  note local = visit_work_local [OF t i]
  have pi: "placed (length arr) s (vpc (visitors s ! i))" using a i by (simp add: all_placed_def)
  have len: "length (varr s) = length arr" "length (visited s) = length arr" using c by (simp_all add: visit_cells_def)
  have "placed (length arr) t (vpc (visitors t ! i))"
    using t i pi len root_index_less [of "length arr"] ne
    by (cases "vpc (visitors s ! i)") (auto simp: visit_defs placed_def split: option.splits if_splits)
  moreover have "placed (length arr) t (vpc (visitors t ! k))" if "k < length (visitors s)" "k \<noteq> i" for k
    using others_placed [OF l c t i pi that] a that local(8) by (simp add: all_placed_def placed_def)
  ultimately show ?thesis using local(1) unfolding all_placed_def by metis
qed

definition visit_phase :: "'d doubles \<Rightarrow> ('d \<Rightarrow> byte list) \<Rightarrow> 'd list \<Rightarrow> 'd visits \<Rightarrow> bool" where
  "visit_phase fl lf arr s \<longleftrightarrow> (case vmain s of
       X_create i \<Rightarrow> i \<le> length (visitors s) \<and> (\<forall>k < length (visitors s). i \<le> k \<longrightarrow> vpc (visitors s ! k) = V_absent)
     | X_join i \<Rightarrow> i \<le> length (visitors s) \<and> (\<forall>k < i. vpc (visitors s ! k) = V_done)
     | X_print \<Rightarrow> \<forall>k < length (visitors s). vpc (visitors s ! k) = V_done
     | X_exit c \<Rightarrow> c = 0 \<longrightarrow> last (vout s) = print_arr lf (map (d_sqrt fl) arr) \<and>
         (\<forall>k < length (visitors s). vpc (visitors s ! k) = V_done))"

definition visit_inv :: "'d doubles \<Rightarrow> ('d \<Rightarrow> byte list) \<Rightarrow> 'd list \<Rightarrow> nat \<Rightarrow> 'd visits \<Rightarrow> bool" where
  "visit_inv fl lf arr n s \<longleftrightarrow> length (visitors s) = n \<and> length (mx_visited s) = n \<and> length (mx_arrs s) = n \<and>
     locks_held s \<and> mutexes_found s \<and> visit_cells fl arr s \<and> visit_count s \<and> all_placed (length arr) s \<and>
     visit_phase fl lf arr s \<and> (broken s \<longrightarrow> n \<le> MUTEX_SIZE * (length arr - 1))"

text \<open>When a thread has left, every element has been replaced once.\<close>

lemma all_replaced:
  assumes "visit_inv fl lf arr n s" "i < n" "vpc (visitors s ! i) = V_done"
  shows "varr s = map (d_sqrt fl) arr"
proof -
  have c: "visit_cells fl arr s" "visit_count s" and a: "all_placed (length arr) s" "length (visitors s) = n"
    using assms(1) by (simp_all add: visit_inv_def)
  then have "placed (length arr) s (vpc (visitors s ! i))" using assms(2) by (simp add: all_placed_def)
  then have r: "remaining s = 0" using assms(3) by (simp add: placed_def)
  have "0 \<le> owing s" by (simp add: owing_def)
  then have o: "owing s = 0" using owing_le_remaining [OF c] r by simp
  have le: "visited s ! j \<le> 1" if "j < length (visited s)" for j using c(1) that by (simp add: visit_cells_def)
  have all: "visited s ! j = 1" if j: "j < length (visited s)" for j
  proof (rule ccontr)
    assume "visited s ! j \<noteq> 1"
    then have "visited s ! j + 1 \<le> 1" using le [OF j] by simp
    then have "(visited s)[j := visited s ! j + 1] ! l \<le> 1" if "l < length (visited s)" for l
      using le [OF that] that by (cases "l = j") simp_all
    then have "sum_list ((visited s)[j := visited s ! j + 1]) \<le> int (length (visited s))"
      using sum_ones [of "(visited s)[j := visited s ! j + 1]"] by simp
    then show False using sum_list_cell [OF j] c(2) r o by (simp add: visit_count_def)
  qed
  have "claimed j s = 0" for j
  proof -
    have "claims (vpc t) = Some j \<Longrightarrow> owes (vpc t)" for t :: "'a visit_thread" by (cases "vpc t") auto
    then have "claimed j s \<le> owing s" unfolding claimed_def owing_def by (intro threads_in_mono) auto
    moreover have "0 \<le> claimed j s" by (simp add: claimed_def)
    ultimately show ?thesis using o by simp
  qed
  then show ?thesis using c(1) all by (auto simp: visit_cells_def intro!: nth_equalityI)
qed

lemma visit_thread_inv:
  assumes inv: "visit_inv fl lf arr n s" and ne: "arr \<noteq> []" and run: "visits_running s"
    and t: "visit_work fl lf rand_r i s = Some t" and i: "i < length (visitors s)"
  shows "visit_inv fl lf arr n t"
proof -
  note local = visit_work_local [OF t i]
  have l: "locks_held s" "mutexes_found s" and c: "visit_cells fl arr s" "visit_count s" and a: "all_placed (length arr) s"
    and n: "length (visitors s) = n" "length (mx_visited s) = n" "length (mx_arrs s) = n"
    using inv by (simp_all add: visit_inv_def)
  have len: "length (visited s) = length arr" using c by (simp add: visit_cells_def)
  have p: "placed (length arr) s (vpc (visitors s ! i))" using a i by (simp add: all_placed_def)
  have "locks_held t" using l(1) held_count [OF _ t i] held_visited [OF _ t i] held_arr [OF _ t i] by (simp add: locks_held_def)
  moreover have "visit_count t" using visit_count_step [OF c(2) _ t i] p len by simp
  moreover have "visit_phase fl lf arr t"
    using inv run local(1,6,8,9,10)
    by (auto simp: visit_inv_def visit_phase_def visits_running_def split: roots_pc.splits; metis)
  moreover have "n \<le> MUTEX_SIZE * (length arr - 1)" if br: "broken t"
  proof -
    have "\<not> broken s" using run by (auto simp: visits_running_def split: roots_pc.splits)
    then obtain j where j: "index_of (vpc (visitors s ! i)) = Some j" "n \<le> MUTEX_SIZE * j"
      using t br i n by (cases "vpc (visitors s ! i)") (auto simp: visit_defs split: option.splits if_splits)
    then have "j \<le> length arr - 1" using p by (auto simp: placed_def)
    then have "MUTEX_SIZE * j \<le> MUTEX_SIZE * (length arr - 1)" by (rule mult_le_mono2)
    with j(2) show ?thesis by (rule order_trans)
  qed
  ultimately show ?thesis
    using mutexes_found_step [OF l(2) t i] visit_cells_step [OF c(1) p t i] all_placed_step [OF l c ne a t i] n local
    by (simp add: visit_inv_def)
qed

lemma visit_main_inv:
  assumes inv: "visit_inv fl lf arr n s" and n: "0 < n" and t: "visit_main lf ok s = Some t" and run: "visits_running s"
  shows "visit_inv fl lf arr n t"
proof -
  have l: "length (visitors s) = n" and ph: "visit_phase fl lf arr s" using inv by (simp_all add: visit_inv_def)
  have same: "visit_inv fl lf arr n u"
    if "visitors u = visitors s" "varr u = varr s" "visited u = visited s" "remaining u = remaining s"
      "mx_remaining u = mx_remaining s" "mx_visited u = mx_visited s" "mx_arrs u = mx_arrs s" "broken u = broken s"
      "visit_phase fl lf arr u" for u
  proof -
    have "placed (length arr) u p = placed (length arr) s p" for p
      using that well_placed_cong [of u s p] by (simp add: placed_def)
    then have "locks_held u = locks_held s" "mutexes_found u = mutexes_found s" "visit_cells fl arr u = visit_cells fl arr s"
      "visit_count u = visit_count s" "all_placed (length arr) u = all_placed (length arr) s"
      using that(1-7) by (simp_all add: locks_held_def mutexes_found_def visit_cells_def visit_count_def claimed_def owing_def all_placed_def)
    then show ?thesis using inv that by (simp add: visit_inv_def)
  qed
  have create: "visit_inv fl lf arr n u"
    if u: "vmain s = X_create i" "i < n" "u = s\<lparr>vmain := X_create (i + 1), visitors := (visitors s)[i := (visitors s ! i)\<lparr>vpc := V_first\<rparr>]\<rparr>" for i u
  proof -
    have a: "vpc (visitors s ! i) = V_absent" using ph u l by (simp add: visit_phase_def)
    have w: "well_placed u p = well_placed s p" for p using u(3) by (intro well_placed_cong) simp_all
    have "locks_held u" using inv u l a
      by (auto simp: visit_inv_def locks_held_def in_visited_def in_arr_def protects_rules locks_rules)
    moreover have "mutexes_found u" using inv u l by (auto simp: visit_inv_def mutexes_found_def nth_list_update)
    moreover have "claimed j u = claimed j s" "owing u = owing s" for j
      using u l a by (simp_all add: claimed_def owing_def threads_in_update)
    moreover have "all_placed (length arr) u" using inv u l w by (auto simp: visit_inv_def all_placed_def placed_def nth_list_update)
    moreover have "visit_phase fl lf arr u" using ph u l by (auto simp: visit_phase_def nth_list_update)
    ultimately show ?thesis using inv u by (simp add: visit_inv_def visit_cells_def visit_count_def)
  qed
  show ?thesis
  proof (cases "vmain s")
    case (X_create i)
    then show ?thesis using t ph create [OF X_create]
      by (auto simp: visit_main_def l Let_def visit_phase_def split: if_splits intro!: same)
  next
    case (X_join i)
    then show ?thesis using t ph
      by (auto simp: visit_main_def l Let_def visit_phase_def less_Suc_eq split: if_splits intro!: same)
  next
    case X_print
    then have "vpc (visitors s ! 0) = V_done" using ph l n by (simp add: visit_phase_def)
    from all_replaced [OF inv n this] show ?thesis using t ph X_print
      by (auto simp: visit_main_def l Let_def visit_phase_def intro!: same)
  next
    case (X_exit c)
    then show ?thesis using t by (simp add: visit_main_def Let_def)
  qed
qed

lemma visit_step_inv:
  assumes "visit_inv fl lf arr n s" "arr \<noteq> []" "0 < n" "visit_step fl lf rand_r s t"
  shows "visit_inv fl lf arr n t"
proof -
  obtain ok a where act: "visit_act fl lf rand_r ok a s = Some t" using assms(4) by (auto simp: visit_step_def)
  show ?thesis
  proof (cases a)
    case None
    then show ?thesis using act visit_main_inv [OF assms(1,3)] by (auto simp: visit_act_def split: if_splits)
  next
    case (Some i)
    then show ?thesis using act visit_thread_inv [OF assms(1,2)] by (auto simp: visit_act_def split: if_splits)
  qed
qed

definition visit_init :: "'d list \<Rightarrow> 32 word list \<Rightarrow> 'd visits \<Rightarrow> bool" where
  "visit_init arr seeds s \<longleftrightarrow> s = visit_start arr seeds \<and> arr \<noteq> [] \<and> seeds \<noteq> []"

lemma visit_start_inv: "visit_inv fl lf arr (length seeds) (visit_start arr seeds)"
proof -
  have "threads_in P (map (\<lambda>x. \<lparr>vpc = V_absent, vseed = x\<rparr>) seeds) = 0" if "\<And>x. \<not> P \<lparr>vpc = V_absent, vseed = x\<rparr>" for P :: "'a visit_thread \<Rightarrow> bool"
    by (rule threads_in_zero) (use that in auto)
  then show ?thesis
    by (auto simp: visit_inv_def visit_start_def locks_held_def mutexes_found_def visit_cells_def visit_count_def all_placed_def
        placed_def visit_phase_def claimed_def owing_def fill_arr_zero_def in_visited_def in_arr_def locks_protect_def protects_def
        sum_list_replicate)
qed

definition visit_ok :: "'d doubles \<Rightarrow> ('d \<Rightarrow> byte list) \<Rightarrow> 'd list \<Rightarrow> 32 word list \<Rightarrow> 'd visits \<Rightarrow> bool" where
  "visit_ok fl lf arr seeds s \<longleftrightarrow> visit_inv fl lf arr (length seeds) s \<and> arr \<noteq> [] \<and> seeds \<noteq> []"

interpretation visit_runs: inv_system "visit_init arr seeds" "visit_step fl lf rand_r" "visit_ok fl lf arr seeds"
  for fl lf rand_r arr seeds
  by unfold_locales (use visit_start_inv visit_step_inv in \<open>fastforce simp: visit_init_def visit_ok_def\<close>)+

text \<open>
  Property C20. In every run of the program, for every square root function and every source of
  random numbers: an element is the old one or its root, never anything else, at every moment;
  what remains is the number of elements not yet replaced, as far as they have been counted; when
  \<open>main\<close> ends normally it prints the array of all the roots. A mutex outside its array is used only
  when there are at most 40 (k - 1) threads for k elements.
\<close>

theorem visits_each_once:
  assumes "(visit_step fl lf rand_r)\<^sup>*\<^sup>* (visit_start arr seeds) s" "arr \<noteq> []" "seeds \<noteq> []"
  shows "(\<forall>j < length arr. varr s ! j = arr ! j \<or> varr s ! j = d_sqrt fl (arr ! j)) \<and>
    remaining s = int (length (filter (\<lambda>v. v = 0) (visited s))) + int (length (filter (\<lambda>t. owes (vpc t)) (visitors s))) \<and>
    (vmain s = X_exit 0 \<longrightarrow> last (vout s) = print_arr lf (map (d_sqrt fl) arr)) \<and>
    (broken s \<longrightarrow> length seeds \<le> 40 * (length arr - 1))"
proof -
  have inv: "visit_inv fl lf arr (length seeds) s"
    using visit_runs.inv_reachable [of arr seeds _ fl lf rand_r s] assms by (simp add: visit_init_def visit_ok_def)
  then have c: "visit_cells fl arr s" "visit_count s" by (simp_all add: visit_inv_def)
  have cell: "visited s ! j = 0 \<or> visited s ! j = 1" "varr s ! j = arr ! j \<or> varr s ! j = d_sqrt fl (arr ! j)"
    if "j < length arr" for j
  proof -
    have "0 \<le> claimed j s" "claimed j s \<le> visited s ! j" "visited s ! j \<le> 1"
      and v: "varr s ! j = (d_sqrt fl ^^ nat (visited s ! j - claimed j s)) (arr ! j)"
      using c(1) that by (simp_all add: visit_cells_def claimed_def)
    then have d: "nat (visited s ! j - claimed j s) = 0 \<or> nat (visited s ! j - claimed j s) = 1" "0 \<le> visited s ! j" by linarith+
    show "visited s ! j = 0 \<or> visited s ! j = 1" using d(2) \<open>visited s ! j \<le> 1\<close> by linarith
    show "varr s ! j = arr ! j \<or> varr s ! j = d_sqrt fl (arr ! j)" using d(1) v by auto
  qed
  have unvisited: "int (length xs) - sum_list xs = int (length (filter (\<lambda>v. v = 0) xs))"
    if "\<And>j. j < length xs \<Longrightarrow> xs ! j = 0 \<or> xs ! j = (1::int)" for xs
    using that
  proof (induction xs)
    case (Cons x xs)
    have "xs ! j = 0 \<or> xs ! j = 1" if "j < length xs" for j using Cons.prems [of "Suc j"] that by simp
    then show ?case using Cons.IH Cons.prems [of 0] by auto
  qed simp
  have "int (length (visited s)) - sum_list (visited s) = int (length (filter (\<lambda>v. v = 0) (visited s)))"
    by (rule unvisited) (use c(1) cell(1) in \<open>simp add: visit_cells_def\<close>)
  then have "remaining s = int (length (filter (\<lambda>v. v = 0) (visited s))) + int (length (filter (\<lambda>t. owes (vpc t)) (visitors s)))"
    using c(2) by (simp add: visit_count_def owing_def threads_in_def)
  then show ?thesis using inv cell(2) by (auto simp: visit_inv_def visit_phase_def MUTEX_SIZE_def)
qed

lemma visit_run:
  "run_schedule (visit_act fl lf rand_r True) as s = Some t \<Longrightarrow> (visit_step fl lf rand_r)\<^sup>*\<^sup>* s t"
  by (erule run_schedule_steps) (auto simp: visit_step_def)

text \<open>The instance: two threads and one element; the second thread finds it taken.\<close>

definition visit_schedule :: "thread_id list" where
  "visit_schedule = replicate 3 None @ replicate 5 (Some 1) @ replicate 9 (Some 0) @ replicate 3 (Some 1) @
     replicate 13 (Some 0) @ replicate 3 (Some 1) @ replicate 4 None"

theorem visits_each_once_witness:
  "\<exists>s. (visit_step half_doubles fmt_d (\<lambda>x. (uint x, x)))\<^sup>*\<^sup>* (visit_start [100] [3, 4]) s \<and> vmain s = X_exit 0 \<and>
     last (vout s) = print_arr fmt_d (map (d_sqrt half_doubles) [100]) \<and> last (vout s) = str ''[ 50 ]'' @ [10]"
proof -
  let ?run = "run_schedule (visit_act half_doubles fmt_d (\<lambda>x. (uint x, x)) True) visit_schedule (visit_start [100] [3, 4])"
  have "map_option (\<lambda>s. (vmain s, last (vout s))) ?run = Some (X_exit 0, str ''[ 50 ]'' @ [10])" by code_simp
  then obtain s where s: "?run = Some s" "vmain s = X_exit 0" "last (vout s) = str ''[ 50 ]'' @ [10]" by auto
  from visits_each_once [OF visit_run [OF s(1)]] s(2,3) visit_run [OF s(1)] show ?thesis by blast
qed

text \<open>With as many elements as threads the first draw of element 1 leaves the array of mutexes.\<close>

lemma visit_breaks:
  "map_option broken (run_schedule (visit_act half_doubles fmt_d (\<lambda>x. (uint x, x)) True)
     (replicate 3 None @ replicate 6 (Some 0)) (visit_start [100, 80] [1, 2])) = Some True"
  by code_simp

section \<open>The set-up\<close>

lemma visits_setup_ok:
  "wp (visits_setup fl lf argv) (\<lambda>s w1. \<exists>arr seeds. s = visit_start arr seeds \<and> arr \<noteq> [] \<and> seeds \<noteq> [])
     (\<lambda>h w1. orderly h \<or> h = Undef) w"
proof -
  have mutexes: "wp (init_mutexes n) Q (\<lambda>h w1. orderly h \<or> h = Undef) v" if "\<And>w1. Q () w1" for n Q and v :: "'a world"
  proof -
    have "wp (for_m [0..<nat n] (\<lambda>i _. bind_m (sys SYS_mutex_init [int i] [] pthread_ok) (\<lambda>r.
       if r_val r \<noteq> 0 then err_exit ''pthread_mutex_init'' else ret ())) ()) Q (\<lambda>h w1. orderly h \<or> h = Undef) v" for v :: "'a world"
      by (rule wp_for [where I = "\<lambda>xs u w. True"]) (auto simp: wp_rules that intro!: wp_roots_sys)
    then show ?thesis unfolding init_mutexes_def by (auto simp: wp_rules intro!: wp_roots_sys)
  qed
  have some: "\<exists>arr seeds. visit_start a b = visit_start arr seeds \<and> arr \<noteq> [] \<and> seeds \<noteq> []" if "a \<noteq> []" "b \<noteq> []" for a b
    using that by blast
  show ?thesis
    unfolding visits_setup_def init_arr_def init_arr_i_def wp_bind split_beta
    by (rule wp_read_args_roots, auto simp: wp_rules intro!: wp_fill_arr_rand wp_draw_seeds mutexes wp_roots_sys some)
qed

end
