(* ===== verification/SignalTally.thy ===== *)
theory SignalTally
  imports SignalCount
begin

text \<open>
  \<open>Lab2/test.c\<close>: every child sends SIGUSR1 to its parent after short sleeps, without end; the
  parent, which has SIGUSR1 blocked outside \<open>sigsuspend\<close>, counts a hundred of them, ends the
  children with SIGUSR2 and waits for them, while a handler of SIGCHLD reaps them too.
\<close>

section \<open>State\<close>

definition TALLY_GOAL :: nat where "TALLY_GOAL = 100"

text \<open>
  A child: its next call, or SIGUSR2 has been sent to it, which it does not handle; ended and
  not yet reaped; reaped.
\<close>

datatype teller = L_sleep | L_kill | L_doomed | L_zombie | L_gone

text \<open>
  The parent: at \<open>T_waiting\<close> it is blocked in \<open>wait\<close>, at \<open>T_interrupted\<close> a handler has interrupted
  it there; \<open>T_killed\<close> is the group killed by \<open>ERR\<close>.
\<close>

datatype tally_pc =
    T_fork nat | T_reset | T_suspend | T_count | T_print | T_test | T_mask | T_kill
  | T_wait | T_waiting | T_interrupted | T_exit int | T_killed

record tally =
  tellers :: "teller list"
  tpc :: tally_pc
  tlast :: nat
  usr1_pending :: bool
  usr2_blocked :: bool
  child_pending :: bool
  in_handler :: bool
  tcount :: nat
  tsent :: nat
  tlines :: "nat list"

section \<open>The processes\<close>

text \<open>
  \<open>child_work\<close> of child \<open>i\<close>; \<open>ok\<close> is whether \<open>kill\<close> succeeds. The signal is blocked in the parent,
  so it becomes pending, once.
\<close>

definition teller_work :: "bool \<Rightarrow> nat \<Rightarrow> tally \<Rightarrow> tally option" where
  "teller_work ok i s =
     (case tellers s ! i of
        L_sleep \<Rightarrow> Some (s\<lparr>tellers := (tellers s)[i := L_kill]\<rparr>)
      | L_kill \<Rightarrow> Some (if ok then s\<lparr>tellers := (tellers s)[i := L_sleep], usr1_pending := True, tsent := tsent s + 1\<rparr>
          else s\<lparr>tpc := T_killed\<rparr>)
      | L_doomed \<Rightarrow> Some (s\<lparr>tellers := (tellers s)[i := L_zombie], child_pending := True\<rparr>)
      | _ \<Rightarrow> None)"

text \<open>SIGCHLD is not blocked: its handler may start at any moment.\<close>

definition tally_deliver :: "tally \<Rightarrow> tally option" where
  "tally_deliver s =
     (if child_pending s \<and> \<not> in_handler s
      then Some (s\<lparr>child_pending := False, in_handler := True, tpc := (if tpc s = T_waiting then T_interrupted else tpc s)\<rparr>)
      else None)"

text \<open>\<open>sigchld_handler\<close>: it reaps the ended children, \<open>j\<close> next, and returns when there is none.\<close>

definition tally_sigchld_handler :: "nat \<Rightarrow> tally \<Rightarrow> tally option" where
  "tally_sigchld_handler j s =
     (if \<not> in_handler s then None
      else if L_zombie \<notin> set (tellers s) then Some (s\<lparr>in_handler := False\<rparr>)
      else if j < length (tellers s) \<and> tellers s ! j = L_zombie then Some (s\<lparr>tellers := (tellers s)[j := L_gone]\<rparr>)
      else None)"

definition tally_sig_handler :: "nat \<Rightarrow> nat \<Rightarrow> nat" where
  "tally_sig_handler sig last_sig = sig"

definition create_tellers :: "bool \<Rightarrow> tally \<Rightarrow> tally option" where
  "create_tellers ok s =
     (case tpc s of
        T_fork n \<Rightarrow> Some (
          if n = 0 then s\<lparr>tpc := T_reset\<rparr>
          else if ok then s\<lparr>tpc := T_fork (n - 1), tellers := tellers s @ [L_sleep]\<rparr>
          else s\<lparr>tpc := T_killed\<rparr>)
      | _ \<Rightarrow> None)"

text \<open>
  \<open>parent_work\<close>: the inner loop leaves when \<open>last_signal\<close> is SIGUSR1; \<open>sigsuspend\<close> runs the handler
  of a pending SIGUSR1 before it returns.
\<close>

definition tally_parent_work :: "tally \<Rightarrow> tally option" where
  "tally_parent_work s =
     (case tpc s of
        T_reset \<Rightarrow> Some (s\<lparr>tlast := 0, tpc := T_suspend\<rparr>)
      | T_suspend \<Rightarrow>
          (if tlast s = SIGUSR1 then Some (s\<lparr>tpc := T_count\<rparr>)
           else if usr1_pending s then Some (s\<lparr>tlast := tally_sig_handler SIGUSR1 (tlast s), usr1_pending := False\<rparr>)
           else None)
      | T_count \<Rightarrow> Some (s\<lparr>tcount := tcount s + 1, tpc := T_print\<rparr>)
      | T_print \<Rightarrow> Some (s\<lparr>tlines := tlines s @ [tcount s], tpc := T_test\<rparr>)
      | T_test \<Rightarrow> Some (s\<lparr>tpc := (if TALLY_GOAL \<le> tcount s then T_mask else T_reset)\<rparr>)
      | _ \<Rightarrow> None)"

text \<open>
  The rest of \<open>main\<close>. \<open>kill(0, SIGUSR2)\<close> reaches the children, and the parent itself, which it would
  end, had it not just blocked the signal. \<open>wait\<close> reaps child \<open>j\<close>, fails when there are no children, or blocks.
\<close>

definition doom :: "teller \<Rightarrow> teller" where
  "doom t = (if t = L_sleep \<or> t = L_kill then L_doomed else t)"

definition tally_main :: "bool \<Rightarrow> nat \<Rightarrow> tally \<Rightarrow> tally option" where
  "tally_main ok j s =
     (case tpc s of
        T_mask \<Rightarrow> Some (s\<lparr>usr2_blocked := True, tpc := T_kill\<rparr>)
      | T_kill \<Rightarrow> Some (if ok \<and> usr2_blocked s then s\<lparr>tellers := map doom (tellers s), tpc := T_wait\<rparr> else s\<lparr>tpc := T_killed\<rparr>)
      | T_wait \<Rightarrow>
          (if L_zombie \<in> set (tellers s) then
             if j < length (tellers s) \<and> tellers s ! j = L_zombie then Some (s\<lparr>tellers := (tellers s)[j := L_gone]\<rparr>) else None
           else Some (s\<lparr>tpc := (if \<forall>t \<in> set (tellers s). t = L_gone then T_exit 0 else T_waiting)\<rparr>))
      | T_waiting \<Rightarrow>
          (if (j < length (tellers s) \<and> tellers s ! j = L_zombie) then Some (s\<lparr>tellers := (tellers s)[j := L_gone], tpc := T_wait\<rparr>)
           else None)
      | T_interrupted \<Rightarrow> Some (s\<lparr>tpc := T_exit 0\<rparr>)
      | T_exit c \<Rightarrow> None
      | T_killed \<Rightarrow> None
      | _ \<Rightarrow> (case create_tellers ok s of Some t \<Rightarrow> Some t | None \<Rightarrow> tally_parent_work s))"

section \<open>Runs\<close>

definition tally_start :: "nat \<Rightarrow> tally" where
  "tally_start n = \<lparr>tellers = [], tpc = T_fork n, tlast = 0, usr1_pending = False, usr2_blocked = False,
     child_pending = False, in_handler = False, tcount = 0, tsent = 0, tlines = []\<rparr>"

datatype tally_action = W_main bool nat | W_child bool nat | W_deliver | W_reap nat

text \<open>The main program stands still while the handler runs.\<close>

definition tally_over :: "tally_pc \<Rightarrow> bool" where
  "tally_over p = (case p of T_exit c \<Rightarrow> True | T_killed \<Rightarrow> True | _ \<Rightarrow> False)"

lemma tally_over_iff [simp]: "tally_over p \<longleftrightarrow> p = T_killed \<or> (\<exists>c. p = T_exit c)"
  by (cases p) (simp_all add: tally_over_def)

definition tally_act :: "tally_action \<Rightarrow> tally \<Rightarrow> tally option" where
  "tally_act a s =
     (if tally_over (tpc s) then None
      else case a of
        W_main ok j \<Rightarrow> if in_handler s then None else tally_main ok j s
      | W_child ok i \<Rightarrow> if i < length (tellers s) then teller_work ok i s else None
      | W_deliver \<Rightarrow> tally_deliver s
      | W_reap j \<Rightarrow> tally_sigchld_handler j s)"


section \<open>The invariant\<close>

definition ended :: "teller \<Rightarrow> bool" where
  "ended t \<longleftrightarrow> t \<noteq> L_sleep \<and> t \<noteq> L_kill"

definition after_kill :: "tally_pc \<Rightarrow> bool" where
  "after_kill p \<longleftrightarrow> p = T_wait \<or> p = T_waiting \<or> p = T_interrupted \<or> (\<exists>c. p = T_exit c)"






lemma ended_simps [simp]: "\<not> ended L_sleep" "\<not> ended L_kill" "ended L_doomed" "ended L_zombie" "ended L_gone" "ended (doom t)"
  by (simp_all add: ended_def doom_def)

lemma doomed_ended [simp]: "list_all ended (map doom ts)"
  by (induction ts) simp_all

lemma after_kill_simps [simp]: "after_kill T_wait" "after_kill T_waiting" "after_kill T_interrupted" "after_kill (T_exit c)"
  "\<not> after_kill (T_fork n)" "\<not> after_kill T_reset" "\<not> after_kill T_suspend" "\<not> after_kill T_count" "\<not> after_kill T_print"
  "\<not> after_kill T_test" "\<not> after_kill T_mask" "\<not> after_kill T_kill" "\<not> after_kill T_killed"
  by (simp_all add: after_kill_def)








section \<open>Reaching the end\<close>






























text \<open>
  A handler that interrupts \<open>wait\<close> ends the loop around it: of two children one is reaped, the
  other is left.
\<close>

lemma tally_leaves_child:
  "map_option (\<lambda>t. (tellers t, tpc t)) (run_schedule tally_act [W_main True 0, W_main True 0, W_child True 0, W_deliver, W_reap 0, W_reap 0, W_main True 0]
     ((tally_start 2)\<lparr>tpc := T_kill, usr2_blocked := True, tellers := [L_sleep, L_kill], tcount := 100\<rparr>)) =
   Some ([L_gone, L_doomed], T_exit 0)"
  by code_simp

text \<open>Two SIGUSR1 that are pending together count once.\<close>

lemma tally_merges:
  "map_option (\<lambda>t. (tsent t, usr1_pending t, tcount t)) (run_schedule tally_act
     ([W_main True 0, W_main True 0] @ replicate 4 (W_child True 0) @ replicate 4 (W_main True 0)) (tally_start 1)) =
   Some (2, False, 1)"
  by code_simp

section \<open>The set-up\<close>

definition tally_usage :: "byte list \<Rightarrow> ('g, 'a) prog" where
  "tally_usage name = bind_m (eprintf (str ''USAGE: '' @ name @ str '' 0<n'' @ [10])) (\<lambda>_. halt_m (Exit 1))"

text \<open>\<open>main\<close> up to \<open>create_children\<close>.\<close>

definition tally_setup :: "byte list list \<Rightarrow> (int, int) prog" where
  "tally_setup argv =
     bind_m (if length argv \<noteq> 2 then tally_usage (argv ! 0) else ret ()) (\<lambda>_.
     let n = atoi (argv ! 1) in
     if n \<le> 0 then tally_usage (argv ! 0)
     else bind_m (rounds_sethandler (Handler rounds_reaps) SIGCHLD) (\<lambda>_.
     bind_m (rounds_sethandler (Handler count_sig_handler) SIGUSR1) (\<lambda>_.
     bind_m (sigprocmask_block [SIGUSR1]) (\<lambda>oldmask. ret n))))"

text \<open>\<open>child_work\<close> up to its loop: the nanoseconds of its sleeps.\<close>

definition teller_start :: "('g, int) prog" where
  "teller_start =
     bind_m (sys SYS_time [] [] any_ok) (\<lambda>t. bind_m (sys SYS_getpid [] [] any_ok) (\<lambda>p.
     bind_m (sys SYS_srand [r_val t * r_val p] [] any_ok) (\<lambda>_.
     bind_m rand_m (\<lambda>v. ret (100 + v mod 101)))))"

text \<open>The children are created with SIGUSR1 blocked, and they sleep between 100 and 200 nanoseconds.\<close>

lemma tally_setup_ok:
  "wp (tally_setup argv) (\<lambda>n w1. 0 < n \<and> SIGUSR1 \<in> set (sigmask w1)) (\<lambda>h w1. True) w"
proof -
  have call: "wp (sys n a p good) Q (\<lambda>h w1. True) v"
    if "\<And>r w1. good r \<Longrightarrow> Q r w1" for n a p good Q and v :: "int world"
    by (rule wp_sys) (use that in auto)
  show ?thesis
    by (auto simp: tally_setup_def tally_usage_def rounds_sethandler_def sys_sigaction_def sigprocmask_block_def wp_rules wp_pure Let_def
      intro!: call)
qed

lemma teller_start_range: "wp teller_start (\<lambda>s w1. s \<in> {100..200}) (\<lambda>h w1. True) (w :: 'g world)"
proof -
  have range: "100 \<le> 100 + v mod 101" "100 + v mod 101 \<le> 200" for v :: int
    using pos_mod_bound [of 101 v] pos_mod_sign [of 101 v] by simp_all
  show ?thesis unfolding teller_start_def rand_m_def by (auto simp: wp_rules range simp del: add_le_cancel_left intro!: wp_sys_any)
qed

end
