(* ===== verification/AlterBlocks.thy ===== *)
theory AlterBlocks
  imports Threads BlockReverse
begin

text \<open>
  \<open>Lab4/test.c\<close>: a file is read in n blocks and a remainder by asynchronous requests; when a
  request ends, a notification thread of the library blanks everything but letters and newlines in
  the buffer, writes it back and sends SIGIO to the main thread, which waits for it in
  \<open>sigsuspend\<close>. Here the file is part of the state, and main thread, kernel and notification
  thread take turns.
\<close>

section \<open>The alteration\<close>

definition alter_char :: "byte \<Rightarrow> byte" where
  "alter_char c = (if \<not> ((65 \<le> c \<and> c \<le> 90) \<or> (97 \<le> c \<and> c \<le> 122) \<or> c = 10) then 32 else c)"

text \<open>The loop of \<open>alter_block\<close>; \<open>None\<close>: it has left the buffer.\<close>

function alter_loop :: "nat \<Rightarrow> nat \<Rightarrow> byte list \<Rightarrow> byte list option" where
  "alter_loop i blocksize buffer =
     (if i = blocksize then Some buffer
      else if i < length buffer then alter_loop (i + 1) blocksize (buffer[i := alter_char (buffer ! i)])
      else None)"
  by pat_completeness auto
termination by (relation "measure (\<lambda>(i, n, b). length b - i)") auto

declare alter_loop.simps [simp del]

definition alter_block :: "byte list \<Rightarrow> nat \<Rightarrow> byte list option" where
  "alter_block buffer blocksize = alter_loop 0 blocksize buffer"

section \<open>State\<close>

datatype aio_request = R_none | R_reading | R_done bool

text \<open>
  \<open>aio_notify_function\<close>: its output before and after the alteration, the seek, the write, the
  output of the count, and the signal.
\<close>

datatype notifier = N_idle | N_before | N_alter | N_after | N_seek | N_write | N_count int | N_kill

text \<open>\<open>main\<close>: the turn of block \<open>i\<close>; the remainder is the turn after the last block.\<close>

datatype alter_pc =
    M_head nat | M_submit nat | M_loop nat | M_await nat | M_next nat | M_exit int | M_undef

record alter =
  afile :: "byte list"
  fpos :: nat
  abuf :: "byte list"
  aio_off :: nat
  aio_nbytes :: nat
  areq :: aio_request
  ta_offset :: nat
  ta_blocksize :: nat
  notifier :: notifier
  sigio_rec :: bool
  sigio_pending :: bool
  apc :: alter_pc
  aout :: "byte list list"

section \<open>The steps\<close>

text \<open>The kernel ends a read: a regular file gives the bytes that are there. The notification thread starts in either case.\<close>

definition overwrite :: "byte list \<Rightarrow> nat \<Rightarrow> byte list \<Rightarrow> byte list" where
  "overwrite xs p ys = take p xs @ ys @ drop (p + length ys) xs"

definition aio_end :: "bool \<Rightarrow> alter \<Rightarrow> alter option" where
  "aio_end ok s =
     (if areq s \<noteq> R_reading then None
      else let data = take (aio_nbytes s) (drop (aio_off s) (afile s)) in
        if ok \<and> length (abuf s) < length data then Some (s\<lparr>apc := M_undef\<rparr>)
        else Some (s\<lparr>areq := R_done ok, abuf := (if ok then overwrite (abuf s) 0 data else abuf s), notifier := N_before\<rparr>))"

text \<open>\<open>aio_notify_function\<close>; \<open>w\<close> is the answer to \<open>write\<close>.\<close>

definition aio_notify :: "int \<Rightarrow> alter \<Rightarrow> alter option" where
  "aio_notify w s =
     (case notifier s of
        N_idle \<Rightarrow> None
      | N_before \<Rightarrow> Some (
          if ta_blocksize s \<le> length (abuf s)
          then s\<lparr>aout := aout s @ [str ''Inital state:'' @ [10] @ take (ta_blocksize s) (abuf s)], notifier := N_alter\<rparr>
          else s\<lparr>apc := M_undef\<rparr>)
      | N_alter \<Rightarrow> Some (case alter_block (abuf s) (ta_blocksize s) of
            None \<Rightarrow> s\<lparr>apc := M_undef\<rparr> | Some b \<Rightarrow> s\<lparr>abuf := b, notifier := N_after\<rparr>)
      | N_after \<Rightarrow> Some (s\<lparr>aout := aout s @ [[10] @ str ''Altered block:'' @ [10] @ take (ta_blocksize s) (abuf s) @ [10]], notifier := N_seek\<rparr>)
      | N_seek \<Rightarrow> Some (s\<lparr>fpos := ta_offset s, notifier := N_write\<rparr>)
      | N_write \<Rightarrow>
          if w = -1 then Some (s\<lparr>apc := M_exit 1\<rparr>)
          else if 0 \<le> w \<and> w \<le> int (ta_blocksize s)
          then Some (s\<lparr>afile := overwrite (afile s) (fpos s) (take (nat w) (abuf s)), fpos := fpos s + nat w, notifier := N_count w\<rparr>)
          else None
      | N_count v \<Rightarrow> Some (s\<lparr>aout := aout s @ [fmt_d v @ [10]], notifier := N_kill\<rparr>)
      | N_kill \<Rightarrow> Some (s\<lparr>sigio_pending := True, notifier := N_idle\<rparr>))"

definition sigio_handler :: "bool \<Rightarrow> bool" where
  "sigio_handler r = True"

text \<open>
  The loop of \<open>main\<close> and the remainder, with n blocks of \<open>bs\<close> bytes and \<open>rs\<close> at the end; the answer of
  \<open>aio_read\<close> is not tested. SIGIO is blocked but for \<open>sigsuspend\<close>, which runs its handler.
\<close>

definition next_block :: "nat \<Rightarrow> alter \<Rightarrow> alter" where
  "next_block blocksize s = s\<lparr>aio_off := aio_off s + blocksize, ta_offset := ta_offset s + blocksize\<rparr>"

definition alter_main :: "nat \<Rightarrow> nat \<Rightarrow> nat \<Rightarrow> bool \<Rightarrow> alter \<Rightarrow> alter option" where
  "alter_main n bs rs ok s =
     (case apc s of
        M_head i \<Rightarrow> Some (
          if i < n then s\<lparr>aout := aout s @ [str ''Block '' @ fmt_d (int i) @ [10]], apc := M_submit i\<rparr>
          else s\<lparr>aout := aout s @ [str ''Remainder'' @ [10]], aio_nbytes := rs, ta_blocksize := rs, apc := M_submit i\<rparr>)
      | M_submit i \<Rightarrow> Some (s\<lparr>areq := (if ok then R_reading else R_none), apc := M_loop i\<rparr>)
      | M_loop i \<Rightarrow>
          if sigio_rec s then Some (s\<lparr>apc := M_await i\<rparr>)
          else if sigio_pending s then Some (s\<lparr>sigio_rec := sigio_handler (sigio_rec s), sigio_pending := False\<rparr>)
          else None
      | M_await i \<Rightarrow> (case areq s of
            R_done good \<Rightarrow> Some (s\<lparr>apc := (if ok \<and> good then M_next i else M_exit 1)\<rparr>)
          | _ \<Rightarrow> None)
      | M_next i \<Rightarrow> Some (
          if i < n then (next_block bs (s\<lparr>sigio_rec := False\<rparr>))\<lparr>apc := M_head (i + 1)\<rparr>
          else s\<lparr>apc := M_exit 0\<rparr>)
      | _ \<Rightarrow> None)"

definition alter_start :: "byte list \<Rightarrow> nat \<Rightarrow> alter" where
  "alter_start file bs = \<lparr>afile = file, fpos = 0, abuf = replicate bs 0, aio_off = 0, aio_nbytes = bs, areq = R_none,
     ta_offset = 0, ta_blocksize = bs, notifier = N_idle, sigio_rec = False, sigio_pending = False, apc = M_head 0, aout = []\<rparr>"

datatype alter_action = Al_main bool | Al_end bool | Al_notify int

definition alter_act :: "nat \<Rightarrow> nat \<Rightarrow> nat \<Rightarrow> alter_action \<Rightarrow> alter \<Rightarrow> alter option" where
  "alter_act n bs rs a s =
     (case apc s of M_exit c \<Rightarrow> None | M_undef \<Rightarrow> None
      | _ \<Rightarrow> (case a of Al_main ok \<Rightarrow> alter_main n bs rs ok s | Al_end ok \<Rightarrow> aio_end ok s | Al_notify w \<Rightarrow> aio_notify w s))"



section \<open>Lists\<close>



lemma alter_block_leaves:
  "length b < k \<Longrightarrow> alter_block b k = None"
proof -
  have "i \<le> length b \<Longrightarrow> length b < k \<Longrightarrow> alter_loop i k b = None" for i b
    by (induction i k b rule: alter_loop.induct) (subst alter_loop.simps, auto)
  then show "length b < k \<Longrightarrow> alter_block b k = None" by (simp add: alter_block_def)
qed




section \<open>The invariant\<close>
























section \<open>Reaching the end\<close>

fun notifier_weight :: "notifier \<Rightarrow> nat" where
  "notifier_weight N_before = 16" | "notifier_weight N_alter = 15" | "notifier_weight N_after = 14" | "notifier_weight N_seek = 13"
| "notifier_weight N_write = 12" | "notifier_weight (N_count v) = 11" | "notifier_weight N_kill = 10" | "notifier_weight N_idle = 17"

definition alter_mu :: "nat \<Rightarrow> alter \<Rightarrow> nat" where
  "alter_mu n s = (case apc s of
      M_head i \<Rightarrow> 20 * (n + 1 - i) + 19 | M_submit i \<Rightarrow> 20 * (n + 1 - i) + 18
    | M_loop i \<Rightarrow> 20 * (n + 1 - i) + (if sigio_rec s then 8 else if sigio_pending s then 9 else notifier_weight (notifier s))
    | M_await i \<Rightarrow> 20 * (n + 1 - i) + 7 | M_next i \<Rightarrow> 20 * (n + 1 - i) + 6 | _ \<Rightarrow> 0)"

lemma alter_mu_exit: "apc t = M_exit c \<Longrightarrow> alter_mu n t = 0" "apc t = M_undef \<Longrightarrow> alter_mu n t = 0"
  by (simp_all add: alter_mu_def)










text \<open>
  A remainder longer than a block is read into the buffer all the same; a request that is not
  accepted is waited for without end; a read that fails has the old contents of the buffer written.
\<close>

lemma alter_overruns:
  "map_option apc (run_schedule (alter_act 3 0 2) ([Al_main True, Al_main True, Al_end True] @ map Al_notify (replicate 7 0) @
     replicate 4 (Al_main True) @ [Al_main True, Al_main True, Al_end True] @ map Al_notify (replicate 7 0) @
     replicate 4 (Al_main True) @ [Al_main True, Al_main True, Al_end True] @ map Al_notify (replicate 7 0) @
     replicate 4 (Al_main True) @ [Al_main True, Al_main True, Al_end True]) (alter_start [97, 98] 0)) = Some M_undef"
  by code_simp

lemma alter_waits_forever:
  assumes "run_schedule (alter_act 1 3 0) [Al_main True, Al_main False] (alter_start [97, 98, 99] 3) = Some s"
  shows "alter_act 1 3 0 a s = None"
  using assms by (cases a) (auto simp: alter_act_def alter_main_def aio_end_def aio_notify_def alter_start_def)

lemma alter_stale:
  "map_option afile (run_schedule (alter_act 1 3 0) ([Al_main True, Al_main True, Al_end False] @ replicate 6 (Al_notify 3))
     (alter_start [97, 98, 99] 3)) = Some [32, 32, 32]"
  by code_simp


section \<open>The set-up\<close>

definition alter_usage :: "byte list \<Rightarrow> ('g, 'a) prog" where
  "alter_usage name =
     bind_m (eprintf (name @ str '' filename n'' @ [10])) (\<lambda>_.
     bind_m (eprintf (str ''filename - path to the file to work on'' @ [10])) (\<lambda>_.
     bind_m (eprintf (str ''n - number of blocks'' @ [10])) (\<lambda>_. halt_m (Exit 1))))"

text \<open>\<open>getfilelength\<close>: \<open>fstat\<close> stores the size of the file.\<close>

definition alter_getfilelength :: "int \<Rightarrow> ('g, int) prog" where
  "alter_getfilelength fd =
     bind_m (sys SYS_fstat [fd] [] (\<lambda>r. status_ok r \<and> (r_val r = 0 \<longrightarrow> (\<exists>l \<ge> 0. r_vals r = [l])))) (\<lambda>r.
     if r_val r = -1 then err_exit ''fstat'' else ret (r_vals r ! 0))"

definition alter_sethandler :: "'g handler \<Rightarrow> nat \<Rightarrow> ('g, unit) prog" where
  "alter_sethandler f sigNo = bind_m (sys_sigaction sigNo f) (\<lambda>r. if r_val r = -1 then err_exit ''sigaction'' else ret ())"

text \<open>\<open>main\<close> up to its loop; the sizes are converted from \<open>off_t\<close> to \<open>int\<close>.\<close>

definition alter_sizes :: "int \<Rightarrow> int \<Rightarrow> int \<Rightarrow> int \<times> int" where
  "alter_sizes l1 l2 n = (to_int32 (l1 div n), to_int32 (l2 mod n))"

definition alter_setup :: "byte list list \<Rightarrow> (bool, int \<times> int \<times> int) prog" where
  "alter_setup argv =
     bind_m (if length argv \<noteq> 3 then alter_usage (argv ! 0) else ret ()) (\<lambda>_.
     let n = atoi (argv ! 2) in
     if n \<le> 0 then alter_usage (argv ! 0)
     else bind_m (retry (sys SYS_open [2] (cstr (argv ! 1)) fd_ok)) (\<lambda>f.
     if r_val f = -1 then err_exit ''open''
     else bind_m (alter_getfilelength (r_val f)) (\<lambda>l1.
     bind_m (alter_getfilelength (r_val f)) (\<lambda>l2.
     let (bs, rs) = alter_sizes l1 l2 n in
     bind_m (sys SYS_malloc [bs] [] any_ok) (\<lambda>m.
     if r_val m = 0 then err_exit ''malloc''
     else bind_m (alter_getfilelength (r_val f)) (\<lambda>l3.
     bind_m (printf (str ''Total size: '' @ fmt_d l3 @ [10])) (\<lambda>_.
     bind_m (printf (str ''Blocks 0 - '' @ fmt_d n @ str '' : '' @ fmt_d bs @ [10])) (\<lambda>_.
     case c_int (n + 1) of None \<Rightarrow> halt_m Undef
     | Some n1 \<Rightarrow> bind_m (printf (str ''Remiander block ('' @ fmt_d n1 @ str '') : '' @ fmt_d rs @ [10])) (\<lambda>_.
     bind_m (printf (str ''Last character omitted from operation'' @ [10])) (\<lambda>_.
     bind_m (sys SYS_malloc [40] [] any_ok) (\<lambda>ta.
     if r_val ta = 0 then err_exit ''malloc''
     else bind_m (alter_sethandler (Handler (\<lambda>sig r. (sigio_handler r, []))) SIGIO) (\<lambda>_.
     bind_m (sigprocmask_block [SIGIO]) (\<lambda>oldmask. ret (n, bs, rs))))))))))))))"

text \<open>For a file below 2 GB that keeps its length these are the sizes of the runs above.\<close>

lemma alter_sizes_exact:
  assumes "int l < 2 ^ 31" "0 < n"
  shows "map_prod nat nat (alter_sizes (int l) (int l) n) = (l div nat n, l mod nat n)"
proof -
  obtain k where n: "n = int k" "0 < k" using assms(2) by (metis pos_int_cases)
  have small: "to_int32 (int m) = int m" if "m \<le> l" for m
    by (rule to_int32_id) (use that assms(1) in \<open>auto simp: in_int_iff\<close>)
  have "to_int32 (int (l div k)) = int (l div k)" "to_int32 (int (l mod k)) = int (l mod k)" by (rule small, simp)+
  then show ?thesis by (simp add: n alter_sizes_def flip: zdiv_int zmod_int)
qed

lemma alter_setup_blocks:
  "wp (alter_setup argv) (\<lambda>(n, bs, rs) w1. 0 < n \<and> SIGIO \<in> set (sigmask w1)) (\<lambda>h w1. True) w"
proof -
  have call: "wp (sys n a p good) Q (\<lambda>h w1. True) v"
    if "\<And>r w1. good r \<Longrightarrow> Q r w1" for n a p good Q and v :: "bool world"
    by (rule wp_sys) (use that in auto)
  have opened: "wp (retry (sys n a p good)) Q (\<lambda>h w1. True) v" if "\<And>r w1. Q r w1" for n a p good Q and v :: "bool world"
    by (rule wp_retry [where I = "\<lambda>w. True"]) (auto intro!: wp_sys simp: that sys_post_def)
  show ?thesis
    by (auto simp: alter_setup_def alter_usage_def alter_getfilelength_def alter_sethandler_def sys_sigaction_def
        sigprocmask_block_def wp_rules wp_pure Let_def split: prod.splits option.splits intro!: call opened)
qed

end
