(* ===== verification/Spec2Isabelle.thy ===== *)
theory Spec2Isabelle
  imports Calculator FileTransfer PipeSignals BallsBins ArrayRemoval StudentLife PiEstimation TimeServer ThreadPool
    BlockReverse GradedServer Bingo Pastry Newspaper Championship Children SignalRounds SignalCount BlockCopy RootThreads
    DigitSum ArithQueues VisitThreads SignalTally AlterBlocks
begin

text \<open>
  A verification library for OPS-Archive, a collection of C programs for an operating systems
  course: processes and signals (\<open>Lab2\<close>), pipes and FIFOs (\<open>Lab2_1\<close>, \<open>Lab2_1_Graded\<close>), message
  queues (\<open>L2_2\<close>, \<open>L2_2_Graded\<close>), threads (\<open>Lab3\<close>), asynchronous I/O (\<open>Lab4\<close>), sockets (\<open>L2_3\<close>,
  \<open>L2_3_Graded\<close>) and networked services with threads (\<open>L2_4\<close>, \<open>L2_4_Graded\<close>). The programs of one
  directory talk to each other through the kernel; they share code by copy (\<open>ERR\<close>, \<open>sethandler\<close>,
  \<open>bulk_read\<close>, \<open>bulk_write\<close>, the socket helpers of \<open>socket_lib.h\<close>). A helper is modelled once and
  used by the models of all programs that carry the same text; where copies differ, each text
  has its definition.
\<close>

text \<open>
  Two execution models.

  Sequential programs (theory \<open>Posix\<close>). A program is a function of a world with the replies the
  kernel is going to give (the script), the trace of what was done, errno, the signal
  dispositions, mask and pending signals, and the program's globals. A call consumes one entry
  of the script: signals that arrive during it, then the reply. A call is described by its
  documented contract (the predicate given to \<open>sys\<close>: a \<open>read\<close> of n bytes answers -1 or at most n
  bytes, and so on), never by an implementation, and theorems quantify over all worlds. A
  program ends by returning, by an exit, by a signal, by undefined behaviour (\<open>Undef\<close>: out of
  bounds, signed overflow), by a turn of a loop that makes no call (\<open>Spin\<close>), or by an exhausted
  script (\<open>Blocked\<close>: a call that never answers). Loops that make calls end because the script gets
  shorter; no fuel is needed, and "blocked" is told apart from "returns". Proofs go through the
  weakest precondition \<open>wp\<close> and its rules (collection \<open>wp_rules\<close>), with loop invariants.

  Interleaved programs (theory \<open>Threads\<close> and the \<open>inv_system\<close>, \<open>terminating_system\<close> locales of
  \<open>Prelude\<close>). A state is a record of the shared variables, the mutexes and a list of threads,
  each a program point with its local variables. One step is one library call or one access to
  a shared variable, so a read-modify-write outside a mutex is two steps. An action names the
  thread that moves and what the kernel answers; \<open>run_schedule\<close> executes a list of actions, for
  the witnesses. Invariants hold in all reachable states; a measure and a progress lemma give
  termination. Doubles are a record of operations left open (\<open>PiEstimation\<close>, \<open>RootThreads\<close>), so
  that theorems hold for every rounding, or the model keeps the exact numbers they are made of.
\<close>

text \<open>
  The theories.

  \<^item> \<open>Prelude\<close>, \<open>CLib\<close>, \<open>Posix\<close>, \<open>Threads\<close>: generic lemmas and locales; C strings, \<open>atoi\<close>, \<open>%d\<close>,
    network byte order; the two execution models.
  \<^item> \<open>BulkIO\<close>, \<open>Sockets\<close>: \<open>bulk_read\<close>, \<open>bulk_write\<close> and the helpers of \<open>L2_3/socket_lib/socket_lib.h\<close>:
    every byte arrives once and in order across short and interrupted transfers, which bytes are
    stored where, and in which order the socket calls are made.
  \<^item> \<open>Calculator\<close> (\<open>L2_3/calculator_*.c\<close>): the arithmetic, one session of client and server, the
    closing of every accepted connection.
  \<^item> \<open>ConnTable\<close>, \<open>FileServer\<close>, \<open>FileTransfer\<close> (\<open>L2_3/file_server.c\<close>, \<open>file_client_udp.c\<close>): the table of
    peers behind a locale, the handling of a datagram, and the two programs over a network that
    loses, repeats and delays: the file is printed in order, and the transfer can always finish.
  \<^item> \<open>DigitSum\<close> (\<open>L2_3/test_prog\<close>): the digit sum against the printed number, a client served, the
    maximum the server prints.
  \<^item> \<open>ArithQueues\<close> (\<open>L2_2/test_server.c\<close>, \<open>test_client.c\<close>): a checker of traces that every behaviour of the
    server satisfies, with SIGINT at any moment; a round seen from the client.
  \<^item> \<open>GradedServer\<close> (\<open>L2_3_Graded/server.c\<close>): what the server stores and its bound.
  \<^item> \<open>Codec\<close>, \<open>Fifo\<close>, \<open>PipeGame\<close>, \<open>RingGame\<close>, \<open>PipeSignals\<close> (\<open>Lab2_1\<close>, \<open>Lab2_1_Graded\<close>): the message
    formats as instances of one locale, the copying of files through FIFOs, the topology of the
    ring, the pipes of the signal exercises.
  \<^item> \<open>BallsBins\<close>, \<open>ArrayRemoval\<close>, \<open>StudentLife\<close>, \<open>PiEstimation\<close> (\<open>Lab3/prog17.c\<close> to \<open>prog20.c\<close>): conservation
    and termination of the concurrent counters, deletion against its abstract specification,
    cancellation and joining.
  \<^item> \<open>RootThreads\<close> (\<open>Lab3/test2.c\<close>): threads that share an array under one mutex compute what they
    compute one after the other. \<open>VisitThreads\<close> (\<open>Lab3/test.c\<close>): each element is visited once, and
    when the mutexes of the elements leave their array.
  \<^item> \<open>Children\<close>, \<open>SignalRounds\<close>, \<open>SignalCount\<close>, \<open>BlockCopy\<close> (\<open>Lab2/prog13a.c\<close> to \<open>prog16b.c\<close>): reaping
    and counting of children, the rounds of signals and the verdicts on them, the counting of
    SIGUSR2 with \<open>sigsuspend\<close> and how one is lost, copying under a storm of signals. \<open>SignalTally\<close> (\<open>Lab2/test.c\<close>): a hundred signals
    counted, and the way to the end from every state.
  \<^item> \<open>TimeServer\<close>, \<open>ThreadPool\<close> (\<open>L2_4\<close>) and \<open>Championship\<close> (\<open>L2_4_Graded/server.c\<close>): the permits of the
    semaphore, the exact count of idle threads of the pool and its races, the hand-over of
    numbers through a condition variable and a barrier.
  \<^item> \<open>BlockReverse\<close> (\<open>Lab4/archunix5a.c\<close>): the three-buffer pipeline of asynchronous requests
    reverses the blocks it claims to. \<open>AlterBlocks\<close> (\<open>Lab4/test.c\<close>): the file at every moment of an
    alteration by notification threads, and when the buffer is overrun.
  \<^item> \<open>Bingo\<close>, \<open>Pastry\<close>, \<open>Newspaper\<close> (\<open>L2_2\<close>, \<open>L2_2_Graded\<close>): the message queue programs: who has been
    told what, when a client gives up, what a page contains.
\<close>

text \<open>
  Bounds. Machine integers are kept at their width where they can wrap or overflow (\<open>'w word\<close>, or
  \<open>int\<close> with an overflow test that gives \<open>Undef\<close>); sizes of arrays are those of the source, and a
  write outside is \<open>Undef\<close>. Waiting loops of two communicating programs are step relations; the
  bounds in the theorems (1240 steps of the championship, the measures of the other systems) are
  the initial values of the measures.

  Not modelled, and why. \<open>Test/L2/main.c\<close> has an empty \<open>main\<close>; makefiles, editor settings, binaries and archives are not program text. The
  kernel and the C library are parameters: their replies are arbitrary within the documented
  contract. Memory allocation is a call that may fail; freeing is not tracked. Source line
  numbers printed by \<open>ERR\<close> are left out of the trace. In the interleaved models \<open>printf\<close> is one
  step.
\<close>

end
